theory Spec2Isabelle
  imports Main
begin

section \<open>The element arena of a tree\<close>

text \<open>
  The tree of \<^verbatim>\<open>genesis/tree\<close> is a pointer graph: links, nodes and edges are heap
  objects that refer to each other by address, and the tree owns them through three
  vectors of \<^verbatim>\<open>unique_ptr\<close>. Addresses are stable, the \<^verbatim>\<open>index_\<close> stored in an object
  is not: it is renumbered when the vectors are compacted. The model therefore keeps an
  explicit store per element type (a list of cells, the address being the position, a
  cell that was freed or is not yet initialised being \<open>None\<close>) next to the three
  vectors of addresses.
\<close>

type_synonym addr = nat

record link =
  l_index :: nat
  l_next :: addr
  l_outer :: addr
  l_node :: addr
  l_edge :: addr

record 'n node =
  n_index :: nat
  n_link :: addr
  n_data :: "'n option"

record 'e edge =
  e_index :: nat
  e_link_p :: addr
  e_link_s :: addr
  e_data :: "'e option"

record ('n, 'e) world =
  link_mem :: "link option list"
  node_mem :: "'n node option list"
  edge_mem :: "'e edge option list"
  links :: "addr list"
  nodes :: "addr list"
  edges :: "addr list"
  root_link_index :: nat

text \<open>
  What a call can do: return, throw the \<^verbatim>\<open>std::runtime_error\<close> (or the
  \<^verbatim>\<open>out_of_range\<close> of a bounds-checked accessor), run into undefined behaviour (a null
  payload pointer, a pointer to a freed object, an iterator past the end), or loop forever.
  Every operation returns the store it leaves behind together with its outcome.
\<close>

datatype error = NotPartOfTree | NotALeaf | NotLinear | OutOfRange

datatype fault = NullPointer | Dangling | BadIterator

datatype 'a outcome = Returns 'a | Throws error | Faults fault | Diverges

definition ret :: "'a \<Rightarrow> 'w \<Rightarrow> 'a outcome \<times> 'w" where
  "ret x w = (Returns x, w)"

definition throw :: "error \<Rightarrow> 'w \<Rightarrow> 'a outcome \<times> 'w" where
  "throw e w = (Throws e, w)"

definition crash :: "fault \<Rightarrow> 'w \<Rightarrow> 'a outcome \<times> 'w" where
  "crash f w = (Faults f, w)"

definition bind :: "('w \<Rightarrow> 'a outcome \<times> 'w) \<Rightarrow> ('a \<Rightarrow> 'w \<Rightarrow> 'b outcome \<times> 'w)
    \<Rightarrow> 'w \<Rightarrow> 'b outcome \<times> 'w" where
  "bind m f w =
     (case m w of
        (Returns x, w') \<Rightarrow> f x w'
      | (Throws e, w') \<Rightarrow> (Throws e, w')
      | (Faults c, w') \<Rightarrow> (Faults c, w')
      | (Diverges, w') \<Rightarrow> (Diverges, w'))"

primrec for_each :: "'a list \<Rightarrow> ('a \<Rightarrow> 'w \<Rightarrow> unit outcome \<times> 'w) \<Rightarrow> 'w \<Rightarrow> unit outcome \<times> 'w" where
  "for_each [] f = ret ()"
| "for_each (x # xs) f = bind (f x) (\<lambda>_. for_each xs f)"

definition cell :: "'a option list \<Rightarrow> addr \<Rightarrow> 'a option" where
  "cell m a = (if a < length m then m ! a else None)"

subsection \<open>Dereferencing\<close>

definition link_ref :: "addr \<Rightarrow> ('n, 'e) world \<Rightarrow> link outcome \<times> ('n, 'e) world" where
  "link_ref a w = (case cell (link_mem w) a of None \<Rightarrow> crash Dangling w | Some l \<Rightarrow> ret l w)"

definition node_ref :: "addr \<Rightarrow> ('n, 'e) world \<Rightarrow> 'n node outcome \<times> ('n, 'e) world" where
  "node_ref a w = (case cell (node_mem w) a of None \<Rightarrow> crash Dangling w | Some n \<Rightarrow> ret n w)"

definition edge_ref :: "addr \<Rightarrow> ('n, 'e) world \<Rightarrow> 'e edge outcome \<times> ('n, 'e) world" where
  "edge_ref a w = (case cell (edge_mem w) a of None \<Rightarrow> crash Dangling w | Some e \<Rightarrow> ret e w)"

definition link_index :: "addr \<Rightarrow> ('n, 'e) world \<Rightarrow> nat outcome \<times> ('n, 'e) world" where
  "link_index a = bind (link_ref a) (\<lambda>l. ret (l_index l))"

definition link_next :: "addr \<Rightarrow> ('n, 'e) world \<Rightarrow> addr outcome \<times> ('n, 'e) world" where
  "link_next a = bind (link_ref a) (\<lambda>l. ret (l_next l))"

definition link_outer :: "addr \<Rightarrow> ('n, 'e) world \<Rightarrow> addr outcome \<times> ('n, 'e) world" where
  "link_outer a = bind (link_ref a) (\<lambda>l. ret (l_outer l))"

definition link_node :: "addr \<Rightarrow> ('n, 'e) world \<Rightarrow> addr outcome \<times> ('n, 'e) world" where
  "link_node a = bind (link_ref a) (\<lambda>l. ret (l_node l))"

definition link_edge :: "addr \<Rightarrow> ('n, 'e) world \<Rightarrow> addr outcome \<times> ('n, 'e) world" where
  "link_edge a = bind (link_ref a) (\<lambda>l. ret (l_edge l))"

definition node_index :: "addr \<Rightarrow> ('n, 'e) world \<Rightarrow> nat outcome \<times> ('n, 'e) world" where
  "node_index a = bind (node_ref a) (\<lambda>n. ret (n_index n))"

text \<open>\<^verbatim>\<open>TreeNode::link()\<close> and \<^verbatim>\<open>TreeNode::primary_link()\<close> both return the stored link.\<close>

definition node_primary_link :: "addr \<Rightarrow> ('n, 'e) world \<Rightarrow> addr outcome \<times> ('n, 'e) world" where
  "node_primary_link a = bind (node_ref a) (\<lambda>n. ret (n_link n))"

definition edge_index :: "addr \<Rightarrow> ('n, 'e) world \<Rightarrow> nat outcome \<times> ('n, 'e) world" where
  "edge_index a = bind (edge_ref a) (\<lambda>e. ret (e_index e))"

definition edge_primary_link :: "addr \<Rightarrow> ('n, 'e) world \<Rightarrow> addr outcome \<times> ('n, 'e) world" where
  "edge_primary_link a = bind (edge_ref a) (\<lambda>e. ret (e_link_p e))"

definition edge_secondary_link :: "addr \<Rightarrow> ('n, 'e) world \<Rightarrow> addr outcome \<times> ('n, 'e) world" where
  "edge_secondary_link a = bind (edge_ref a) (\<lambda>e. ret (e_link_s e))"

text \<open>
  \<^verbatim>\<open>x.data_ptr()->recreate()\<close>: the payload is held by a \<^verbatim>\<open>unique_ptr\<close> that may be
  empty, and the call goes through the raw pointer without a check. The payload's
  \<^verbatim>\<open>recreate\<close> is a parameter of the model.
\<close>

definition node_recreate :: "('n \<Rightarrow> 'n) \<Rightarrow> addr \<Rightarrow> ('n, 'e) world \<Rightarrow> 'n outcome \<times> ('n, 'e) world" where
  "node_recreate rn a =
     bind (node_ref a) (\<lambda>n. case n_data n of None \<Rightarrow> crash NullPointer | Some d \<Rightarrow> ret (rn d))"

definition edge_recreate :: "('e \<Rightarrow> 'e) \<Rightarrow> addr \<Rightarrow> ('n, 'e) world \<Rightarrow> 'e outcome \<times> ('n, 'e) world" where
  "edge_recreate re a =
     bind (edge_ref a) (\<lambda>e. case e_data e of None \<Rightarrow> crash NullPointer | Some d \<Rightarrow> ret (re d))"

subsection \<open>Field updates\<close>

definition link_update :: "addr \<Rightarrow> (link \<Rightarrow> link) \<Rightarrow> ('n, 'e) world \<Rightarrow> unit outcome \<times> ('n, 'e) world" where
  "link_update a f w =
     (case cell (link_mem w) a of
        None \<Rightarrow> crash Dangling w
      | Some l \<Rightarrow> ret () (w\<lparr>link_mem := (link_mem w)[a := Some (f l)]\<rparr>))"

definition node_update :: "addr \<Rightarrow> ('n node \<Rightarrow> 'n node) \<Rightarrow> ('n, 'e) world \<Rightarrow> unit outcome \<times> ('n, 'e) world" where
  "node_update a f w =
     (case cell (node_mem w) a of
        None \<Rightarrow> crash Dangling w
      | Some n \<Rightarrow> ret () (w\<lparr>node_mem := (node_mem w)[a := Some (f n)]\<rparr>))"

definition edge_update :: "addr \<Rightarrow> ('e edge \<Rightarrow> 'e edge) \<Rightarrow> ('n, 'e) world \<Rightarrow> unit outcome \<times> ('n, 'e) world" where
  "edge_update a f w =
     (case cell (edge_mem w) a of
        None \<Rightarrow> crash Dangling w
      | Some e \<Rightarrow> ret () (w\<lparr>edge_mem := (edge_mem w)[a := Some (f e)]\<rparr>))"

definition link_reset_index :: "addr \<Rightarrow> nat \<Rightarrow> ('n, 'e) world \<Rightarrow> unit outcome \<times> ('n, 'e) world" where
  "link_reset_index a v = link_update a (\<lambda>l. l\<lparr>l_index := v\<rparr>)"

definition link_reset_next :: "addr \<Rightarrow> addr \<Rightarrow> ('n, 'e) world \<Rightarrow> unit outcome \<times> ('n, 'e) world" where
  "link_reset_next a v = link_update a (\<lambda>l. l\<lparr>l_next := v\<rparr>)"

definition link_reset_outer :: "addr \<Rightarrow> addr \<Rightarrow> ('n, 'e) world \<Rightarrow> unit outcome \<times> ('n, 'e) world" where
  "link_reset_outer a v = link_update a (\<lambda>l. l\<lparr>l_outer := v\<rparr>)"

definition link_reset_edge :: "addr \<Rightarrow> addr \<Rightarrow> ('n, 'e) world \<Rightarrow> unit outcome \<times> ('n, 'e) world" where
  "link_reset_edge a v = link_update a (\<lambda>l. l\<lparr>l_edge := v\<rparr>)"

definition node_reset_index :: "addr \<Rightarrow> nat \<Rightarrow> ('n, 'e) world \<Rightarrow> unit outcome \<times> ('n, 'e) world" where
  "node_reset_index a v = node_update a (\<lambda>n. n\<lparr>n_index := v\<rparr>)"

definition node_reset_primary_link :: "addr \<Rightarrow> addr \<Rightarrow> ('n, 'e) world \<Rightarrow> unit outcome \<times> ('n, 'e) world" where
  "node_reset_primary_link a v = node_update a (\<lambda>n. n\<lparr>n_link := v\<rparr>)"

definition edge_reset_index :: "addr \<Rightarrow> nat \<Rightarrow> ('n, 'e) world \<Rightarrow> unit outcome \<times> ('n, 'e) world" where
  "edge_reset_index a v = edge_update a (\<lambda>e. e\<lparr>e_index := v\<rparr>)"

definition edge_reset_primary_link :: "addr \<Rightarrow> addr \<Rightarrow> ('n, 'e) world \<Rightarrow> unit outcome \<times> ('n, 'e) world" where
  "edge_reset_primary_link a v = edge_update a (\<lambda>e. e\<lparr>e_link_p := v\<rparr>)"

definition edge_reset_secondary_link :: "addr \<Rightarrow> addr \<Rightarrow> ('n, 'e) world \<Rightarrow> unit outcome \<times> ('n, 'e) world" where
  "edge_reset_secondary_link a v = edge_update a (\<lambda>e. e\<lparr>e_link_s := v\<rparr>)"

subsection \<open>Allocation and the three vectors\<close>

text \<open>
  \<^verbatim>\<open>make_unique\<close> takes the next address of the store; the cell stays unreadable until
  the object's fields have been set (\<open>*_init\<close>, at the place where the source has
  finished populating the object). \<^verbatim>\<open>push_back\<close> hands the address to the vector.
\<close>

definition make_unique_link :: "('n, 'e) world \<Rightarrow> addr outcome \<times> ('n, 'e) world" where
  "make_unique_link w = (Returns (length (link_mem w)), w\<lparr>link_mem := link_mem w @ [None]\<rparr>)"

definition make_unique_node :: "('n, 'e) world \<Rightarrow> addr outcome \<times> ('n, 'e) world" where
  "make_unique_node w = (Returns (length (node_mem w)), w\<lparr>node_mem := node_mem w @ [None]\<rparr>)"

definition make_unique_edge :: "('n, 'e) world \<Rightarrow> addr outcome \<times> ('n, 'e) world" where
  "make_unique_edge w = (Returns (length (edge_mem w)), w\<lparr>edge_mem := edge_mem w @ [None]\<rparr>)"

definition link_init :: "addr \<Rightarrow> link \<Rightarrow> ('n, 'e) world \<Rightarrow> unit outcome \<times> ('n, 'e) world" where
  "link_init a l w =
     (if a < length (link_mem w) then ret () (w\<lparr>link_mem := (link_mem w)[a := Some l]\<rparr>)
      else crash Dangling w)"

definition node_init :: "addr \<Rightarrow> 'n node \<Rightarrow> ('n, 'e) world \<Rightarrow> unit outcome \<times> ('n, 'e) world" where
  "node_init a n w =
     (if a < length (node_mem w) then ret () (w\<lparr>node_mem := (node_mem w)[a := Some n]\<rparr>)
      else crash Dangling w)"

definition edge_init :: "addr \<Rightarrow> 'e edge \<Rightarrow> ('n, 'e) world \<Rightarrow> unit outcome \<times> ('n, 'e) world" where
  "edge_init a e w =
     (if a < length (edge_mem w) then ret () (w\<lparr>edge_mem := (edge_mem w)[a := Some e]\<rparr>)
      else crash Dangling w)"

definition links_push_back :: "addr \<Rightarrow> ('n, 'e) world \<Rightarrow> unit outcome \<times> ('n, 'e) world" where
  "links_push_back a w = ret () (w\<lparr>links := links w @ [a]\<rparr>)"

definition nodes_push_back :: "addr \<Rightarrow> ('n, 'e) world \<Rightarrow> unit outcome \<times> ('n, 'e) world" where
  "nodes_push_back a w = ret () (w\<lparr>nodes := nodes w @ [a]\<rparr>)"

definition edges_push_back :: "addr \<Rightarrow> ('n, 'e) world \<Rightarrow> unit outcome \<times> ('n, 'e) world" where
  "edges_push_back a w = ret () (w\<lparr>edges := edges w @ [a]\<rparr>)"

definition link_count :: "('n, 'e) world \<Rightarrow> nat outcome \<times> ('n, 'e) world" where
  "link_count w = ret (length (links w)) w"

definition node_count :: "('n, 'e) world \<Rightarrow> nat outcome \<times> ('n, 'e) world" where
  "node_count w = ret (length (nodes w)) w"

definition edge_count :: "('n, 'e) world \<Rightarrow> nat outcome \<times> ('n, 'e) world" where
  "edge_count w = ret (length (edges w)) w"

text \<open>
  \<^verbatim>\<open>v.erase( v.begin() + i )\<close> on a vector of \<^verbatim>\<open>unique_ptr\<close>: the element is removed, the
  later ones move down, and the object it owned is destroyed at once. An iterator past
  the end is undefined behaviour.
\<close>

definition erase_at :: "nat \<Rightarrow> 'a list \<Rightarrow> 'a list" where
  "erase_at i xs = take i xs @ drop (Suc i) xs"

definition links_erase :: "nat \<Rightarrow> ('n, 'e) world \<Rightarrow> unit outcome \<times> ('n, 'e) world" where
  "links_erase i w =
     (if i < length (links w)
      then ret () (w\<lparr>links := erase_at i (links w), link_mem := (link_mem w)[links w ! i := None]\<rparr>)
      else crash BadIterator w)"

definition nodes_erase :: "nat \<Rightarrow> ('n, 'e) world \<Rightarrow> unit outcome \<times> ('n, 'e) world" where
  "nodes_erase i w =
     (if i < length (nodes w)
      then ret () (w\<lparr>nodes := erase_at i (nodes w), node_mem := (node_mem w)[nodes w ! i := None]\<rparr>)
      else crash BadIterator w)"

definition edges_erase :: "nat \<Rightarrow> ('n, 'e) world \<Rightarrow> unit outcome \<times> ('n, 'e) world" where
  "edges_erase i w =
     (if i < length (edges w)
      then ret () (w\<lparr>edges := erase_at i (edges w), edge_mem := (edge_mem w)[edges w ! i := None]\<rparr>)
      else crash BadIterator w)"

text \<open>
  Modelled from the spec: the accessors of the Tree class used by
  \<^verbatim>\<open>manipulation.cpp\<close> (\<^verbatim>\<open>link_at\<close>, \<^verbatim>\<open>node_at\<close>, \<^verbatim>\<open>edge_at\<close>, \<^verbatim>\<open>root_link\<close>,
  \<^verbatim>\<open>root_node\<close>, \<^verbatim>\<open>reset_root_link_index\<close>) are not part of the sources at hand. The
  indexed accessors are bounds-checked, the root is resolved through the stored root-link
  index, and \<^verbatim>\<open>reset_root_link_index\<close> stores the index it is given.
\<close>

definition link_at :: "nat \<Rightarrow> ('n, 'e) world \<Rightarrow> addr outcome \<times> ('n, 'e) world" where
  "link_at i w = (if i < length (links w) then ret (links w ! i) w else throw OutOfRange w)"

definition node_at :: "nat \<Rightarrow> ('n, 'e) world \<Rightarrow> addr outcome \<times> ('n, 'e) world" where
  "node_at i w = (if i < length (nodes w) then ret (nodes w ! i) w else throw OutOfRange w)"

definition edge_at :: "nat \<Rightarrow> ('n, 'e) world \<Rightarrow> addr outcome \<times> ('n, 'e) world" where
  "edge_at i w = (if i < length (edges w) then ret (edges w ! i) w else throw OutOfRange w)"

definition root_link :: "('n, 'e) world \<Rightarrow> addr outcome \<times> ('n, 'e) world" where
  "root_link w = link_at (root_link_index w) w"

definition root_node :: "('n, 'e) world \<Rightarrow> addr outcome \<times> ('n, 'e) world" where
  "root_node = bind root_link link_node"

definition reset_root_link_index :: "nat \<Rightarrow> ('n, 'e) world \<Rightarrow> unit outcome \<times> ('n, 'e) world" where
  "reset_root_link_index i w = ret () (w\<lparr>root_link_index := i\<rparr>)"

text \<open>
  Modelled from the spec: \<^verbatim>\<open>belongs_to\<close> is declared in
  \<^verbatim>\<open>genesis/tree/function/operators.hpp\<close>, which is not part of the sources at hand. An
  element belongs to the tree when the tree's collection holds it.
\<close>

definition belongs_to_link :: "addr \<Rightarrow> ('n, 'e) world \<Rightarrow> bool" where
  "belongs_to_link a w = (a \<in> set (links w))"

definition belongs_to_node :: "addr \<Rightarrow> ('n, 'e) world \<Rightarrow> bool" where
  "belongs_to_node a w = (a \<in> set (nodes w))"

definition belongs_to_edge :: "addr \<Rightarrow> ('n, 'e) world \<Rightarrow> bool" where
  "belongs_to_edge a w = (a \<in> set (edges w))"

subsection \<open>Walking a ring\<close>

text \<open>
  \<^verbatim>\<open>while( &p->next() != target ) p = &p->next();\<close> The loop ends at the link whose
  \<open>next\<close> is the target; on a ring that never comes back to the target it does not end.
\<close>

partial_function (option) find_pred :: "link option list \<Rightarrow> addr \<Rightarrow> addr \<Rightarrow> (fault + addr) option" where
  "find_pred m target p =
     (case cell m p of
        None \<Rightarrow> Some (Inl Dangling)
      | Some l \<Rightarrow> if l_next l = target then Some (Inr p) else find_pred m target (l_next l))"

declare find_pred.simps [code]

definition lift_loop :: "(fault + 'a) option \<Rightarrow> 'w \<Rightarrow> 'a outcome \<times> 'w" where
  "lift_loop r w =
     (case r of None \<Rightarrow> (Diverges, w) | Some (Inl c) \<Rightarrow> (Faults c, w) | Some (Inr x) \<Rightarrow> (Returns x, w))"

definition walk_to_pred :: "addr \<Rightarrow> addr \<Rightarrow> ('n, 'e) world \<Rightarrow> addr outcome \<times> ('n, 'e) world" where
  "walk_to_pred target p w = lift_loop (find_pred (link_mem w) target p) w"


text \<open>
  \<^verbatim>\<open>c = &start->next(); while( c != start ) { ...; c = &c->next(); }\<close> The links of the
  ring of \<open>start\<close> after \<open>start\<close> itself, in ring order.
\<close>

partial_function (option) ring_others :: "link option list \<Rightarrow> addr \<Rightarrow> addr \<Rightarrow> addr list
    \<Rightarrow> (fault + addr list) option" where
  "ring_others m start c acc =
     (if c = start then Some (Inr (rev acc))
      else case cell m c of
        None \<Rightarrow> Some (Inl Dangling)
      | Some l \<Rightarrow> ring_others m start (l_next l) (c # acc))"

declare ring_others.simps [code]

definition links_after :: "addr \<Rightarrow> ('n, 'e) world \<Rightarrow> addr list outcome \<times> ('n, 'e) world" where
  "links_after start =
     bind (link_next start) (\<lambda>c. (\<lambda>w. lift_loop (ring_others (link_mem w) start c []) w))"

text \<open>
  Modelled from the spec: \<^verbatim>\<open>degree\<close>, \<^verbatim>\<open>is_leaf\<close> and \<^verbatim>\<open>is_root\<close> are declared in
  \<^verbatim>\<open>genesis/tree/function/functions.hpp\<close>, which is not part of the sources at hand. The
  degree of a node is the number of links in its ring, a leaf is a node of degree 1 (its
  one link is its own successor), and the root node is the owner of the link that the
  stored root-link index designates.
\<close>

definition degree :: "addr \<Rightarrow> ('n, 'e) world \<Rightarrow> nat outcome \<times> ('n, 'e) world" where
  "degree n =
     bind (node_primary_link n) (\<lambda>p. bind (links_after p) (\<lambda>ls. ret (Suc (length ls))))"

definition is_leaf :: "addr \<Rightarrow> ('n, 'e) world \<Rightarrow> bool outcome \<times> ('n, 'e) world" where
  "is_leaf n = bind (node_primary_link n) (\<lambda>p. bind (link_next p) (\<lambda>q. ret (q = p)))"

definition is_root :: "addr \<Rightarrow> ('n, 'e) world \<Rightarrow> bool outcome \<times> ('n, 'e) world" where
  "is_root n = bind root_node (\<lambda>r. ret (r = n))"

section \<open>Adding nodes\<close>

text \<open>\<^verbatim>\<open>TreeNode& add_new_node( Tree& tree, TreeNode& target_node )\<close>\<close>

definition add_new_node :: "('n \<Rightarrow> 'n) \<Rightarrow> ('e \<Rightarrow> 'e) \<Rightarrow> addr
    \<Rightarrow> ('n, 'e) world \<Rightarrow> addr outcome \<times> ('n, 'e) world" where
  "add_new_node rn re target_node w =
     (if \<not> belongs_to_node target_node w then throw NotPartOfTree w
      else
       (bind make_unique_link (\<lambda>con_link.
        bind make_unique_link (\<lambda>end_link.
        bind make_unique_node (\<lambda>end_node.
        bind make_unique_edge (\<lambda>con_edge.
        bind link_count (\<lambda>con_index.
        bind (node_primary_link target_node) (\<lambda>up_link.
        bind (walk_to_pred up_link up_link) (\<lambda>last_link.
        bind (link_reset_next last_link con_link) (\<lambda>_.
        bind (link_init con_link
               \<lparr>l_index = con_index, l_next = up_link, l_outer = end_link,
                l_node = target_node, l_edge = con_edge\<rparr>) (\<lambda>_.
        bind (links_push_back con_link) (\<lambda>_.
        bind link_count (\<lambda>end_index.
        bind (link_init end_link
               \<lparr>l_index = end_index, l_next = end_link, l_outer = con_link,
                l_node = end_node, l_edge = con_edge\<rparr>) (\<lambda>_.
        bind (links_push_back end_link) (\<lambda>_.
        bind node_count (\<lambda>new_node_index.
        bind (node_recreate rn target_node) (\<lambda>new_node_data.
        bind (node_init end_node
               \<lparr>n_index = new_node_index, n_link = end_link, n_data = Some new_node_data\<rparr>) (\<lambda>_.
        bind (nodes_push_back end_node) (\<lambda>_.
        bind edge_count (\<lambda>new_edge_index.
        bind (node_primary_link target_node) (\<lambda>pl.
        bind (link_edge pl) (\<lambda>pe.
        bind (edge_recreate re pe) (\<lambda>new_edge_data.
        bind (edge_init con_edge
               \<lparr>e_index = new_edge_index, e_link_p = con_link, e_link_s = end_link,
                e_data = Some new_edge_data\<rparr>) (\<lambda>_.
        bind (edges_push_back con_edge) (\<lambda>_.
        ret end_node)))))))))))))))))))))))) w)"

text \<open>
  \<^verbatim>\<open>TreeNode& add_new_node( Tree& tree, TreeEdge& target_edge, adjust_edges )\<close>. The
  callback receives the two edges by reference and may change the tree through them; an
  empty \<^verbatim>\<open>std::function\<close> is \<open>None\<close>.
\<close>

type_synonym ('n, 'e) edge_callback = "addr \<Rightarrow> addr \<Rightarrow> ('n, 'e) world \<Rightarrow> unit outcome \<times> ('n, 'e) world"

definition split_edge_rewire :: "('n \<Rightarrow> 'n) \<Rightarrow> ('e \<Rightarrow> 'e) \<Rightarrow> addr
    \<Rightarrow> ('n, 'e) world \<Rightarrow> (addr \<times> addr) outcome \<times> ('n, 'e) world" where
  "split_edge_rewire rn re target_edge =
       (bind make_unique_link (\<lambda>pri_link.
        bind make_unique_link (\<lambda>sec_link.
        bind make_unique_node (\<lambda>mid_node.
        bind make_unique_edge (\<lambda>sec_edge.
        bind link_count (\<lambda>pri_index.
        bind (edge_primary_link target_edge) (\<lambda>tp.
        bind (link_init pri_link
               \<lparr>l_index = pri_index, l_next = sec_link, l_outer = tp,
                l_node = mid_node, l_edge = target_edge\<rparr>) (\<lambda>_.
        bind (links_push_back pri_link) (\<lambda>_.
        bind link_count (\<lambda>sec_index.
        bind (edge_secondary_link target_edge) (\<lambda>ts.
        bind (link_init sec_link
               \<lparr>l_index = sec_index, l_next = pri_link, l_outer = ts,
                l_node = mid_node, l_edge = sec_edge\<rparr>) (\<lambda>_.
        bind (links_push_back sec_link) (\<lambda>_.
        bind node_count (\<lambda>new_node_index.
        bind (edge_primary_link target_edge) (\<lambda>tp2.
        bind (link_node tp2) (\<lambda>primary_node.
        bind (node_recreate rn primary_node) (\<lambda>new_node_data.
        bind (node_init mid_node
               \<lparr>n_index = new_node_index, n_link = pri_link, n_data = Some new_node_data\<rparr>) (\<lambda>_.
        bind (nodes_push_back mid_node) (\<lambda>_.
        bind edge_count (\<lambda>new_edge_index.
        bind (edge_secondary_link target_edge) (\<lambda>ts2.
        bind (edge_recreate re target_edge) (\<lambda>new_edge_data.
        bind (edge_init sec_edge
               \<lparr>e_index = new_edge_index, e_link_p = sec_link, e_link_s = ts2,
                e_data = Some new_edge_data\<rparr>) (\<lambda>_.
        bind (edges_push_back sec_edge) (\<lambda>_.
        bind (edge_primary_link target_edge) (\<lambda>tp3.
        bind (link_reset_outer tp3 pri_link) (\<lambda>_.
        bind (edge_secondary_link target_edge) (\<lambda>ts3.
        bind (link_reset_outer ts3 sec_link) (\<lambda>_.
        bind (edge_secondary_link target_edge) (\<lambda>ts4.
        bind (link_reset_edge ts4 sec_edge) (\<lambda>_.
        bind (edge_reset_secondary_link target_edge pri_link) (\<lambda>_.
        ret (mid_node, sec_edge))))))))))))))))))))))))))))))))"

definition add_new_node_on_edge :: "('n \<Rightarrow> 'n) \<Rightarrow> ('e \<Rightarrow> 'e) \<Rightarrow> addr
    \<Rightarrow> ('n, 'e) edge_callback option \<Rightarrow> ('n, 'e) world \<Rightarrow> addr outcome \<times> ('n, 'e) world" where
  "add_new_node_on_edge rn re target_edge adjust_edges w =
     (if \<not> belongs_to_edge target_edge w then throw NotPartOfTree w
      else
       (bind (split_edge_rewire rn re target_edge) (\<lambda>(mid_node, sec_edge).
        bind (case adjust_edges of None \<Rightarrow> ret () | Some f \<Rightarrow> f target_edge sec_edge) (\<lambda>_.
        ret mid_node))) w)"

section \<open>Deleting an edge\<close>

text \<open>\<^verbatim>\<open>void delete_edge( Tree& tree, TreeEdge& target_edge, adjust_nodes )\<close> has an empty body.\<close>

definition delete_edge :: "addr \<Rightarrow> ('n, 'e) edge_callback option
    \<Rightarrow> ('n, 'e) world \<Rightarrow> unit outcome \<times> ('n, 'e) world" where
  "delete_edge target_edge adjust_nodes w = ret () w"

section \<open>Deleting nodes\<close>

text \<open>
  \<^verbatim>\<open>for( size_t i = from; i < tree.edge_count(); ++i ) tree.edge_at(i).reset_index(i);\<close>
  and its siblings for links and nodes. The assertions of the source are not part of a
  release build and are left out.
\<close>

definition renumber_edges :: "nat \<Rightarrow> ('n, 'e) world \<Rightarrow> unit outcome \<times> ('n, 'e) world" where
  "renumber_edges from w =
     for_each [from ..< length (edges w)] (\<lambda>i. bind (edge_at i) (\<lambda>e. edge_reset_index e i)) w"

definition renumber_links :: "nat \<Rightarrow> ('n, 'e) world \<Rightarrow> unit outcome \<times> ('n, 'e) world" where
  "renumber_links from w =
     for_each [from ..< length (links w)] (\<lambda>i. bind (link_at i) (\<lambda>l. link_reset_index l i)) w"

definition renumber_nodes :: "nat \<Rightarrow> ('n, 'e) world \<Rightarrow> unit outcome \<times> ('n, 'e) world" where
  "renumber_nodes from w =
     for_each [from ..< length (nodes w)] (\<lambda>i. bind (node_at i) (\<lambda>n. node_reset_index n i)) w"

text \<open>
  \<^verbatim>\<open>links.erase( links.begin() + first ); links.erase( links.begin() + second - 1 );\<close>
  followed by the renumbering. With \<open>second = 0\<close> the second iterator is before the
  beginning of the vector.
\<close>

definition erase_two_links :: "nat \<Rightarrow> nat \<Rightarrow> ('n, 'e) world \<Rightarrow> unit outcome \<times> ('n, 'e) world" where
  "erase_two_links i j =
     (let first = min i j; second = max i j in
      bind (links_erase first) (\<lambda>_.
      bind (if second = 0 then crash BadIterator else links_erase (second - 1)) (\<lambda>_.
      renumber_links first)))"

text \<open>
  The first lines of \<^verbatim>\<open>delete_leaf_node\<close> and \<^verbatim>\<open>delete_linear_node\<close>:
  \<^verbatim>\<open>auto root_link = &tree.root_link();
  if( tree.root_node().index() == target_node.index() ) root_link = &target_node.link().outer();\<close>
\<close>

definition root_link_after_delete :: "addr \<Rightarrow> ('n, 'e) world \<Rightarrow> addr outcome \<times> ('n, 'e) world" where
  "root_link_after_delete target_node =
     bind root_link (\<lambda>tree_root_link.
     bind root_node (\<lambda>rn.
     bind (node_index rn) (\<lambda>root_node_index.
     bind (node_index target_node) (\<lambda>target_index.
     if root_node_index = target_index
     then bind (node_primary_link target_node) link_outer
     else ret tree_root_link))))"

text \<open>
  \<^verbatim>\<open>void delete_leaf_node( Tree& tree, TreeNode& target_node )\<close>, in two parts: the
  statements that erase the edge, the two links and the node, and in front of them the
  checks and the choice of the root link.
\<close>

definition delete_leaf_node_erase :: "addr \<Rightarrow> addr \<Rightarrow> ('n, 'e) world \<Rightarrow> unit outcome \<times> ('n, 'e) world" where
  "delete_leaf_node_erase target_node root_link_ptr =
        bind (node_primary_link target_node) (\<lambda>tl.
        bind (link_edge tl) (\<lambda>te.
        bind (edge_index te) (\<lambda>edge_idx.
        bind (edges_erase edge_idx) (\<lambda>_.
        bind (renumber_edges edge_idx) (\<lambda>_.
        bind (node_primary_link target_node) (\<lambda>tl2.
        bind (link_outer tl2) (\<lambda>attach_link.
        bind (link_next attach_link) (\<lambda>start.
        bind (walk_to_pred attach_link start) (\<lambda>link_ptr.
        bind (link_next link_ptr) (\<lambda>n1.
        bind (link_next n1) (\<lambda>n2.
        bind (link_reset_next link_ptr n2) (\<lambda>_.
        bind (link_index attach_link) (\<lambda>i1.
        bind (link_outer attach_link) (\<lambda>ao.
        bind (link_index ao) (\<lambda>i2.
        bind (erase_two_links i1 i2) (\<lambda>_.
        bind (node_index target_node) (\<lambda>node_idx.
        bind (nodes_erase node_idx) (\<lambda>_.
        bind (renumber_nodes node_idx) (\<lambda>_.
        bind (link_index root_link_ptr) (\<lambda>new_root_index.
        reset_root_link_index new_root_index))))))))))))))))))))"

definition delete_leaf_node :: "addr \<Rightarrow> ('n, 'e) world \<Rightarrow> unit outcome \<times> ('n, 'e) world" where
  "delete_leaf_node target_node w =
     (if \<not> belongs_to_node target_node w then throw NotPartOfTree w
      else
       (bind (degree target_node) (\<lambda>deg.
        if deg \<noteq> 1 then throw NotALeaf
        else
        bind (root_link_after_delete target_node) (\<lambda>root_link_ptr.
        delete_leaf_node_erase target_node root_link_ptr))) w)"

text \<open>
  \<^verbatim>\<open>void delete_linear_node( Tree& tree, TreeNode& target_node, adjust_edges )\<close>. The
  references \<^verbatim>\<open>pr_link\<close>, \<^verbatim>\<open>adj_link_p\<close> and \<^verbatim>\<open>adj_link_d\<close> are bound once, before the
  rewiring.
\<close>

definition delete_linear_node :: "addr \<Rightarrow> ('n, 'e) edge_callback option
    \<Rightarrow> ('n, 'e) world \<Rightarrow> unit outcome \<times> ('n, 'e) world" where
  "delete_linear_node target_node adjust_edges w =
     (if \<not> belongs_to_node target_node w then throw NotPartOfTree w
      else
       (bind (degree target_node) (\<lambda>deg.
        if deg \<noteq> 2 then throw NotLinear
        else
        bind (case adjust_edges of
                None \<Rightarrow> ret ()
              | Some f \<Rightarrow>
                  bind (node_primary_link target_node) (\<lambda>p.
                  bind (link_edge p) (\<lambda>remaining_edge.
                  bind (link_next p) (\<lambda>q.
                  bind (link_edge q) (\<lambda>deleted_edge.
                  f remaining_edge deleted_edge))))) (\<lambda>_.
        bind (root_link_after_delete target_node) (\<lambda>root_link_ptr.
        bind (node_primary_link target_node) (\<lambda>pr_link.
        bind (link_outer pr_link) (\<lambda>adj_link_p.
        bind (link_next pr_link) (\<lambda>pn.
        bind (link_outer pn) (\<lambda>adj_link_d.
        bind (link_reset_outer adj_link_p adj_link_d) (\<lambda>_.
        bind (link_reset_outer adj_link_d adj_link_p) (\<lambda>_.
        bind (link_edge adj_link_p) (\<lambda>edge_p.
        bind (edge_reset_secondary_link edge_p adj_link_d) (\<lambda>_.
        bind (link_edge adj_link_d) (\<lambda>edge_d.
        bind (edge_reset_primary_link edge_d adj_link_p) (\<lambda>_.
        bind (node_primary_link target_node) (\<lambda>tp.
        bind (link_edge tp) (\<lambda>tpe.
        bind (link_reset_edge adj_link_d tpe) (\<lambda>_.
        bind (link_next pr_link) (\<lambda>pn2.
        bind (link_edge pn2) (\<lambda>dead_edge.
        bind (edge_index dead_edge) (\<lambda>edge_idx.
        bind (edges_erase edge_idx) (\<lambda>_.
        bind (renumber_edges edge_idx) (\<lambda>_.
        bind (link_index pr_link) (\<lambda>i1.
        bind (link_next pr_link) (\<lambda>pn3.
        bind (link_index pn3) (\<lambda>i2.
        bind (erase_two_links i1 i2) (\<lambda>_.
        bind (node_index target_node) (\<lambda>node_idx.
        bind (nodes_erase node_idx) (\<lambda>_.
        bind (renumber_nodes node_idx) (\<lambda>_.
        bind (link_index root_link_ptr) (\<lambda>new_root_index.
        reset_root_link_index new_root_index)))))))))))))))))))))))))))))) w)"

text \<open>
  Modelled from the spec: the \<^verbatim>\<open>Subtree\<close> view and the \<^verbatim>\<open>preorder\<close> iterator
  (\<^verbatim>\<open>genesis/tree/tree/subtree.hpp\<close>, \<^verbatim>\<open>genesis/tree/iterator/preorder.hpp\<close>) are not part
  of the sources at hand. A subtree is identified by a single link and denotes the node at
  that link plus everything reachable by following next within rings and outer across
  edges, away from the link's outer side; the subtree of a node is the one of its primary
  link. The pre-order walk visits a node before its subtrees, the children of a node in
  ring order, and yields for each node the link that faces the way the walk came from.
\<close>

definition Subtree :: "addr \<Rightarrow> ('n, 'e) world \<Rightarrow> addr outcome \<times> ('n, 'e) world" where
  "Subtree n = node_primary_link n"

partial_function (option) preorder_walk :: "link option list \<Rightarrow> addr list \<Rightarrow> addr list
    \<Rightarrow> (fault + addr list) option" where
  "preorder_walk m stack acc =
     (case stack of
        [] \<Rightarrow> Some (Inr (rev acc))
      | l # rest \<Rightarrow>
          (case cell m l of
             None \<Rightarrow> Some (Inl Dangling)
           | Some lk \<Rightarrow>
               (case ring_others m l (l_next lk) [] of
                  None \<Rightarrow> None
                | Some (Inl c) \<Rightarrow> Some (Inl c)
                | Some (Inr cs) \<Rightarrow>
                    (case those (map (\<lambda>c. map_option l_outer (cell m c)) cs) of
                       None \<Rightarrow> Some (Inl Dangling)
                     | Some outs \<Rightarrow> preorder_walk m (outs @ rest) (l # acc)))))"

declare preorder_walk.simps [code]

definition preorder :: "addr \<Rightarrow> ('n, 'e) world \<Rightarrow> addr list outcome \<times> ('n, 'e) world" where
  "preorder subtree_link w = lift_loop (preorder_walk (link_mem w) [subtree_link] []) w"

text \<open>The body of the loop over the pre-order walk in \<^verbatim>\<open>delete_subtree\<close>.\<close>

primrec collect_subtree :: "addr list \<Rightarrow> nat list \<times> nat list \<times> nat list \<times> bool
    \<Rightarrow> ('n, 'e) world \<Rightarrow> (nat list \<times> nat list \<times> nat list \<times> bool) outcome \<times> ('n, 'e) world" where
  "collect_subtree [] acc = ret acc"
| "collect_subtree (l # ls) acc =
     (case acc of (del_nodes, del_edges, del_links, contains_root) \<Rightarrow>
        bind (link_node l) (\<lambda>n.
        bind (node_index n) (\<lambda>ni.
        bind (link_edge l) (\<lambda>e.
        bind (edge_index e) (\<lambda>ei.
        bind (link_index l) (\<lambda>li.
        bind (link_outer l) (\<lambda>lo.
        bind (link_index lo) (\<lambda>oi.
        bind (is_root n) (\<lambda>r.
        collect_subtree ls
          (del_nodes @ [ni], del_edges @ [ei], del_links @ [li, oi], contains_root \<or> r))))))))))"

text \<open>
  The compaction loop of \<^verbatim>\<open>delete_subtree\<close>: \<open>i\<close> runs over the old vector, \<open>k\<close> is
  the position in the sorted deletion list, and a surviving element is stamped with
  \<open>i - k\<close> and moved to the new vector.
\<close>

primrec compact_loop :: "(addr \<Rightarrow> nat \<Rightarrow> 'w \<Rightarrow> unit outcome \<times> 'w) \<Rightarrow> nat list \<Rightarrow> addr list
    \<Rightarrow> nat \<Rightarrow> nat \<Rightarrow> addr list \<Rightarrow> 'w \<Rightarrow> addr list outcome \<times> 'w" where
  "compact_loop reset del [] i k new = ret new"
| "compact_loop reset del (a # old) i k new =
     (if k < length del \<and> del ! k = i
      then compact_loop reset del old (Suc i) (Suc k) new
      else bind (reset a (i - k)) (\<lambda>_. compact_loop reset del old (Suc i) k (new @ [a])))"

definition compact_nodes :: "nat list \<Rightarrow> ('n, 'e) world \<Rightarrow> addr list outcome \<times> ('n, 'e) world" where
  "compact_nodes del w =
     bind (compact_loop node_reset_index del (nodes w) 0 0 [])
       (\<lambda>new w'. ret (filter (\<lambda>a. a \<notin> set new) (nodes w')) (w'\<lparr>nodes := new\<rparr>)) w"

definition compact_edges :: "nat list \<Rightarrow> ('n, 'e) world \<Rightarrow> addr list outcome \<times> ('n, 'e) world" where
  "compact_edges del w =
     bind (compact_loop edge_reset_index del (edges w) 0 0 [])
       (\<lambda>new w'. ret (filter (\<lambda>a. a \<notin> set new) (edges w')) (w'\<lparr>edges := new\<rparr>)) w"

definition compact_links :: "nat list \<Rightarrow> ('n, 'e) world \<Rightarrow> addr list outcome \<times> ('n, 'e) world" where
  "compact_links del w =
     bind (compact_loop link_reset_index del (links w) 0 0 [])
       (\<lambda>new w'. ret (filter (\<lambda>a. a \<notin> set new) (links w')) (w'\<lparr>links := new\<rparr>)) w"

text \<open>
  The elements that were not moved stay in the old vectors, which after the \<^verbatim>\<open>swap\<close> are
  the local variables \<^verbatim>\<open>new_nodes\<close>, \<^verbatim>\<open>new_edges\<close> and \<^verbatim>\<open>new_links\<close>: their objects are
  destroyed when the function returns, not before.
\<close>

definition release :: "addr list \<Rightarrow> 'a option list \<Rightarrow> 'a option list" where
  "release dead m = fold (\<lambda>a m. m[a := None]) dead m"

definition leave_scope :: "addr list \<Rightarrow> addr list \<Rightarrow> addr list
    \<Rightarrow> ('n, 'e) world \<Rightarrow> unit outcome \<times> ('n, 'e) world" where
  "leave_scope dead_nodes dead_edges dead_links w =
     ret () (w\<lparr>node_mem := release dead_nodes (node_mem w),
               edge_mem := release dead_edges (edge_mem w),
               link_mem := release dead_links (link_mem w)\<rparr>)"

text \<open>
  \<^verbatim>\<open>new_nodes.reserve( old_nodes.size() - del_nodes.size() )\<close> is computed in \<^verbatim>\<open>size_t\<close>:
  a deletion list longer than the vector asks for more than a vector can hold.
\<close>

definition reserve_check :: "nat \<Rightarrow> nat \<Rightarrow> 'w \<Rightarrow> unit outcome \<times> 'w" where
  "reserve_check old_size del_size = (if del_size \<le> old_size then ret () else throw OutOfRange)"

text \<open>\<^verbatim>\<open>void delete_subtree( Tree& tree, Subtree const& subtree )\<close>\<close>

definition delete_subtree :: "addr \<Rightarrow> ('n, 'e) world \<Rightarrow> unit outcome \<times> ('n, 'e) world" where
  "delete_subtree subtree_link w =
     (if \<not> belongs_to_link subtree_link w then throw NotPartOfTree w
      else
       (bind (preorder subtree_link) (\<lambda>visited.
        bind (collect_subtree visited ([], [], [], False)) (\<lambda>(dn, de, dl, contains_root).
        let del_nodes = sort dn; del_edges = sort de; del_links = sort dl in
        bind (if contains_root then bind (link_outer subtree_link) link_next else root_link) (\<lambda>root_link_ptr.
        bind (link_outer subtree_link) (\<lambda>attach_link.
        bind (link_next attach_link) (\<lambda>start.
        bind (walk_to_pred attach_link start) (\<lambda>link_ptr.
        bind (link_index link_ptr) (\<lambda>lpi.
        bind (link_at lpi) (\<lambda>link_nc.
        bind (link_node link_nc) (\<lambda>nc_node.
        bind (node_primary_link nc_node) (\<lambda>nc_primary.
        bind (link_next link_nc) (\<lambda>nc_next.
        bind (if nc_primary = nc_next
              then bind (link_next nc_next) (\<lambda>nn. node_reset_primary_link nc_node nn)
              else ret ()) (\<lambda>_.
        bind (link_next link_nc) (\<lambda>n1.
        bind (link_next n1) (\<lambda>n2.
        bind (link_reset_next link_nc n2) (\<lambda>_.
        bind node_count (\<lambda>old_node_count.
        bind (reserve_check old_node_count (length del_nodes)) (\<lambda>_.
        bind edge_count (\<lambda>old_edge_count.
        bind (reserve_check old_edge_count (length del_edges)) (\<lambda>_.
        bind link_count (\<lambda>old_link_count.
        bind (reserve_check old_link_count (length del_links)) (\<lambda>_.
        bind (compact_nodes del_nodes) (\<lambda>dead_nodes.
        bind (compact_edges del_edges) (\<lambda>dead_edges.
        bind (compact_links del_links) (\<lambda>dead_links.
        bind (link_index root_link_ptr) (\<lambda>new_root_index.
        bind (reset_root_link_index new_root_index) (\<lambda>_.
        leave_scope dead_nodes dead_edges dead_links))))))))))))))))))))))))))) w)"

text \<open>\<^verbatim>\<open>void delete_node( Tree& tree, TreeNode& target_node )\<close>\<close>

definition delete_node :: "addr \<Rightarrow> ('n, 'e) world \<Rightarrow> unit outcome \<times> ('n, 'e) world" where
  "delete_node target_node w =
     (if \<not> belongs_to_node target_node w then throw NotPartOfTree w
      else
       (bind (degree target_node) (\<lambda>deg.
        if deg = 1 then delete_leaf_node target_node
        else if deg = 2 then delete_linear_node target_node None
        else bind (Subtree target_node) delete_subtree)) w)"

section \<open>Rerooting\<close>

text \<open>One round of the loop of \<^verbatim>\<open>reroot\<close>; the value is the next \<^verbatim>\<open>cur_link\<close>.\<close>

definition reroot_step :: "addr \<Rightarrow> ('n, 'e) world \<Rightarrow> addr outcome \<times> ('n, 'e) world" where
  "reroot_step cur_link =
     bind (link_edge cur_link) (\<lambda>e.
     bind (edge_primary_link e) (\<lambda>link_p_tmp.
     bind (edge_secondary_link e) (\<lambda>link_s_tmp.
     bind (edge_reset_primary_link e link_s_tmp) (\<lambda>_.
     bind (edge_reset_secondary_link e link_p_tmp) (\<lambda>_.
     bind (link_outer cur_link) (\<lambda>out.
     bind (link_node out) (\<lambda>next_node.
     bind (node_primary_link next_node) (\<lambda>to_root_link.
     bind (node_reset_primary_link next_node out) (\<lambda>_.
     ret to_root_link)))))))))"

partial_function (option) reroot_loop :: "addr \<Rightarrow> addr \<Rightarrow> ('n, 'e) world
    \<Rightarrow> (unit outcome \<times> ('n, 'e) world) option" where
  "reroot_loop old_root cur_link w =
     (case link_node cur_link w of
        (Returns n, w1) \<Rightarrow>
          if n = old_root then Some (Returns (), w1)
          else (case reroot_step cur_link w1 of
                  (Returns next_link, w2) \<Rightarrow> reroot_loop old_root next_link w2
                | (Throws e, w2) \<Rightarrow> Some (Throws e, w2)
                | (Faults c, w2) \<Rightarrow> Some (Faults c, w2)
                | (Diverges, w2) \<Rightarrow> Some (Diverges, w2))
      | (Throws e, w1) \<Rightarrow> Some (Throws e, w1)
      | (Faults c, w1) \<Rightarrow> Some (Faults c, w1)
      | (Diverges, w1) \<Rightarrow> Some (Diverges, w1))"

declare reroot_loop.simps [code]

definition run_loop :: "('a outcome \<times> 'w) option \<Rightarrow> 'w \<Rightarrow> 'a outcome \<times> 'w" where
  "run_loop r w = (case r of None \<Rightarrow> (Diverges, w) | Some x \<Rightarrow> x)"

text \<open>\<^verbatim>\<open>void reroot( Tree& tree, TreeLink& at_link )\<close>\<close>

definition reroot :: "addr \<Rightarrow> ('n, 'e) world \<Rightarrow> unit outcome \<times> ('n, 'e) world" where
  "reroot at_link w =
     (if \<not> belongs_to_link at_link w then throw NotPartOfTree w
      else
       (bind root_node (\<lambda>old_root.
        bind (link_index at_link) (\<lambda>i0.
        bind (link_at i0) (\<lambda>l0.
        bind (link_node l0) (\<lambda>n0.
        bind (node_primary_link n0) (\<lambda>cur_link.
        bind (link_index at_link) (\<lambda>i1.
        bind (reset_root_link_index i1) (\<lambda>_.
        bind (link_node at_link) (\<lambda>at_node.
        bind (link_index at_link) (\<lambda>i2.
        bind (link_at i2) (\<lambda>l2.
        bind (node_reset_primary_link at_node l2) (\<lambda>_.
        (\<lambda>w'. run_loop (reroot_loop old_root cur_link w') w'))))))))))))) w)"

text \<open>\<^verbatim>\<open>void reroot( Tree& tree, TreeNode& at_node )\<close>\<close>

definition reroot_node :: "addr \<Rightarrow> ('n, 'e) world \<Rightarrow> unit outcome \<times> ('n, 'e) world" where
  "reroot_node at_node w =
     (if \<not> belongs_to_node at_node w then throw NotPartOfTree w
      else bind (node_primary_link at_node) reroot w)"

text \<open>\<^verbatim>\<open>void reroot_at_node( Tree& tree, size_t node_index )\<close>\<close>

definition reroot_at_node :: "nat \<Rightarrow> ('n, 'e) world \<Rightarrow> unit outcome \<times> ('n, 'e) world" where
  "reroot_at_node idx w =
     (if idx \<ge> length (nodes w) then throw NotPartOfTree w
      else bind (node_at idx) reroot_node w)"

section \<open>Ladderize\<close>

datatype LadderizeOrder = kSmallFirst | kLargeFirst

text \<open>
  Modelled from the spec: \<^verbatim>\<open>utils::stable_sort_indices\<close>
  (\<^verbatim>\<open>genesis/utils/core/algorithm.hpp\<close>) is not part of the sources at hand. It returns the
  positions of the given values in the order of a stable sort by the given comparison:
  positions whose values the comparison does not separate keep their relative order.
\<close>

primrec insert_stable :: "('a \<Rightarrow> 'a \<Rightarrow> bool) \<Rightarrow> 'a \<Rightarrow> 'a list \<Rightarrow> 'a list" where
  "insert_stable lt x [] = [x]"
| "insert_stable lt x (y # ys) =
     (if lt y x then y # insert_stable lt x ys else x # y # ys)"

definition stable_sort_indices :: "nat list \<Rightarrow> (nat \<Rightarrow> nat \<Rightarrow> bool) \<Rightarrow> nat list" where
  "stable_sort_indices vals lt =
     foldr (insert_stable (\<lambda>i j. lt (vals ! i) (vals ! j))) [0 ..< length vals] []"

text \<open>
  \<^verbatim>\<open>child_sizes.push_back( sub_sizes[ link_it.link().outer().node().index() ] )\<close> for the
  links of the ring after the primary link; the vector is read without a bounds check.
\<close>

primrec child_sizes :: "nat list \<Rightarrow> addr list \<Rightarrow> ('n, 'e) world \<Rightarrow> nat list outcome \<times> ('n, 'e) world" where
  "child_sizes sub_sizes [] = ret []"
| "child_sizes sub_sizes (l # ls) =
     bind (link_outer l) (\<lambda>lo.
     bind (link_node lo) (\<lambda>n.
     bind (node_index n) (\<lambda>i.
     if i < length sub_sizes
     then bind (child_sizes sub_sizes ls) (\<lambda>r. ret (sub_sizes ! i # r))
     else crash BadIterator)))"

text \<open>
  \<^verbatim>\<open>for( auto i : child_order ) { cur_link->reset_next( child_links[i] ); cur_link = child_links[i]; }\<close>
  The value is the last \<^verbatim>\<open>cur_link\<close>.
\<close>

primrec relink :: "addr list \<Rightarrow> addr \<Rightarrow> ('n, 'e) world \<Rightarrow> addr outcome \<times> ('n, 'e) world" where
  "relink [] cur_link = ret cur_link"
| "relink (c # cs) cur_link = bind (link_reset_next cur_link c) (\<lambda>_. relink cs c)"

definition child_order :: "LadderizeOrder \<Rightarrow> nat list \<Rightarrow> nat list" where
  "child_order ord sizes =
     (if ord = kSmallFirst then stable_sort_indices sizes (\<lambda>a b. a < b)
      else stable_sort_indices sizes (\<lambda>a b. a > b))"

definition ladderize_node :: "LadderizeOrder \<Rightarrow> nat list \<Rightarrow> addr
    \<Rightarrow> ('n, 'e) world \<Rightarrow> unit outcome \<times> ('n, 'e) world" where
  "ladderize_node ord sub_sizes n =
     bind (is_leaf n) (\<lambda>leaf.
     if leaf then ret ()
     else
     bind (node_primary_link n) (\<lambda>p.
     bind (links_after p) (\<lambda>child_links.
     bind (child_sizes sub_sizes child_links) (\<lambda>sizes.
     bind (relink (map (\<lambda>i. child_links ! i) (child_order ord sizes)) p) (\<lambda>cur_link.
     bind (node_primary_link n) (\<lambda>p2.
     link_reset_next cur_link p2))))))"

text \<open>
  \<^verbatim>\<open>void ladderize( Tree& tree, LadderizeOrder order )\<close>. The function
  \<^verbatim>\<open>subtree_sizes\<close> (\<^verbatim>\<open>genesis/tree/function/functions.hpp\<close>) is not part of the sources
  at hand; the vector it returns, one size per node index, is a parameter of the model.
\<close>

definition ladderize :: "(('n, 'e) world \<Rightarrow> nat list) \<Rightarrow> LadderizeOrder
    \<Rightarrow> ('n, 'e) world \<Rightarrow> unit outcome \<times> ('n, 'e) world" where
  "ladderize subtree_sizes ord w =
     (let sub_sizes = subtree_sizes w in for_each (nodes w) (ladderize_node ord sub_sizes) w)"

section \<open>Example trees\<close>

text \<open>
  The tree \<^verbatim>\<open>((C,D)B,E,F)A\<close>, laid out the way the readers build it: every object at
  the address of its index, the links of a ring next to each other, the first link of an
  inner node facing the root.

  \<^item> links 0, 1, 2: the ring of A, towards B, E and F;
  \<^item> links 3, 4, 5: the ring of B, towards A, C and D;
  \<^item> links 6, 7, 8, 9: the leaves C, D, E and F;
  \<^item> edges 0 to 4: A-B, B-C, B-D, A-E, A-F.
\<close>

definition mk_link :: "nat \<Rightarrow> addr \<Rightarrow> addr \<Rightarrow> addr \<Rightarrow> addr \<Rightarrow> link option" where
  "mk_link i nx ou nd ed = Some \<lparr>l_index = i, l_next = nx, l_outer = ou, l_node = nd, l_edge = ed\<rparr>"

definition mk_node :: "nat \<Rightarrow> addr \<Rightarrow> string \<Rightarrow> string node option" where
  "mk_node i l d = Some \<lparr>n_index = i, n_link = l, n_data = Some d\<rparr>"

definition mk_edge :: "nat \<Rightarrow> addr \<Rightarrow> addr \<Rightarrow> nat \<Rightarrow> nat edge option" where
  "mk_edge i p s d = Some \<lparr>e_index = i, e_link_p = p, e_link_s = s, e_data = Some d\<rparr>"

definition tree6 :: "(string, nat) world" where
  "tree6 =
     \<lparr>link_mem =
        [mk_link 0 1 3 0 0, mk_link 1 2 8 0 3, mk_link 2 0 9 0 4,
         mk_link 3 4 0 1 0, mk_link 4 5 6 1 1, mk_link 5 3 7 1 2,
         mk_link 6 6 4 2 1, mk_link 7 7 5 3 2, mk_link 8 8 1 4 3, mk_link 9 9 2 5 4],
      node_mem =
        [mk_node 0 0 ''A'', mk_node 1 3 ''B'', mk_node 2 6 ''C'',
         mk_node 3 7 ''D'', mk_node 4 8 ''E'', mk_node 5 9 ''F''],
      edge_mem =
        [mk_edge 0 0 3 10, mk_edge 1 4 6 11, mk_edge 2 5 7 12, mk_edge 3 1 8 13, mk_edge 4 2 9 14],
      links = [0, 1, 2, 3, 4, 5, 6, 7, 8, 9],
      nodes = [0, 1, 2, 3, 4, 5],
      edges = [0, 1, 2, 3, 4],
      root_link_index = 0\<rparr>"

text \<open>Two nodes joined by one edge, none of them carrying a payload.\<close>

definition bare_tree :: "('n, 'e) world" where
  "bare_tree =
     \<lparr>link_mem = [mk_link 0 0 1 0 0, mk_link 1 1 0 1 0],
      node_mem = [Some \<lparr>n_index = 0, n_link = 0, n_data = None\<rparr>,
                  Some \<lparr>n_index = 1, n_link = 1, n_data = None\<rparr>],
      edge_mem = [Some \<lparr>e_index = 0, e_link_p = 0, e_link_s = 1, e_data = None\<rparr>],
      links = [0, 1],
      nodes = [0, 1],
      edges = [0],
      root_link_index = 0\<rparr>"

text \<open>
  The tree \<^verbatim>\<open>((P)X,Y,(Q,S)Z)R\<close> rooted at R: links 0 to 2 are the ring of R (towards X, Y
  and Z), links 3 and 4 the ring of X (towards R and P), link 5 is the link of the leaf Y,
  links 6 to 8 are the ring of Z (towards R, Q and S), and links 9 to 11 are the links of
  the leaves P, Q and S. Edges 0 to 5 are R-X, R-Y, R-Z, X-P, Z-Q and Z-S.
\<close>

definition tree7 :: "(string, nat) world" where
  "tree7 =
     \<lparr>link_mem =
        [mk_link 0 1 3 0 0, mk_link 1 2 5 0 1, mk_link 2 0 6 0 2,
         mk_link 3 4 0 1 0, mk_link 4 3 9 1 3,
         mk_link 5 5 1 2 1,
         mk_link 6 7 2 3 2, mk_link 7 8 10 3 4, mk_link 8 6 11 3 5,
         mk_link 9 9 4 4 3, mk_link 10 10 7 5 4, mk_link 11 11 8 6 5],
      node_mem =
        [mk_node 0 0 ''R'', mk_node 1 3 ''X'', mk_node 2 5 ''Y'', mk_node 3 6 ''Z'',
         mk_node 4 9 ''P'', mk_node 5 10 ''Q'', mk_node 6 11 ''S''],
      edge_mem =
        [mk_edge 0 0 3 10, mk_edge 1 1 5 11, mk_edge 2 2 6 12,
         mk_edge 3 4 9 13, mk_edge 4 7 10 14, mk_edge 5 8 11 15],
      links = [0, 1, 2, 3, 4, 5, 6, 7, 8, 9, 10, 11],
      nodes = [0, 1, 2, 3, 4, 5, 6],
      edges = [0, 1, 2, 3, 4, 5],
      root_link_index = 0\<rparr>"

section \<open>Invariants of the arena\<close>

text \<open>The index stored in the object at an address, if the address is live.\<close>

definition link_ix :: "('n, 'e) world \<Rightarrow> addr \<Rightarrow> nat option" where
  "link_ix w a = map_option l_index (cell (link_mem w) a)"

definition node_ix :: "('n, 'e) world \<Rightarrow> addr \<Rightarrow> nat option" where
  "node_ix w a = map_option n_index (cell (node_mem w) a)"

definition edge_ix :: "('n, 'e) world \<Rightarrow> addr \<Rightarrow> nat option" where
  "edge_ix w a = map_option e_index (cell (edge_mem w) a)"

text \<open>
  Invariant 1 of the data model: the element at position \<open>i\<close> of each collection is a
  live object whose stored index is \<open>i\<close>.
\<close>

definition indexed :: "('n, 'e) world \<Rightarrow> bool" where
  "indexed w \<longleftrightarrow>
     (\<forall>i < length (links w). link_ix w (links w ! i) = Some i)
   \<and> (\<forall>i < length (nodes w). node_ix w (nodes w ! i) = Some i)
   \<and> (\<forall>i < length (edges w). edge_ix w (edges w ! i) = Some i)"

text \<open>
  The references that leave a node or a link stay inside the tree: the primary link of a
  node of the tree is a link of the tree, and the outer of a link of the tree is another
  link of the tree.
\<close>

definition links_closed :: "('n, 'e) world \<Rightarrow> bool" where
  "links_closed w \<longleftrightarrow>
     (\<forall>n \<in> set (nodes w). \<forall>N. cell (node_mem w) n = Some N \<longrightarrow> n_link N \<in> set (links w))
   \<and> (\<forall>l \<in> set (links w). \<forall>L. cell (link_mem w) l = Some L \<longrightarrow>
         l_outer L \<in> set (links w) \<and> l_outer L \<noteq> l)"

text \<open>
  Further invariants of the data model: the stored root-link index is a position of the
  link collection; every link of the tree is a live object whose node and edge belong to
  the tree; and following \<open>next\<close> from a link comes back to that link through links of
  the tree (its ring is a cycle).
\<close>

definition refs_closed :: "('n, 'e) world \<Rightarrow> bool" where
  "refs_closed w \<longleftrightarrow>
     root_link_index w < length (links w)
   \<and> (\<forall>l \<in> set (links w).
        case cell (link_mem w) l of
          None \<Rightarrow> False
        | Some L \<Rightarrow>
            l_node L \<in> set (nodes w) \<and> l_edge L \<in> set (edges w)
            \<and> (case ring_others (link_mem w) l (l_next L) [] of
                   Some (Inr cs) \<Rightarrow> set cs \<subseteq> set (links w)
                 | _ \<Rightarrow> False))"

text \<open>
  The two links that go with a leaf: the link on the neighbour that faces the leaf (the
  attachment link, the outer of the leaf's own link) and the outer of that link.
\<close>

definition doomed_links :: "('n, 'e) world \<Rightarrow> addr \<Rightarrow> addr set" where
  "doomed_links w n =
     (case cell (node_mem w) n of
        None \<Rightarrow> {}
      | Some N \<Rightarrow>
          (case cell (link_mem w) (n_link N) of
             None \<Rightarrow> {}
           | Some TL \<Rightarrow>
               (case cell (link_mem w) (l_outer TL) of
                  None \<Rightarrow> {l_outer TL}
                | Some AT \<Rightarrow> {l_outer TL, l_outer AT})))"

text \<open>
  The nodes of the subtree view of a node, in the order of the pre-order walk from the
  node's primary link: the node itself and everything on the far side of that link.
\<close>

definition subtree_nodes :: "('n, 'e) world \<Rightarrow> addr \<Rightarrow> addr list" where
  "subtree_nodes w n =
     (case cell (node_mem w) n of
        None \<Rightarrow> []
      | Some N \<Rightarrow>
          (case preorder_walk (link_mem w) [n_link N] [] of
             Some (Inr ls) \<Rightarrow> List.map_filter (\<lambda>l. map_option l_node (cell (link_mem w) l)) ls
           | _ \<Rightarrow> []))"

text \<open>
  The edges of the view: for every node of the view the edge at the link towards the side
  the walk came from, which for the node itself is the edge at its primary link. The links
  of the view: the same links, each with its outer link.
\<close>

definition subtree_edges :: "('n, 'e) world \<Rightarrow> addr \<Rightarrow> addr list" where
  "subtree_edges w n =
     (case cell (node_mem w) n of
        None \<Rightarrow> []
      | Some N \<Rightarrow>
          (case preorder_walk (link_mem w) [n_link N] [] of
             Some (Inr ls) \<Rightarrow> List.map_filter (\<lambda>l. map_option l_edge (cell (link_mem w) l)) ls
           | _ \<Rightarrow> []))"

definition subtree_links :: "('n, 'e) world \<Rightarrow> addr \<Rightarrow> addr list" where
  "subtree_links w n =
     (case cell (node_mem w) n of
        None \<Rightarrow> []
      | Some N \<Rightarrow>
          (case preorder_walk (link_mem w) [n_link N] [] of
             Some (Inr ls) \<Rightarrow>
               List.map_filter id
                 (concat (map (\<lambda>l. [Some l, map_option l_outer (cell (link_mem w) l)]) ls))
           | _ \<Rightarrow> []))"

text \<open>
  What \<open>delete_subtree\<close> relies on for the view of a node: the primary link of the node
  is a link of that node, the pre-order walk of the view ends, and it yields links of the
  tree whose nodes, whose edges, and whose links together with their outer links are
  pairwise different. The source asserts the same of its three deletion lists
  (\<^verbatim>\<open>std::adjacent_find( ... ) == ... end()\<close>).
\<close>

definition view_ok :: "('n, 'e) world \<Rightarrow> addr \<Rightarrow> bool" where
  "view_ok w n =
     (case cell (node_mem w) n of
        None \<Rightarrow> False
      | Some N \<Rightarrow>
          map_option l_node (cell (link_mem w) (n_link N)) = Some n
          \<and> (case preorder_walk (link_mem w) [n_link N] [] of
                Some (Inr ls) \<Rightarrow>
                  set ls \<subseteq> set (links w)
                  \<and> distinct (map (\<lambda>l. map_option l_node (cell (link_mem w) l)) ls)
                  \<and> distinct (map (\<lambda>l. map_option l_edge (cell (link_mem w) l)) ls)
                  \<and> distinct (concat (map (\<lambda>l. [Some l, map_option l_outer (cell (link_mem w) l)]) ls))
              | _ \<Rightarrow> False))"

text \<open>
  The elements that the compaction loop of \<open>delete_subtree\<close> moves to the new vector, as a
  function of the deletion list alone.
\<close>

primrec survivors :: "nat list \<Rightarrow> addr list \<Rightarrow> nat \<Rightarrow> nat \<Rightarrow> addr list" where
  "survivors del [] i k = []"
| "survivors del (a # old) i k =
     (if k < length del \<and> del ! k = i then survivors del old (Suc i) (Suc k)
      else a # survivors del old (Suc i) k)"

text \<open>
  The tree of \<open>tree6\<close> after \<^verbatim>\<open>reroot( tree, tree.link_at(2) )\<close>: the root node is still
  A, the root link and the primary link of A are now the link towards F.
\<close>

definition tree6_at2 :: "(string, nat) world" where
  "tree6_at2 = tree6\<lparr>node_mem := (node_mem tree6)[0 := mk_node 0 2 ''A''], root_link_index := 2\<rparr>"

text \<open>
  The path \<^verbatim>\<open>A - B - C\<close> rooted at the leaf A: link 0 is the one link of A, links 1 and 2
  are the ring of B (towards A and towards C), link 3 is the one link of C; edge 0 is A-B
  and edge 1 is B-C.
\<close>

definition path3 :: "(string, nat) world" where
  "path3 =
     \<lparr>link_mem = [mk_link 0 0 1 0 0, mk_link 1 2 0 1 0, mk_link 2 1 3 1 1, mk_link 3 3 2 2 1],
      node_mem = [mk_node 0 0 ''A'', mk_node 1 1 ''B'', mk_node 2 3 ''C''],
      edge_mem = [mk_edge 0 0 1 10, mk_edge 1 2 3 11],
      links = [0, 1, 2, 3],
      nodes = [0, 1, 2],
      edges = [0, 1],
      root_link_index = 0\<rparr>"

text \<open>
  The way from a node \<open>v\<close> up to the root node \<open>r\<close>, as the invariants of the data
  model describe it. \<open>c\<close> is the link of \<open>v\<close> that faces the root; the list holds, for
  every node on the way except the root, the node and the edge above it. For each step the
  link \<open>c\<close> belongs to \<open>v\<close> and is the secondary link of its edge, the primary link of
  that edge is the outer of \<open>c\<close> and points back to \<open>c\<close>, and the way goes on at the
  primary link of the node on the other side. At the root, \<open>c\<close> is a link of the root.
\<close>

fun up_path :: "('n, 'e) world \<Rightarrow> addr \<Rightarrow> addr \<Rightarrow> addr \<Rightarrow> (addr \<times> addr) list \<Rightarrow> bool" where
  "up_path w r v c [] =
     (v = r \<and> (case cell (link_mem w) c of None \<Rightarrow> False | Some C \<Rightarrow> l_node C = v))"
| "up_path w r v c ((v', e) # ps) =
     (v' = v \<and> v \<noteq> r \<and>
      (case cell (link_mem w) c of
         None \<Rightarrow> False
       | Some C \<Rightarrow>
           l_node C = v \<and> l_edge C = e \<and>
           (case cell (edge_mem w) e of
              None \<Rightarrow> False
            | Some E \<Rightarrow>
                e_link_s E = c \<and> e_link_p E = l_outer C \<and>
                (case cell (link_mem w) (l_outer C) of
                   None \<Rightarrow> False
                 | Some Q \<Rightarrow>
                     l_outer Q = c \<and> l_edge Q = e \<and>
                     (case cell (node_mem w) (l_node Q) of
                        None \<Rightarrow> False
                      | Some V \<Rightarrow> up_path w r (l_node Q) (n_link V) ps)))))"

text \<open>The store with the primary link of one node replaced.\<close>

definition set_primary :: "addr \<Rightarrow> addr \<Rightarrow> ('n, 'e) world \<Rightarrow> ('n, 'e) world" where
  "set_primary v x w =
     (case cell (node_mem w) v of
        None \<Rightarrow> w
      | Some V \<Rightarrow> w\<lparr>node_mem := (node_mem w)[v := Some (V\<lparr>n_link := x\<rparr>)]\<rparr>)"

section \<open>Rings and their order\<close>

text \<open>
  \<open>chain m p c cs\<close>: following the next references from the link \<open>c\<close> visits exactly the
  links \<open>cs\<close>, all of them alive and different from \<open>p\<close>, and then arrives at \<open>p\<close>.
\<close>

primrec chain :: "link option list \<Rightarrow> addr \<Rightarrow> addr \<Rightarrow> addr list \<Rightarrow> bool" where
  "chain m p c [] = (c = p)"
| "chain m p c (x # xs) =
     (c \<noteq> p \<and> x = c \<and> (case cell m c of None \<Rightarrow> False | Some l \<Rightarrow> chain m p (l_next l) xs))"

text \<open>
  The ring of a node as \<^verbatim>\<open>node_links( node )\<close> walks it, without the first link of the
  walk, which is the primary link of the node.
\<close>

definition node_ring :: "('n, 'e) world \<Rightarrow> addr \<Rightarrow> addr list option" where
  "node_ring w n =
     (case cell (node_mem w) n of
        None \<Rightarrow> None
      | Some nd \<Rightarrow>
          (case cell (link_mem w) (n_link nd) of
             None \<Rightarrow> None
           | Some p \<Rightarrow>
               (case ring_others (link_mem w) (n_link nd) (l_next p) [] of
                  Some (Inr cs) \<Rightarrow> Some cs
                | _ \<Rightarrow> None)))"

text \<open>
  \<^verbatim>\<open>sub_sizes[ link.outer().node().index() ]\<close>, where it is defined: the entry of the size
  vector for the node at the other end of a link.
\<close>

definition outer_size :: "nat list \<Rightarrow> ('n, 'e) world \<Rightarrow> addr \<Rightarrow> nat option" where
  "outer_size sz w l =
     (case cell (link_mem w) l of
        None \<Rightarrow> None
      | Some lk \<Rightarrow>
          (case cell (link_mem w) (l_outer lk) of
             None \<Rightarrow> None
           | Some lo \<Rightarrow>
               (case cell (node_mem w) (l_node lo) of
                  None \<Rightarrow> None
                | Some nd \<Rightarrow> if n_index nd < length sz then Some (sz ! n_index nd) else None)))"

text \<open>The order that \<^verbatim>\<open>LadderizeOrder\<close> asks for, on sizes that are defined.\<close>

definition in_order :: "LadderizeOrder \<Rightarrow> nat option \<Rightarrow> nat option \<Rightarrow> bool" where
  "in_order ord a b =
     (case (a, b) of
        (Some x, Some y) \<Rightarrow> (if ord = kSmallFirst then x \<le> y else y \<le> x)
      | _ \<Rightarrow> False)"

text \<open>
  What ladderize relies on at a node: the node is alive, the walk around its ring comes
  back to the primary link, every link of the ring names the node as its owner, and the
  size vector has an entry for the node behind every link other than the primary link.
\<close>

definition ring_ok :: "nat list \<Rightarrow> ('n, 'e) world \<Rightarrow> addr \<Rightarrow> bool" where
  "ring_ok sz w n =
     (case cell (node_mem w) n of
        None \<Rightarrow> False
      | Some nd \<Rightarrow>
          (case node_ring w n of
             None \<Rightarrow> False
           | Some cs \<Rightarrow>
               (\<forall>l \<in> set (n_link nd # cs). map_option l_node (cell (link_mem w) l) = Some n)
               \<and> (\<forall>l \<in> set cs. outer_size sz w l \<noteq> None)))"

text \<open>The same for the whole tree, whose node collection holds every node once.\<close>

definition rings_ok :: "nat list \<Rightarrow> ('n, 'e) world \<Rightarrow> bool" where
  "rings_ok sz w = (distinct (nodes w) \<and> (\<forall>n \<in> set (nodes w). ring_ok sz w n))"

text \<open>
  The store of links after \<^verbatim>\<open>reset_next\<close> on one link, and after the loop of ladderize that
  strings a list of links one after the other, starting at \<open>cur\<close>.
\<close>

definition set_next :: "link option list \<Rightarrow> addr \<Rightarrow> addr \<Rightarrow> link option list" where
  "set_next m a v = (case cell m a of None \<Rightarrow> m | Some l \<Rightarrow> m[a := Some (l\<lparr>l_next := v\<rparr>)])"

primrec relink_mem :: "link option list \<Rightarrow> addr \<Rightarrow> addr list \<Rightarrow> link option list" where
  "relink_mem m cur [] = m"
| "relink_mem m cur (c # cs) = relink_mem (set_next m cur c) c cs"

text \<open>The store of links with every next reference blanked out.\<close>

definition sans_next :: "link option list \<Rightarrow> link option list" where
  "sans_next m = map (map_option (\<lambda>l. l\<lparr>l_next := 0\<rparr>)) m"

section \<open>Properties\<close>

subsection \<open>The edge deletion stub\<close>

text \<open>
  C9. For every tree, every edge and every callback, \<open>delete_edge\<close> returns normally,
  reports no error, and leaves the whole store as it was: all three collections, every
  stored index, every next, outer, primary and secondary reference, and the root
  designation. This holds whether or not the edge belongs to the tree, and the callback
  is never run (the result does not depend on it).
\<close>

theorem delete_edge_is_noop:
  "delete_edge target_edge adjust_nodes w = (Returns (), w)"
  by (simp add: delete_edge_def ret_def)

subsection \<open>Reading and writing cells\<close>

lemma cell_Nil: "cell [] a = None"
  by (simp add: cell_def)

lemma cell_Cons: "cell (x # xs) a = (if a = 0 then x else cell xs (a - 1))"
  by (cases a) (simp_all add: cell_def)

lemma cell_append: "cell (m @ ys) a = (if a < length m then cell m a else cell ys (a - length m))"
  by (auto simp add: cell_def nth_append)

lemma cell_update: "cell (m[a := v]) b = (if b = a \<and> a < length m then v else cell m b)"
  by (simp add: cell_def)

lemma cell_Some_less: "cell m a = Some x \<Longrightarrow> a < length m"
  by (simp add: cell_def split: if_splits)

lemmas cell_simps = cell_Nil cell_Cons cell_append cell_update

lemmas exec_defs =
  bind_def ret_def throw_def crash_def
  link_ref_def node_ref_def edge_ref_def
  link_index_def link_next_def link_outer_def link_node_def link_edge_def
  node_index_def node_primary_link_def
  edge_index_def edge_primary_link_def edge_secondary_link_def
  node_recreate_def edge_recreate_def
  link_update_def node_update_def edge_update_def
  link_reset_index_def link_reset_next_def link_reset_outer_def link_reset_edge_def
  node_reset_index_def node_reset_primary_link_def
  edge_reset_index_def edge_reset_primary_link_def edge_reset_secondary_link_def
  make_unique_link_def make_unique_node_def make_unique_edge_def
  link_init_def node_init_def edge_init_def
  links_push_back_def nodes_push_back_def edges_push_back_def
  link_count_def node_count_def edge_count_def

lemmas example_defs = tree6_def tree6_at2_def path3_def bare_tree_def mk_link_def mk_node_def mk_edge_def

subsection \<open>Splitting an edge\<close>




subsection \<open>Ring walks\<close>

lemma find_pred_Inr_aux:
  assumes "find_pred m t p = Some r"
  shows "\<forall>q. r = Inr q \<longrightarrow> (\<exists>l. cell m q = Some l \<and> l_next l = t)"
  by (rule find_pred.raw_induct[where P="\<lambda>m t p r. \<forall>q. r = Inr q \<longrightarrow> (\<exists>l. cell m q = Some l \<and> l_next l = t)", OF _ assms])
     (auto split: option.splits if_splits)

lemma find_pred_Inr:
  "find_pred m t p = Some (Inr q) \<Longrightarrow> \<exists>l. cell m q = Some l \<and> l_next l = t"
  using find_pred_Inr_aux by blast

lemma find_pred_mono_aux:
  assumes "find_pred m t p = Some r"
  shows "\<forall>m'. (\<forall>a. cell m' a = cell m a) \<longrightarrow> find_pred m' t p = Some r"
proof (rule find_pred.raw_induct[where P="\<lambda>m t p r. \<forall>m'. (\<forall>a. cell m' a = cell m a) \<longrightarrow> find_pred m' t p = Some r", OF _ assms])
  fix fp m t p r
  assume IH: "\<And>m t p r. fp m t p = Some r \<Longrightarrow> \<forall>m'. (\<forall>a. cell m' a = cell m a) \<longrightarrow> find_pred m' t p = Some r"
    and step: "(case cell m p of None \<Rightarrow> Some (Inl Dangling)
       | Some l \<Rightarrow> if l_next l = t then Some (Inr p) else fp m t (l_next l)) = Some r"
  show "\<forall>m'. (\<forall>a. cell m' a = cell m a) \<longrightarrow> find_pred m' t p = Some r"
  proof (intro allI impI)
    fix m' assume eq: "\<forall>a. cell m' a = cell m a"
    show "find_pred m' t p = Some r"
    proof (cases "cell m p")
      case None
      then show ?thesis using step eq by (subst find_pred.simps) simp
    next
      case (Some l)
      show ?thesis
      proof (cases "l_next l = t")
        case True
        then show ?thesis using step eq Some by (subst find_pred.simps) simp
      next
        case False
        then have "fp m t (l_next l) = Some r" using step Some by simp
        from IH[OF this] eq have "find_pred m' t (l_next l) = Some r" by blast
        then show ?thesis using eq Some False by (subst find_pred.simps) simp
      qed
    qed
  qed
qed

lemma find_pred_mono:
  "find_pred m t p = Some r \<Longrightarrow> \<forall>a. cell m' a = cell m a \<Longrightarrow> find_pred m' t p = Some r"
  using find_pred_mono_aux by blast

lemma find_pred_cong:
  assumes "\<forall>a. cell m' a = cell m a"
  shows "find_pred m' t p = find_pred m t p"
proof (cases "find_pred m t p")
  case (Some r)
  from find_pred_mono[OF Some assms] Some show ?thesis by simp
next
  case None
  show ?thesis
  proof (cases "find_pred m' t p")
    case (Some r)
    from assms have "\<forall>a. cell m a = cell m' a" by simp
    from find_pred_mono[OF Some this] None show ?thesis by simp
  next
    case None2: None
    then show ?thesis using None by simp
  qed
qed

lemma cell_append_Nones: "cell (m @ replicate k None) a = cell m a"
  by (auto simp add: cell_def nth_append)

lemma find_pred_append_None2: "find_pred (m @ [None, None]) t p = find_pred m t p"
proof -
  have "m @ [None, None] = m @ replicate 2 None" by (simp add: numeral_2_eq_2)
  then show ?thesis using find_pred_cong[of "m @ replicate 2 None" m t p] cell_append_Nones[of m 2]
    by simp
qed

subsection \<open>Payloads of new elements\<close>

lemma add_new_node_Returns:
  assumes "add_new_node rn re n w = (Returns r, w')"
  shows "\<exists>N P E dn de. cell (node_mem w) n = Some N \<and> n_data N = Some dn
      \<and> cell (link_mem w) (n_link N) = Some P
      \<and> cell (edge_mem w) (l_edge P) = Some E \<and> e_data E = Some de"
  using assms
  by (auto simp add: add_new_node_def exec_defs cell_simps walk_to_pred_def lift_loop_def
        split: if_splits option.splits sum.splits)

lemma split_edge_rewire_Returns:
  assumes "split_edge_rewire rn re e w = (Returns r, w')"
  shows "\<exists>E P N dn de. cell (edge_mem w) e = Some E \<and> e_data E = Some de
      \<and> cell (link_mem w) (e_link_p E) = Some P
      \<and> cell (node_mem w) (l_node P) = Some N \<and> n_data N = Some dn"
  using assms
  by (auto simp add: split_edge_rewire_def exec_defs cell_simps
        split: if_splits option.splits)

lemma add_new_node_on_edge_Returns:
  assumes "add_new_node_on_edge rn re e cb w = (Returns r, w')"
  shows "\<exists>E P N dn de. cell (edge_mem w) e = Some E \<and> e_data E = Some de
      \<and> cell (link_mem w) (e_link_p E) = Some P
      \<and> cell (node_mem w) (l_node P) = Some N \<and> n_data N = Some dn"
proof -
  from assms obtain x w1 where "split_edge_rewire rn re e w = (Returns x, w1)"
    by (auto simp add: add_new_node_on_edge_def bind_def throw_def
          split: if_splits prod.splits outcome.splits)
  then show ?thesis by (rule split_edge_rewire_Returns)
qed

lemma add_new_node_faults:
  assumes B: "belongs_to_node n w"
    and N: "cell (node_mem w) n = Some N"
    and W: "find_pred (link_mem w) (n_link N) (n_link N) = Some (Inr lst)"
    and P: "cell (link_mem w) (n_link N) = Some P"
    and E: "cell (edge_mem w) (l_edge P) = Some E"
    and D: "n_data N = None \<or> e_data E = None"
  shows "fst (add_new_node rn re n w) = Faults NullPointer"
proof -
  from find_pred_Inr[OF W] obtain L where L: "cell (link_mem w) lst = Some L" by blast
  show ?thesis
    using B N W P E D L cell_Some_less[OF L] cell_Some_less[OF P] cell_Some_less[OF N] cell_Some_less[OF E]
    by (auto simp add: add_new_node_def exec_defs cell_simps walk_to_pred_def lift_loop_def
          find_pred_append_None2 split: option.splits)
qed

lemma add_new_node_on_edge_faults:
  assumes B: "belongs_to_edge e w"
    and E: "cell (edge_mem w) e = Some E"
    and P: "cell (link_mem w) (e_link_p E) = Some P"
    and N: "cell (node_mem w) (l_node P) = Some N"
    and D: "n_data N = None \<or> e_data E = None"
  shows "fst (add_new_node_on_edge rn re e cb w) = Faults NullPointer"
  using assms cell_Some_less[OF P] cell_Some_less[OF N] cell_Some_less[OF E]
  by (auto simp add: add_new_node_on_edge_def split_edge_rewire_def exec_defs cell_simps
        split: option.splits)

text \<open>
  C10. Both overloads of \<open>add_new_node\<close> recreate payloads without checking that they are
  there. A call that returns had a payload on the target node and on the edge of its
  primary link (on the target edge and on the node at its primary link for the
  edge-splitting overload). If the target belongs to the tree, the objects involved are
  live and the ring walk comes back, but one of the two payloads is missing, the call runs
  into the null pointer: it does not throw the error of a violated precondition. The tree
  without payloads is such an input for either overload.
\<close>

theorem add_new_node_needs_payloads:
  fixes w :: "('n, 'e) world"
  shows
   "(\<forall>r w'. add_new_node rn re n w = (Returns r, w') \<longrightarrow>
       (\<exists>N P E dn de. cell (node_mem w) n = Some N \<and> n_data N = Some dn
          \<and> cell (link_mem w) (n_link N) = Some P
          \<and> cell (edge_mem w) (l_edge P) = Some E \<and> e_data E = Some de))
  \<and> (\<forall>r w'. add_new_node_on_edge rn re e cb w = (Returns r, w') \<longrightarrow>
       (\<exists>E P N dn de. cell (edge_mem w) e = Some E \<and> e_data E = Some de
          \<and> cell (link_mem w) (e_link_p E) = Some P
          \<and> cell (node_mem w) (l_node P) = Some N \<and> n_data N = Some dn))
  \<and> (\<forall>N P E lst. belongs_to_node n w \<and> cell (node_mem w) n = Some N
          \<and> find_pred (link_mem w) (n_link N) (n_link N) = Some (Inr lst)
          \<and> cell (link_mem w) (n_link N) = Some P
          \<and> cell (edge_mem w) (l_edge P) = Some E
          \<and> (n_data N = None \<or> e_data E = None) \<longrightarrow>
       fst (add_new_node rn re n w) = Faults NullPointer)
  \<and> (\<forall>E P N. belongs_to_edge e w \<and> cell (edge_mem w) e = Some E
          \<and> cell (link_mem w) (e_link_p E) = Some P
          \<and> cell (node_mem w) (l_node P) = Some N
          \<and> (n_data N = None \<or> e_data E = None) \<longrightarrow>
       fst (add_new_node_on_edge rn re e cb w) = Faults NullPointer)
  \<and> (\<exists>(v :: ('n, 'e) world) m d. belongs_to_node m v \<and> belongs_to_edge d v
          \<and> fst (add_new_node rn re m v) = Faults NullPointer
          \<and> fst (add_new_node_on_edge rn re d cb v) = Faults NullPointer)"
proof (intro conjI allI impI)
  fix r w' assume "add_new_node rn re n w = (Returns r, w')"
  then show "\<exists>N P E dn de. cell (node_mem w) n = Some N \<and> n_data N = Some dn
          \<and> cell (link_mem w) (n_link N) = Some P
          \<and> cell (edge_mem w) (l_edge P) = Some E \<and> e_data E = Some de"
    by (rule add_new_node_Returns)
next
  fix r w' assume "add_new_node_on_edge rn re e cb w = (Returns r, w')"
  then show "\<exists>E P N dn de. cell (edge_mem w) e = Some E \<and> e_data E = Some de
          \<and> cell (link_mem w) (e_link_p E) = Some P
          \<and> cell (node_mem w) (l_node P) = Some N \<and> n_data N = Some dn"
    by (rule add_new_node_on_edge_Returns)
next
  fix N P E lst
  assume "belongs_to_node n w \<and> cell (node_mem w) n = Some N
          \<and> find_pred (link_mem w) (n_link N) (n_link N) = Some (Inr lst)
          \<and> cell (link_mem w) (n_link N) = Some P
          \<and> cell (edge_mem w) (l_edge P) = Some E
          \<and> (n_data N = None \<or> e_data E = None)"
  then show "fst (add_new_node rn re n w) = Faults NullPointer"
    using add_new_node_faults by blast
next
  fix E P N
  assume "belongs_to_edge e w \<and> cell (edge_mem w) e = Some E
          \<and> cell (link_mem w) (e_link_p E) = Some P
          \<and> cell (node_mem w) (l_node P) = Some N
          \<and> (n_data N = None \<or> e_data E = None)"
  then show "fst (add_new_node_on_edge rn re e cb w) = Faults NullPointer"
    using add_new_node_on_edge_faults by blast
next
  have W: "find_pred (link_mem (bare_tree :: ('n, 'e) world)) 0 0 = Some (Inr 0)"
    by (simp add: find_pred.simps example_defs cell_simps)
  have "fst (add_new_node rn re 0 (bare_tree :: ('n, 'e) world)) = Faults NullPointer"
    by (rule add_new_node_faults[where N="\<lparr>n_index = 0, n_link = 0, n_data = None\<rparr>"
          and lst=0 and P="\<lparr>l_index = 0, l_next = 0, l_outer = 1, l_node = 0, l_edge = 0\<rparr>"
          and E="\<lparr>e_index = 0, e_link_p = 0, e_link_s = 1, e_data = None\<rparr>"])
       (simp_all add: W, simp_all add: belongs_to_node_def example_defs cell_simps)
  moreover have "fst (add_new_node_on_edge rn re 0 cb (bare_tree :: ('n, 'e) world)) = Faults NullPointer"
    by (rule add_new_node_on_edge_faults[where
          E="\<lparr>e_index = 0, e_link_p = 0, e_link_s = 1, e_data = None\<rparr>"
          and P="\<lparr>l_index = 0, l_next = 0, l_outer = 1, l_node = 0, l_edge = 0\<rparr>"
          and N="\<lparr>n_index = 0, n_link = 0, n_data = None\<rparr>"])
       (simp_all add: belongs_to_edge_def example_defs cell_simps)
  moreover have "belongs_to_node 0 (bare_tree :: ('n, 'e) world)"
    "belongs_to_edge 0 (bare_tree :: ('n, 'e) world)"
    by (simp_all add: belongs_to_node_def belongs_to_edge_def example_defs)
  ultimately show "\<exists>(v :: ('n, 'e) world) m d. belongs_to_node m v \<and> belongs_to_edge d v
          \<and> fst (add_new_node rn re m v) = Faults NullPointer
          \<and> fst (add_new_node_on_edge rn re d cb v) = Faults NullPointer"
    by blast
qed

theorem add_new_node_needs_payloads_witness:
  "fst (add_new_node (\<lambda>d. d) Suc 1 tree6) = Returns 6
   \<and> (\<exists>N P E dn de. cell (node_mem tree6) 1 = Some N \<and> n_data N = Some dn
          \<and> cell (link_mem tree6) (n_link N) = Some P
          \<and> cell (edge_mem tree6) (l_edge P) = Some E \<and> e_data E = Some de)
   \<and> belongs_to_node 0 (bare_tree :: (string, nat) world)
   \<and> fst (add_new_node (\<lambda>d. d) Suc 0 (bare_tree :: (string, nat) world)) = Faults NullPointer
   \<and> belongs_to_edge 0 (bare_tree :: (string, nat) world)
   \<and> fst (add_new_node_on_edge (\<lambda>d. d) Suc 0 None (bare_tree :: (string, nat) world))
       = Faults NullPointer"
proof -
  have r: "fst (add_new_node (\<lambda>d. d) Suc 1 tree6) = Returns 6"
    by code_simp
  then have run: "add_new_node (\<lambda>d. d) Suc 1 tree6
      = (Returns 6, snd (add_new_node (\<lambda>d. d) Suc 1 tree6))"
    by (simp add: prod_eq_iff)
  from add_new_node_needs_payloads[of "\<lambda>d. d" Suc 1 tree6 0 None] run
  have A: "\<exists>N P E dn de. cell (node_mem tree6) 1 = Some N \<and> n_data N = Some dn
          \<and> cell (link_mem tree6) (n_link N) = Some P
          \<and> cell (edge_mem tree6) (l_edge P) = Some E \<and> e_data E = Some de"
    by blast
  have bn: "belongs_to_node 0 (bare_tree :: (string, nat) world)"
    and be: "belongs_to_edge 0 (bare_tree :: (string, nat) world)"
    by (simp_all add: belongs_to_node_def belongs_to_edge_def example_defs)
  have cells: "cell (node_mem (bare_tree :: (string, nat) world)) 0
        = Some \<lparr>n_index = 0, n_link = 0, n_data = None\<rparr>"
      "cell (link_mem (bare_tree :: (string, nat) world)) 0
        = Some \<lparr>l_index = 0, l_next = 0, l_outer = 1, l_node = 0, l_edge = 0\<rparr>"
      "cell (edge_mem (bare_tree :: (string, nat) world)) 0
        = Some \<lparr>e_index = 0, e_link_p = 0, e_link_s = 1, e_data = None\<rparr>"
    by (simp_all add: example_defs cell_simps)
  have walk: "find_pred (link_mem (bare_tree :: (string, nat) world)) 0 0 = Some (Inr 0)"
    by (simp add: find_pred.simps example_defs cell_simps)
  note T = add_new_node_needs_payloads[of "\<lambda>d. d" Suc 0 "bare_tree :: (string, nat) world" 0 None]
  from T have "\<forall>N P E lst. belongs_to_node 0 (bare_tree :: (string, nat) world)
          \<and> cell (node_mem (bare_tree :: (string, nat) world)) 0 = Some N
          \<and> find_pred (link_mem (bare_tree :: (string, nat) world)) (n_link N) (n_link N) = Some (Inr lst)
          \<and> cell (link_mem (bare_tree :: (string, nat) world)) (n_link N) = Some P
          \<and> cell (edge_mem (bare_tree :: (string, nat) world)) (l_edge P) = Some E
          \<and> (n_data N = None \<or> e_data E = None) \<longrightarrow>
       fst (add_new_node (\<lambda>d. d) Suc 0 (bare_tree :: (string, nat) world)) = Faults NullPointer"
    by blast
  from this[rule_format, of "\<lparr>n_index = 0, n_link = 0, n_data = None\<rparr>" 0
        "\<lparr>l_index = 0, l_next = 0, l_outer = 1, l_node = 0, l_edge = 0\<rparr>"
        "\<lparr>e_index = 0, e_link_p = 0, e_link_s = 1, e_data = None\<rparr>"]
  have B: "fst (add_new_node (\<lambda>d. d) Suc 0 (bare_tree :: (string, nat) world)) = Faults NullPointer"
    using bn cells walk by simp
  from T have "\<forall>E P N. belongs_to_edge 0 (bare_tree :: (string, nat) world)
          \<and> cell (edge_mem (bare_tree :: (string, nat) world)) 0 = Some E
          \<and> cell (link_mem (bare_tree :: (string, nat) world)) (e_link_p E) = Some P
          \<and> cell (node_mem (bare_tree :: (string, nat) world)) (l_node P) = Some N
          \<and> (n_data N = None \<or> e_data E = None) \<longrightarrow>
       fst (add_new_node_on_edge (\<lambda>d. d) Suc 0 None (bare_tree :: (string, nat) world))
         = Faults NullPointer"
    by blast
  from this[rule_format, of "\<lparr>e_index = 0, e_link_p = 0, e_link_s = 1, e_data = None\<rparr>"
        "\<lparr>l_index = 0, l_next = 0, l_outer = 1, l_node = 0, l_edge = 0\<rparr>"
        "\<lparr>n_index = 0, n_link = 0, n_data = None\<rparr>"]
  have C: "fst (add_new_node_on_edge (\<lambda>d. d) Suc 0 None (bare_tree :: (string, nat) world))
         = Faults NullPointer"
    using be cells by simp
  from r A bn B be C show ?thesis by blast
qed

subsection \<open>Violated preconditions\<close>

lemma ring_others_state: "snd (lift_loop r w) = w"
  by (simp add: lift_loop_def split: option.splits sum.splits)

lemma degree_reads_only: "snd (degree n w) = w"
  by (simp add: degree_def links_after_def exec_defs lift_loop_def
        split: option.splits sum.splits)

lemma degree_Returns: "fst (degree n w) = Returns d \<Longrightarrow> degree n w = (Returns d, w)"
  using degree_reads_only[of n w] by (simp add: prod_eq_iff)

text \<open>
  C8. Every manipulation that is handed an element the tree does not hold throws, and the
  store it leaves is the store it was given: \<open>add_new_node\<close> in both overloads,
  \<open>delete_node\<close>, \<open>delete_leaf_node\<close>, \<open>delete_linear_node\<close>, \<open>delete_subtree\<close> and the
  three forms of \<open>reroot\<close>. The same holds for \<open>delete_leaf_node\<close> on a node of the
  tree whose degree is not 1 and for \<open>delete_linear_node\<close> on one whose degree is not 2.
\<close>

theorem violated_precondition_throws_unchanged:
  "(\<not> belongs_to_node n w \<longrightarrow> add_new_node rn re n w = (Throws NotPartOfTree, w))
 \<and> (\<not> belongs_to_edge e w \<longrightarrow> add_new_node_on_edge rn re e cb w = (Throws NotPartOfTree, w))
 \<and> (\<not> belongs_to_node n w \<longrightarrow> delete_node n w = (Throws NotPartOfTree, w))
 \<and> (\<not> belongs_to_node n w \<longrightarrow> delete_leaf_node n w = (Throws NotPartOfTree, w))
 \<and> (\<not> belongs_to_node n w \<longrightarrow> delete_linear_node n cb w = (Throws NotPartOfTree, w))
 \<and> (\<not> belongs_to_link l w \<longrightarrow> delete_subtree l w = (Throws NotPartOfTree, w))
 \<and> (\<not> belongs_to_link l w \<longrightarrow> reroot l w = (Throws NotPartOfTree, w))
 \<and> (\<not> belongs_to_node n w \<longrightarrow> reroot_node n w = (Throws NotPartOfTree, w))
 \<and> (length (nodes w) \<le> i \<longrightarrow> reroot_at_node i w = (Throws NotPartOfTree, w))
 \<and> (belongs_to_node n w \<and> fst (degree n w) = Returns d \<and> d \<noteq> 1 \<longrightarrow>
       delete_leaf_node n w = (Throws NotALeaf, w))
 \<and> (belongs_to_node n w \<and> fst (degree n w) = Returns d \<and> d \<noteq> 2 \<longrightarrow>
       delete_linear_node n cb w = (Throws NotLinear, w))"
proof -
  have leaf: "delete_leaf_node n w = (Throws NotALeaf, w)"
    if "belongs_to_node n w" "fst (degree n w) = Returns d" "d \<noteq> 1"
    using that degree_Returns[of n w d]
    by (simp add: delete_leaf_node_def bind_def throw_def)
  have linear: "delete_linear_node n cb w = (Throws NotLinear, w)"
    if "belongs_to_node n w" "fst (degree n w) = Returns d" "d \<noteq> 2"
    using that degree_Returns[of n w d]
    by (simp add: delete_linear_node_def bind_def throw_def)
  show ?thesis
    using leaf linear
    by (simp add: add_new_node_def add_new_node_on_edge_def delete_node_def
          delete_leaf_node_def delete_linear_node_def delete_subtree_def
          reroot_def reroot_node_def reroot_at_node_def throw_def)
qed

theorem violated_precondition_throws_unchanged_witness:
  "\<not> belongs_to_node 6 tree6 \<and> \<not> belongs_to_edge 5 tree6 \<and> \<not> belongs_to_link 10 tree6
 \<and> length (nodes tree6) \<le> 6
 \<and> belongs_to_node 1 tree6 \<and> fst (degree 1 tree6) = Returns 3
 \<and> add_new_node (\<lambda>d. d) Suc 6 tree6 = (Throws NotPartOfTree, tree6)
 \<and> add_new_node_on_edge (\<lambda>d. d) Suc 5 None tree6 = (Throws NotPartOfTree, tree6)
 \<and> delete_node 6 tree6 = (Throws NotPartOfTree, tree6)
 \<and> delete_leaf_node 6 tree6 = (Throws NotPartOfTree, tree6)
 \<and> delete_linear_node 6 None tree6 = (Throws NotPartOfTree, tree6)
 \<and> delete_subtree 10 tree6 = (Throws NotPartOfTree, tree6)
 \<and> reroot 10 tree6 = (Throws NotPartOfTree, tree6)
 \<and> reroot_node 6 tree6 = (Throws NotPartOfTree, tree6)
 \<and> reroot_at_node 6 tree6 = (Throws NotPartOfTree, tree6)
 \<and> delete_leaf_node 1 tree6 = (Throws NotALeaf, tree6)
 \<and> delete_linear_node 1 None tree6 = (Throws NotLinear, tree6)"
proof -
  have h: "\<not> belongs_to_node 6 tree6" "\<not> belongs_to_edge 5 tree6" "\<not> belongs_to_link 10 tree6"
    "length (nodes tree6) \<le> 6" "belongs_to_node 1 tree6"
    by (simp_all add: belongs_to_node_def belongs_to_edge_def belongs_to_link_def example_defs)
  have d: "fst (degree 1 tree6) = Returns 3"
    by code_simp
  have n: "(3::nat) \<noteq> 1" "(3::nat) \<noteq> 2"
    by simp_all
  from violated_precondition_throws_unchanged[of 6 tree6 "\<lambda>d. d" Suc 5 None 10 6 3] h d
  have A: "add_new_node (\<lambda>d. d) Suc 6 tree6 = (Throws NotPartOfTree, tree6)"
    "add_new_node_on_edge (\<lambda>d. d) Suc 5 None tree6 = (Throws NotPartOfTree, tree6)"
    "delete_node 6 tree6 = (Throws NotPartOfTree, tree6)"
    "delete_leaf_node 6 tree6 = (Throws NotPartOfTree, tree6)"
    "delete_linear_node 6 None tree6 = (Throws NotPartOfTree, tree6)"
    "delete_subtree 10 tree6 = (Throws NotPartOfTree, tree6)"
    "reroot 10 tree6 = (Throws NotPartOfTree, tree6)"
    "reroot_node 6 tree6 = (Throws NotPartOfTree, tree6)"
    "reroot_at_node 6 tree6 = (Throws NotPartOfTree, tree6)"
    by blast+
  from violated_precondition_throws_unchanged[of 1 tree6 "\<lambda>d. d" Suc 5 None 10 6 3] h d n
  have B: "delete_leaf_node 1 tree6 = (Throws NotALeaf, tree6)"
    "delete_linear_node 1 None tree6 = (Throws NotLinear, tree6)"
    by blast+
  from h d A B show ?thesis by blast
qed

section \<open>Deleting the root leaf, and a subtree behind the root link\<close>

text \<open>
  C2, at the path \<open>A - B - C\<close> rooted at the leaf A. The node belongs to the tree, has
  degree 1 and is the root; the root designation is moved to link 1, the link on the side
  of the neighbour B. That link is one of the two links that \<open>delete_leaf_node\<close> erases,
  so the final \<^verbatim>\<open>root_link->index()\<close> reads an object that has been destroyed.
\<close>

theorem delete_leaf_node_of_root_reads_freed_link:
  "belongs_to_node 0 path3 \<and> fst (degree 0 path3) = Returns 1 \<and> fst (root_node path3) = Returns 0
   \<and> fst (bind (node_primary_link 0) link_outer path3) = Returns 1
   \<and> fst (delete_leaf_node 0 path3) = Faults Dangling"
  by code_simp

text \<open>
  C4, at \<open>tree6\<close> rerooted at link 2, the link of the root A that faces the leaf F.
  Deleting the subtree of F (one node, link 9) removes F and keeps the root node A, but
  the attachment link is the root link: \<^verbatim>\<open>root_link->index()\<close> yields the index that
  link had before the compaction, and position 2 of the compacted collection holds link 3,
  a link of node B.
\<close>

theorem delete_subtree_loses_root_link:
  "reroot 2 tree6 = (Returns (), tree6_at2)
   \<and> fst (root_link tree6_at2) = Returns 2 \<and> fst (root_node tree6_at2) = Returns 0
   \<and> fst (preorder 9 tree6_at2) = Returns [9]
   \<and> fst (delete_subtree 9 tree6_at2) = Returns ()
   \<and> nodes (snd (delete_subtree 9 tree6_at2)) = [0, 1, 2, 3, 4]
   \<and> fst (root_link (snd (delete_subtree 9 tree6_at2))) = Returns 3
   \<and> fst (root_node (snd (delete_subtree 9 tree6_at2))) = Returns 1"
  by code_simp

text \<open>
  C3, at \<open>tree6\<close> rerooted at link 2, for the leaf F. The node belongs to the tree, has
  degree 1 and is not the root node, which is A. The root link, however, is link 2, the
  link of A that faces F: it is the attachment link of F, one of the two links that
  \<open>delete_leaf_node\<close> erases. The call erases the edge, the two links and the node and
  renumbers what is left, and then its last statement \<^verbatim>\<open>root_link->index()\<close> reads the
  link it has destroyed: it does not come back with the tree that the claim describes.
\<close>

theorem delete_leaf_node_at_root_link_reads_freed_link:
  "reroot 2 tree6 = (Returns (), tree6_at2)
   \<and> belongs_to_node 5 tree6_at2 \<and> fst (degree 5 tree6_at2) = Returns 1
   \<and> fst (root_node tree6_at2) = Returns 0 \<and> fst (root_link tree6_at2) = Returns 2
   \<and> fst (bind (node_primary_link 5) link_outer tree6_at2) = Returns 2
   \<and> fst (delete_leaf_node 5 tree6_at2) = Faults Dangling"
  by code_simp

subsection \<open>Runs that return\<close>

lemma bind_Returns_iff:
  "bind m f w = (Returns y, w'') \<longleftrightarrow> (\<exists>x w'. m w = (Returns x, w') \<and> f x w' = (Returns y, w''))"
  by (auto simp add: bind_def split: prod.splits outcome.splits)

lemma ret_Returns_iff: "ret x w = (Returns y, w') \<longleftrightarrow> y = x \<and> w' = w"
  by (auto simp add: ret_def)

lemma throw_Returns_iff: "throw e w = (Returns y, w') \<longleftrightarrow> False"
  by (simp add: throw_def)

lemma crash_Returns_iff: "crash c w = (Returns y, w') \<longleftrightarrow> False"
  by (simp add: crash_def)

lemma link_ref_Returns_iff:
  "link_ref a w = (Returns l, w') \<longleftrightarrow> w' = w \<and> cell (link_mem w) a = Some l"
  by (auto simp add: link_ref_def ret_def crash_def split: option.splits)

lemma node_ref_Returns_iff:
  "node_ref a w = (Returns l, w') \<longleftrightarrow> w' = w \<and> cell (node_mem w) a = Some l"
  by (auto simp add: node_ref_def ret_def crash_def split: option.splits)

lemma edge_ref_Returns_iff:
  "edge_ref a w = (Returns l, w') \<longleftrightarrow> w' = w \<and> cell (edge_mem w) a = Some l"
  by (auto simp add: edge_ref_def ret_def crash_def split: option.splits)

lemma lift_loop_Returns_iff:
  "lift_loop r w = (Returns x, w') \<longleftrightarrow> w' = w \<and> r = Some (Inr x)"
  by (auto simp add: lift_loop_def split: option.splits sum.splits)

lemma link_at_Returns_iff:
  "link_at i w = (Returns a, w') \<longleftrightarrow> w' = w \<and> i < length (links w) \<and> a = links w ! i"
  by (auto simp add: link_at_def ret_def throw_def)

lemma node_at_Returns_iff:
  "node_at i w = (Returns a, w') \<longleftrightarrow> w' = w \<and> i < length (nodes w) \<and> a = nodes w ! i"
  by (auto simp add: node_at_def ret_def throw_def)

lemma edge_at_Returns_iff:
  "edge_at i w = (Returns a, w') \<longleftrightarrow> w' = w \<and> i < length (edges w) \<and> a = edges w ! i"
  by (auto simp add: edge_at_def ret_def throw_def)

lemma link_update_Returns_iff:
  "link_update a f w = (Returns u, w') \<longleftrightarrow>
     (\<exists>l. cell (link_mem w) a = Some l \<and> w' = w\<lparr>link_mem := (link_mem w)[a := Some (f l)]\<rparr>)"
  by (auto simp add: link_update_def ret_def crash_def split: option.splits)

lemma node_update_Returns_iff:
  "node_update a f w = (Returns u, w') \<longleftrightarrow>
     (\<exists>l. cell (node_mem w) a = Some l \<and> w' = w\<lparr>node_mem := (node_mem w)[a := Some (f l)]\<rparr>)"
  by (auto simp add: node_update_def ret_def crash_def split: option.splits)

lemma edge_update_Returns_iff:
  "edge_update a f w = (Returns u, w') \<longleftrightarrow>
     (\<exists>l. cell (edge_mem w) a = Some l \<and> w' = w\<lparr>edge_mem := (edge_mem w)[a := Some (f l)]\<rparr>)"
  by (auto simp add: edge_update_def ret_def crash_def split: option.splits)

lemma links_erase_Returns_iff:
  "links_erase i w = (Returns u, w') \<longleftrightarrow>
     i < length (links w) \<and>
     w' = w\<lparr>links := erase_at i (links w), link_mem := (link_mem w)[links w ! i := None]\<rparr>"
  by (auto simp add: links_erase_def ret_def crash_def)

lemma nodes_erase_Returns_iff:
  "nodes_erase i w = (Returns u, w') \<longleftrightarrow>
     i < length (nodes w) \<and>
     w' = w\<lparr>nodes := erase_at i (nodes w), node_mem := (node_mem w)[nodes w ! i := None]\<rparr>"
  by (auto simp add: nodes_erase_def ret_def crash_def)

lemma edges_erase_Returns_iff:
  "edges_erase i w = (Returns u, w') \<longleftrightarrow>
     i < length (edges w) \<and>
     w' = w\<lparr>edges := erase_at i (edges w), edge_mem := (edge_mem w)[edges w ! i := None]\<rparr>"
  by (auto simp add: edges_erase_def ret_def crash_def)

lemma reset_root_link_index_Returns_iff:
  "reset_root_link_index i w = (Returns u, w') \<longleftrightarrow> w' = w\<lparr>root_link_index := i\<rparr>"
  by (auto simp add: reset_root_link_index_def ret_def)

lemmas Returns_iffs =
  bind_Returns_iff ret_Returns_iff throw_Returns_iff crash_Returns_iff
  link_ref_Returns_iff node_ref_Returns_iff edge_ref_Returns_iff lift_loop_Returns_iff
  link_at_Returns_iff node_at_Returns_iff edge_at_Returns_iff
  link_update_Returns_iff node_update_Returns_iff edge_update_Returns_iff
  links_erase_Returns_iff nodes_erase_Returns_iff edges_erase_Returns_iff
  reset_root_link_index_Returns_iff

lemmas reader_defs =
  link_index_def link_next_def link_outer_def link_node_def link_edge_def
  node_index_def node_primary_link_def
  edge_index_def edge_primary_link_def edge_secondary_link_def
  root_link_def root_node_def walk_to_pred_def links_after_def degree_def

lemmas writer_defs =
  link_reset_index_def link_reset_next_def link_reset_outer_def link_reset_edge_def
  node_reset_index_def node_reset_primary_link_def
  edge_reset_index_def edge_reset_primary_link_def edge_reset_secondary_link_def

lemma for_each_renumber:
  fixes ix :: "'w \<Rightarrow> addr \<Rightarrow> nat option"
  assumes step: "\<And>i w w'. cont w = c \<Longrightarrow> f i w = (Returns (), w') \<Longrightarrow> i < length c \<Longrightarrow>
            cont w' = c \<and> pr w' = pr w \<and> (\<forall>a. ix w' a = (if a = c ! i then Some i else ix w a))"
    and dist: "distinct c"
  shows "cont w = c \<Longrightarrow> n \<le> length c \<Longrightarrow> for_each [lo ..< n] f w = (Returns (), w') \<Longrightarrow>
         cont w' = c \<and> pr w' = pr w
         \<and> (\<forall>j. lo \<le> j \<and> j < n \<longrightarrow> ix w' (c ! j) = Some j)
         \<and> (\<forall>a. (\<forall>j. lo \<le> j \<and> j < n \<longrightarrow> a \<noteq> c ! j) \<longrightarrow> ix w' a = ix w a)"
proof (induction "n - lo" arbitrary: lo w)
  case 0
  then have "[lo ..< n] = []" by simp
  with 0 show ?case by (auto simp add: ret_def)
next
  case (Suc k)
  then have lo: "lo < n" by simp
  then have upt: "[lo ..< n] = lo # [Suc lo ..< n]" by (simp add: upt_conv_Cons)
  from Suc.prems(3) upt obtain w1 where s1: "f lo w = (Returns (), w1)"
    and rest: "for_each [Suc lo ..< n] f w1 = (Returns (), w')"
    by (auto simp add: bind_Returns_iff)
  from step[OF Suc.prems(1) s1] lo Suc.prems(2)
  have c1: "cont w1 = c" and p1: "pr w1 = pr w"
    and i1: "\<forall>a. ix w1 a = (if a = c ! lo then Some lo else ix w a)"
    by auto
  from Suc.hyps(2) have k: "k = n - Suc lo" by simp
  from Suc.hyps(1)[OF k c1 Suc.prems(2) rest]
  have c2: "cont w' = c" and p2: "pr w' = pr w1"
    and i2: "\<forall>j. Suc lo \<le> j \<and> j < n \<longrightarrow> ix w' (c ! j) = Some j"
    and o2: "\<forall>a. (\<forall>j. Suc lo \<le> j \<and> j < n \<longrightarrow> a \<noteq> c ! j) \<longrightarrow> ix w' a = ix w1 a"
    by auto
  have first: "\<forall>j. Suc lo \<le> j \<and> j < n \<longrightarrow> c ! lo \<noteq> c ! j"
    using dist lo Suc.prems(2) by (auto simp add: nth_eq_iff_index_eq)
  have inside: "ix w' (c ! j) = Some j" if "lo \<le> j" "j < n" for j
  proof (cases "j = lo")
    case True
    with first o2 i1 show ?thesis by simp
  next
    case False
    with that i2 show ?thesis by simp
  qed
  have outside: "ix w' a = ix w a" if "\<forall>j. lo \<le> j \<and> j < n \<longrightarrow> a \<noteq> c ! j" for a
  proof -
    from that lo have "a \<noteq> c ! lo" by auto
    moreover from that have "\<forall>j. Suc lo \<le> j \<and> j < n \<longrightarrow> a \<noteq> c ! j" by auto
    ultimately show ?thesis using o2 i1 by simp
  qed
  from c2 p2 p1 inside outside show ?case by simp
qed

lemma renumber_edges_Returns:
  assumes run: "renumber_edges lo w = (Returns (), w')" and dist: "distinct (edges w)"
  shows "edges w' = edges w \<and> links w' = links w \<and> nodes w' = nodes w
       \<and> link_mem w' = link_mem w \<and> node_mem w' = node_mem w
       \<and> root_link_index w' = root_link_index w
       \<and> (\<forall>j. lo \<le> j \<and> j < length (edges w) \<longrightarrow> edge_ix w' (edges w ! j) = Some j)
       \<and> (\<forall>a. (\<forall>j. lo \<le> j \<and> j < length (edges w) \<longrightarrow> a \<noteq> edges w ! j) \<longrightarrow> edge_ix w' a = edge_ix w a)"
proof -
  let ?pr = "\<lambda>w :: ('a, 'b) world. (links w, nodes w, link_mem w, node_mem w, root_link_index w)"
  have "edges w' = edges w \<and> ?pr w' = ?pr w
       \<and> (\<forall>j. lo \<le> j \<and> j < length (edges w) \<longrightarrow> edge_ix w' (edges w ! j) = Some j)
       \<and> (\<forall>a. (\<forall>j. lo \<le> j \<and> j < length (edges w) \<longrightarrow> a \<noteq> edges w ! j) \<longrightarrow> edge_ix w' a = edge_ix w a)"
  proof (rule for_each_renumber[where cont = edges and ix = edge_ix and c = "edges w"
        and f = "\<lambda>i. bind (edge_at i) (\<lambda>e. edge_reset_index e i)"])
    show "distinct (edges w)" by (rule dist)
    show "edges w = edges w" by simp
    show "length (edges w) \<le> length (edges w)" by simp
    show "for_each [lo..<length (edges w)] (\<lambda>i. bind (edge_at i) (\<lambda>e. edge_reset_index e i)) w = (Returns (), w')"
      using run by (simp add: renumber_edges_def)
  next
    fix i and v v' :: "('a, 'b) world"
    assume "edges v = edges w" "bind (edge_at i) (\<lambda>e. edge_reset_index e i) v = (Returns (), v')"
      "i < length (edges w)"
    then show "edges v' = edges w \<and> ?pr v' = ?pr v
        \<and> (\<forall>a. edge_ix v' a = (if a = edges w ! i then Some i else edge_ix v a))"
      by (auto simp add: Returns_iffs writer_defs edge_ix_def cell_update dest: cell_Some_less)
  qed
  then show ?thesis by auto
qed
lemma renumber_links_Returns:
  assumes run: "renumber_links lo w = (Returns (), w')" and dist: "distinct (links w)"
  shows "links w' = links w \<and> edges w' = edges w \<and> nodes w' = nodes w
       \<and> edge_mem w' = edge_mem w \<and> node_mem w' = node_mem w
       \<and> root_link_index w' = root_link_index w
       \<and> (\<forall>j. lo \<le> j \<and> j < length (links w) \<longrightarrow> link_ix w' (links w ! j) = Some j)
       \<and> (\<forall>a. (\<forall>j. lo \<le> j \<and> j < length (links w) \<longrightarrow> a \<noteq> links w ! j) \<longrightarrow> link_ix w' a = link_ix w a)"
proof -
  let ?pr = "\<lambda>w :: ('a, 'b) world. (edges w, nodes w, edge_mem w, node_mem w, root_link_index w)"
  have "links w' = links w \<and> ?pr w' = ?pr w
       \<and> (\<forall>j. lo \<le> j \<and> j < length (links w) \<longrightarrow> link_ix w' (links w ! j) = Some j)
       \<and> (\<forall>a. (\<forall>j. lo \<le> j \<and> j < length (links w) \<longrightarrow> a \<noteq> links w ! j) \<longrightarrow> link_ix w' a = link_ix w a)"
  proof (rule for_each_renumber[where cont = links and ix = link_ix and c = "links w"
        and f = "\<lambda>i. bind (link_at i) (\<lambda>l. link_reset_index l i)"])
    show "distinct (links w)" by (rule dist)
    show "links w = links w" by simp
    show "length (links w) \<le> length (links w)" by simp
    show "for_each [lo..<length (links w)] (\<lambda>i. bind (link_at i) (\<lambda>l. link_reset_index l i)) w = (Returns (), w')"
      using run by (simp add: renumber_links_def)
  next
    fix i and v v' :: "('a, 'b) world"
    assume "links v = links w" "bind (link_at i) (\<lambda>l. link_reset_index l i) v = (Returns (), v')"
      "i < length (links w)"
    then show "links v' = links w \<and> ?pr v' = ?pr v
        \<and> (\<forall>a. link_ix v' a = (if a = links w ! i then Some i else link_ix v a))"
      by (auto simp add: Returns_iffs writer_defs link_ix_def cell_update dest: cell_Some_less)
  qed
  then show ?thesis by auto
qed

lemma renumber_nodes_Returns:
  assumes run: "renumber_nodes lo w = (Returns (), w')" and dist: "distinct (nodes w)"
  shows "nodes w' = nodes w \<and> edges w' = edges w \<and> links w' = links w
       \<and> edge_mem w' = edge_mem w \<and> link_mem w' = link_mem w
       \<and> root_link_index w' = root_link_index w
       \<and> (\<forall>j. lo \<le> j \<and> j < length (nodes w) \<longrightarrow> node_ix w' (nodes w ! j) = Some j)
       \<and> (\<forall>a. (\<forall>j. lo \<le> j \<and> j < length (nodes w) \<longrightarrow> a \<noteq> nodes w ! j) \<longrightarrow> node_ix w' a = node_ix w a)"
proof -
  let ?pr = "\<lambda>w :: ('a, 'b) world. (edges w, links w, edge_mem w, link_mem w, root_link_index w)"
  have "nodes w' = nodes w \<and> ?pr w' = ?pr w
       \<and> (\<forall>j. lo \<le> j \<and> j < length (nodes w) \<longrightarrow> node_ix w' (nodes w ! j) = Some j)
       \<and> (\<forall>a. (\<forall>j. lo \<le> j \<and> j < length (nodes w) \<longrightarrow> a \<noteq> nodes w ! j) \<longrightarrow> node_ix w' a = node_ix w a)"
  proof (rule for_each_renumber[where cont = nodes and ix = node_ix and c = "nodes w"
        and f = "\<lambda>i. bind (node_at i) (\<lambda>n. node_reset_index n i)"])
    show "distinct (nodes w)" by (rule dist)
    show "nodes w = nodes w" by simp
    show "length (nodes w) \<le> length (nodes w)" by simp
    show "for_each [lo..<length (nodes w)] (\<lambda>i. bind (node_at i) (\<lambda>n. node_reset_index n i)) w = (Returns (), w')"
      using run by (simp add: renumber_nodes_def)
  next
    fix i and v v' :: "('a, 'b) world"
    assume "nodes v = nodes w" "bind (node_at i) (\<lambda>n. node_reset_index n i) v = (Returns (), v')"
      "i < length (nodes w)"
    then show "nodes v' = nodes w \<and> ?pr v' = ?pr v
        \<and> (\<forall>a. node_ix v' a = (if a = nodes w ! i then Some i else node_ix v a))"
      by (auto simp add: Returns_iffs writer_defs node_ix_def cell_update dest: cell_Some_less)
  qed
  then show ?thesis by auto
qed

lemma renumber_edges_facts:
  assumes "renumber_edges lo w = (Returns (), w')" and "distinct (edges w)"
  shows "edges w' = edges w" and "links w' = links w" and "nodes w' = nodes w"
    and "link_mem w' = link_mem w" and "node_mem w' = node_mem w"
    and "root_link_index w' = root_link_index w"
    and "\<And>j. lo \<le> j \<Longrightarrow> j < length (edges w) \<Longrightarrow> edge_ix w' (edges w ! j) = Some j"
    and "\<And>a. (\<And>j. lo \<le> j \<Longrightarrow> j < length (edges w) \<Longrightarrow> a \<noteq> edges w ! j) \<Longrightarrow> edge_ix w' a = edge_ix w a"
proof -
  note R = renumber_edges_Returns[OF assms]
  from R show "edges w' = edges w" by (elim conjE)
  from R show "links w' = links w" by (elim conjE)
  from R show "nodes w' = nodes w" by (elim conjE)
  from R show "link_mem w' = link_mem w" by (elim conjE)
  from R show "node_mem w' = node_mem w" by (elim conjE)
  from R show "root_link_index w' = root_link_index w" by (elim conjE)
  from R have a: "\<forall>j. lo \<le> j \<and> j < length (edges w) \<longrightarrow> edge_ix w' (edges w ! j) = Some j"
    by (elim conjE)
  from R have b: "\<forall>a. (\<forall>j. lo \<le> j \<and> j < length (edges w) \<longrightarrow> a \<noteq> edges w ! j) \<longrightarrow> edge_ix w' a = edge_ix w a"
    by (elim conjE)
  show "\<And>j. lo \<le> j \<Longrightarrow> j < length (edges w) \<Longrightarrow> edge_ix w' (edges w ! j) = Some j"
    using a by simp
  show "edge_ix w' a = edge_ix w a" if "\<And>j. lo \<le> j \<Longrightarrow> j < length (edges w) \<Longrightarrow> a \<noteq> edges w ! j" for a
    using b[rule_format, of a] that by simp
qed

lemma renumber_links_facts:
  assumes "renumber_links lo w = (Returns (), w')" and "distinct (links w)"
  shows "links w' = links w" and "edges w' = edges w" and "nodes w' = nodes w"
    and "edge_mem w' = edge_mem w" and "node_mem w' = node_mem w"
    and "root_link_index w' = root_link_index w"
    and "\<And>j. lo \<le> j \<Longrightarrow> j < length (links w) \<Longrightarrow> link_ix w' (links w ! j) = Some j"
    and "\<And>a. (\<And>j. lo \<le> j \<Longrightarrow> j < length (links w) \<Longrightarrow> a \<noteq> links w ! j) \<Longrightarrow> link_ix w' a = link_ix w a"
proof -
  note R = renumber_links_Returns[OF assms]
  from R show "links w' = links w" by (elim conjE)
  from R show "edges w' = edges w" by (elim conjE)
  from R show "nodes w' = nodes w" by (elim conjE)
  from R show "edge_mem w' = edge_mem w" by (elim conjE)
  from R show "node_mem w' = node_mem w" by (elim conjE)
  from R show "root_link_index w' = root_link_index w" by (elim conjE)
  from R have a: "\<forall>j. lo \<le> j \<and> j < length (links w) \<longrightarrow> link_ix w' (links w ! j) = Some j"
    by (elim conjE)
  from R have b: "\<forall>a. (\<forall>j. lo \<le> j \<and> j < length (links w) \<longrightarrow> a \<noteq> links w ! j) \<longrightarrow> link_ix w' a = link_ix w a"
    by (elim conjE)
  show "\<And>j. lo \<le> j \<Longrightarrow> j < length (links w) \<Longrightarrow> link_ix w' (links w ! j) = Some j"
    using a by simp
  show "link_ix w' a = link_ix w a" if "\<And>j. lo \<le> j \<Longrightarrow> j < length (links w) \<Longrightarrow> a \<noteq> links w ! j" for a
    using b[rule_format, of a] that by simp
qed

lemma renumber_nodes_facts:
  assumes "renumber_nodes lo w = (Returns (), w')" and "distinct (nodes w)"
  shows "nodes w' = nodes w" and "edges w' = edges w" and "links w' = links w"
    and "edge_mem w' = edge_mem w" and "link_mem w' = link_mem w"
    and "root_link_index w' = root_link_index w"
    and "\<And>j. lo \<le> j \<Longrightarrow> j < length (nodes w) \<Longrightarrow> node_ix w' (nodes w ! j) = Some j"
    and "\<And>a. (\<And>j. lo \<le> j \<Longrightarrow> j < length (nodes w) \<Longrightarrow> a \<noteq> nodes w ! j) \<Longrightarrow> node_ix w' a = node_ix w a"
proof -
  note R = renumber_nodes_Returns[OF assms]
  from R show "nodes w' = nodes w" by (elim conjE)
  from R show "edges w' = edges w" by (elim conjE)
  from R show "links w' = links w" by (elim conjE)
  from R show "edge_mem w' = edge_mem w" by (elim conjE)
  from R show "link_mem w' = link_mem w" by (elim conjE)
  from R show "root_link_index w' = root_link_index w" by (elim conjE)
  from R have a: "\<forall>j. lo \<le> j \<and> j < length (nodes w) \<longrightarrow> node_ix w' (nodes w ! j) = Some j"
    by (elim conjE)
  from R have b: "\<forall>a. (\<forall>j. lo \<le> j \<and> j < length (nodes w) \<longrightarrow> a \<noteq> nodes w ! j) \<longrightarrow> node_ix w' a = node_ix w a"
    by (elim conjE)
  show "\<And>j. lo \<le> j \<Longrightarrow> j < length (nodes w) \<Longrightarrow> node_ix w' (nodes w ! j) = Some j"
    using a by simp
  show "node_ix w' a = node_ix w a" if "\<And>j. lo \<le> j \<Longrightarrow> j < length (nodes w) \<Longrightarrow> a \<noteq> nodes w ! j" for a
    using b[rule_format, of a] that by simp
qed

subsection \<open>Erasing from a collection\<close>

lemma length_erase_at: "k < length xs \<Longrightarrow> length (erase_at k xs) = length xs - 1"
  by (simp add: erase_at_def)

lemma nth_erase_at:
  "k < length xs \<Longrightarrow> i < length xs - 1 \<Longrightarrow> erase_at k xs ! i = (if i < k then xs ! i else xs ! Suc i)"
  by (auto simp add: erase_at_def nth_append min_def)

lemma distinct_erase_at: "distinct xs \<Longrightarrow> distinct (erase_at k xs)"
  by (simp add: erase_at_def set_take_disj_set_drop_if_distinct)

lemma indexed_distinct:
  assumes "\<forall>i < length c. ix (c ! i) = Some i"
  shows "distinct c"
  unfolding distinct_conv_nth
proof (intro allI impI)
  fix i j assume "i < length c" "j < length c" "i \<noteq> j"
  with assms have "ix (c ! i) = Some i" "ix (c ! j) = Some j" by auto
  with \<open>i \<noteq> j\<close> show "c ! i \<noteq> c ! j" by auto
qed

lemma edge_ix_erase:
  "edge_ix (w\<lparr>edges := c, edge_mem := (edge_mem w)[a := None]\<rparr>) b = (if b = a then None else edge_ix w b)"
  by (auto simp add: edge_ix_def cell_update cell_def)

lemma edges_erase_renumber:
  assumes idx: "\<forall>i < length (edges w). edge_ix w (edges w ! i) = Some i"
    and e: "edges_erase k w = (Returns (), w1)"
    and r: "renumber_edges k w1 = (Returns (), w2)"
  shows "length (edges w) = length (edges w2) + 1"
    and "\<forall>i < length (edges w2). edge_ix w2 (edges w2 ! i) = Some i"
    and "links w2 = links w" and "nodes w2 = nodes w"
    and "link_mem w2 = link_mem w" and "node_mem w2 = node_mem w"
    and "root_link_index w2 = root_link_index w"
proof -
  from idx have dist: "distinct (edges w)" by (rule indexed_distinct)
  from e have k: "k < length (edges w)"
    and w1: "w1 = w\<lparr>edges := erase_at k (edges w), edge_mem := (edge_mem w)[edges w ! k := None]\<rparr>"
    by (simp_all add: edges_erase_Returns_iff)
  have e1: "edges w1 = erase_at k (edges w)" using w1 by simp
  have d1: "distinct (edges w1)" using e1 dist by (simp add: distinct_erase_at)
  have len1: "length (edges w1) = length (edges w) - 1" using e1 k by (simp add: length_erase_at)
  note R = renumber_edges_facts[OF r d1]
  show "length (edges w) = length (edges w2) + 1" using R(1) len1 k by simp
  show "links w2 = links w" using R(2) w1 by simp
  show "nodes w2 = nodes w" using R(3) w1 by simp
  show "link_mem w2 = link_mem w" using R(4) w1 by simp
  show "node_mem w2 = node_mem w" using R(5) w1 by simp
  show "root_link_index w2 = root_link_index w" using R(6) w1 by simp
  show "\<forall>i < length (edges w2). edge_ix w2 (edges w2 ! i) = Some i"
  proof (intro allI impI)
    fix i assume i: "i < length (edges w2)"
    then have i1: "i < length (edges w1)" using R(1) by simp
    show "edge_ix w2 (edges w2 ! i) = Some i"
    proof (cases "k \<le> i")
      case True
      from R(7)[OF True i1] R(1) show ?thesis by simp
    next
      case False
      then have ik: "i < k" by simp
      have a: "edges w1 ! i = edges w ! i" using ik k e1 i1 len1 by (simp add: nth_erase_at)
      have ne: "edges w ! i \<noteq> edges w ! k"
        using dist ik k by (simp add: nth_eq_iff_index_eq)
      have "edge_ix w2 (edges w1 ! i) = edge_ix w1 (edges w1 ! i)"
      proof (rule R(8))
        fix j assume "k \<le> j" "j < length (edges w1)"
        with d1 i1 ik show "edges w1 ! i \<noteq> edges w1 ! j" by (simp add: nth_eq_iff_index_eq)
      qed
      also have "\<dots> = edge_ix w1 (edges w ! i)"
        by (simp only: a)
      also have "\<dots> = edge_ix w (edges w ! i)"
        using ne by (simp add: w1 edge_ix_erase)
      also have "\<dots> = Some i" using idx ik k by simp
      finally show ?thesis using R(1) by simp
    qed
  qed
qed

lemma node_ix_erase:
  "node_ix (w\<lparr>nodes := c, node_mem := (node_mem w)[a := None]\<rparr>) b = (if b = a then None else node_ix w b)"
  by (auto simp add: node_ix_def cell_update cell_def)

lemma nodes_erase_renumber:
  assumes idx: "\<forall>i < length (nodes w). node_ix w (nodes w ! i) = Some i"
    and e: "nodes_erase k w = (Returns (), w1)"
    and r: "renumber_nodes k w1 = (Returns (), w2)"
  shows "length (nodes w) = length (nodes w2) + 1"
    and "\<forall>i < length (nodes w2). node_ix w2 (nodes w2 ! i) = Some i"
    and "links w2 = links w" and "edges w2 = edges w"
    and "link_mem w2 = link_mem w" and "edge_mem w2 = edge_mem w"
    and "root_link_index w2 = root_link_index w"
proof -
  from idx have dist: "distinct (nodes w)" by (rule indexed_distinct)
  from e have k: "k < length (nodes w)"
    and w1: "w1 = w\<lparr>nodes := erase_at k (nodes w), node_mem := (node_mem w)[nodes w ! k := None]\<rparr>"
    by (simp_all add: nodes_erase_Returns_iff)
  have e1: "nodes w1 = erase_at k (nodes w)" using w1 by simp
  have d1: "distinct (nodes w1)" using e1 dist by (simp add: distinct_erase_at)
  have len1: "length (nodes w1) = length (nodes w) - 1" using e1 k by (simp add: length_erase_at)
  note R = renumber_nodes_facts[OF r d1]
  show "length (nodes w) = length (nodes w2) + 1" using R(1) len1 k by simp
  show "links w2 = links w" using R(3) w1 by simp
  show "edges w2 = edges w" using R(2) w1 by simp
  show "link_mem w2 = link_mem w" using R(5) w1 by simp
  show "edge_mem w2 = edge_mem w" using R(4) w1 by simp
  show "root_link_index w2 = root_link_index w" using R(6) w1 by simp
  show "\<forall>i < length (nodes w2). node_ix w2 (nodes w2 ! i) = Some i"
  proof (intro allI impI)
    fix i assume i: "i < length (nodes w2)"
    then have i1: "i < length (nodes w1)" using R(1) by simp
    show "node_ix w2 (nodes w2 ! i) = Some i"
    proof (cases "k \<le> i")
      case True
      from R(7)[OF True i1] R(1) show ?thesis by simp
    next
      case False
      then have ik: "i < k" by simp
      have a: "nodes w1 ! i = nodes w ! i" using ik k e1 i1 len1 by (simp add: nth_erase_at)
      have ne: "nodes w ! i \<noteq> nodes w ! k"
        using dist ik k by (simp add: nth_eq_iff_index_eq)
      have "node_ix w2 (nodes w1 ! i) = node_ix w1 (nodes w1 ! i)"
      proof (rule R(8))
        fix j assume "k \<le> j" "j < length (nodes w1)"
        with d1 i1 ik show "nodes w1 ! i \<noteq> nodes w1 ! j" by (simp add: nth_eq_iff_index_eq)
      qed
      also have "\<dots> = node_ix w1 (nodes w ! i)"
        by (simp only: a)
      also have "\<dots> = node_ix w (nodes w ! i)"
        using ne by (simp add: w1 node_ix_erase)
      also have "\<dots> = Some i" using idx ik k by simp
      finally show ?thesis using R(1) by simp
    qed
  qed
qed

lemma link_ix_erase:
  "link_ix (w\<lparr>links := c, link_mem := (link_mem w)[a := None]\<rparr>) b = (if b = a then None else link_ix w b)"
  by (auto simp add: link_ix_def cell_update cell_def)

lemma erase_two_links_facts:
  assumes idx: "\<forall>k < length (links w). link_ix w (links w ! k) = Some k"
    and run: "erase_two_links i j w = (Returns (), w')"
    and ne: "i \<noteq> j"
  shows "length (links w) = length (links w') + 2"
    and "\<forall>k < length (links w'). link_ix w' (links w' ! k) = Some k"
    and "edges w' = edges w" and "nodes w' = nodes w"
    and "edge_mem w' = edge_mem w" and "node_mem w' = node_mem w"
    and "root_link_index w' = root_link_index w"
proof -
  define f where "f = min i j"
  define s where "s = max i j"
  from ne have fs: "f < s" by (auto simp add: f_def s_def)
  from idx have dist: "distinct (links w)" by (rule indexed_distinct)
  from run fs obtain w1 w2 where e1: "links_erase f w = (Returns (), w1)"
    and e2: "links_erase (s - 1) w1 = (Returns (), w2)"
    and r: "renumber_links f w2 = (Returns (), w')"
    by (auto simp add: erase_two_links_def Let_def f_def s_def bind_Returns_iff crash_Returns_iff
          split: if_splits)
  from e1 have f: "f < length (links w)"
    and w1: "w1 = w\<lparr>links := erase_at f (links w), link_mem := (link_mem w)[links w ! f := None]\<rparr>"
    by (simp_all add: links_erase_Returns_iff)
  have l1: "links w1 = erase_at f (links w)" using w1 by simp
  have len1: "length (links w1) = length (links w) - 1" using l1 f by (simp add: length_erase_at)
  have d1: "distinct (links w1)" using l1 dist by (simp add: distinct_erase_at)
  from e2 have s1: "s - 1 < length (links w1)"
    and w2: "w2 = w1\<lparr>links := erase_at (s - 1) (links w1),
                      link_mem := (link_mem w1)[links w1 ! (s - 1) := None]\<rparr>"
    by (simp_all add: links_erase_Returns_iff)
  from s1 len1 fs have s: "s < length (links w)" by simp
  have l2: "links w2 = erase_at (s - 1) (links w1)" using w2 by simp
  have len2: "length (links w2) = length (links w) - 2"
    using l2 s1 len1 by (simp add: length_erase_at)
  have d2: "distinct (links w2)" using l2 d1 by (simp add: distinct_erase_at)
  have "\<not> s - 1 < f" using fs by simp
  then have at_s: "links w1 ! (s - 1) = links w ! s"
    using l1 f s fs by (simp add: nth_erase_at)
  note R = renumber_links_facts[OF r d2]
  show "length (links w) = length (links w') + 2" using R(1) len2 s fs by simp
  show "edges w' = edges w" using R(2) w1 w2 by simp
  show "nodes w' = nodes w" using R(3) w1 w2 by simp
  show "edge_mem w' = edge_mem w" using R(4) w1 w2 by simp
  show "node_mem w' = node_mem w" using R(5) w1 w2 by simp
  show "root_link_index w' = root_link_index w" using R(6) w1 w2 by simp
  show "\<forall>k < length (links w'). link_ix w' (links w' ! k) = Some k"
  proof (intro allI impI)
    fix k assume "k < length (links w')"
    then have k2: "k < length (links w2)" using R(1) by simp
    show "link_ix w' (links w' ! k) = Some k"
    proof (cases "f \<le> k")
      case True
      from R(7)[OF True k2] R(1) show ?thesis by simp
    next
      case False
      then have kf: "k < f" by simp
      have a1: "links w1 ! k = links w ! k"
        using kf f l1 len1 by (simp add: nth_erase_at)
      have "k < s - 1" using kf fs by simp
      then have a2: "links w2 ! k = links w ! k"
        using kf fs s1 l2 len1 a1 by (simp add: nth_erase_at)
      have nf: "links w ! k \<noteq> links w ! f"
        using dist kf f by (simp add: nth_eq_iff_index_eq)
      have ns: "links w ! k \<noteq> links w ! s"
        using dist kf fs s by (simp add: nth_eq_iff_index_eq)
      have "link_ix w' (links w2 ! k) = link_ix w2 (links w2 ! k)"
      proof (rule R(8))
        fix m assume "f \<le> m" "m < length (links w2)"
        with d2 k2 kf show "links w2 ! k \<noteq> links w2 ! m" by (simp add: nth_eq_iff_index_eq)
      qed
      also have "\<dots> = link_ix w2 (links w ! k)"
        by (simp only: a2)
      also have "\<dots> = link_ix w1 (links w ! k)"
        using ns at_s by (simp add: w2 link_ix_erase)
      also have "\<dots> = link_ix w (links w ! k)"
        using nf by (simp add: w1 link_ix_erase)
      also have "\<dots> = Some k" using idx kf f by simp
      finally show ?thesis using R(1) by simp
    qed
  qed
qed

subsection \<open>Deleting a leaf\<close>

lemma link_ix_cong: "link_mem v = link_mem w \<Longrightarrow> link_ix v = link_ix w"
  by (simp add: link_ix_def fun_eq_iff)

lemma node_ix_cong: "node_mem v = node_mem w \<Longrightarrow> node_ix v = node_ix w"
  by (simp add: node_ix_def fun_eq_iff)

lemma edge_ix_cong: "edge_mem v = edge_mem w \<Longrightarrow> edge_ix v = edge_ix w"
  by (simp add: edge_ix_def fun_eq_iff)

lemma in_set_position: "a \<in> set c \<Longrightarrow> \<exists>i < length c. c ! i = a"
  by (auto simp add: in_set_conv_nth)

text \<open>
  The store after the last renumbering of \<open>delete_leaf_node\<close>, in front of the final
  reset of the root-link index: the counts have dropped and the stored indices are the
  positions again.
\<close>

lemma leaf_phases_facts:
  assumes idx: "indexed w" and cl: "links_closed w" and bel: "belongs_to_node n w"
    and e1: "edges_erase ei w = (Returns (), w1)"
    and r1: "renumber_edges ei w1 = (Returns (), w2)"
    and N: "cell (node_mem w2) n = Some N"
    and TL: "cell (link_mem w2) (n_link N) = Some TL"
    and s3: "link_reset_next lp n2 w2 = (Returns (), w3)"
    and AT: "cell (link_mem w3) (l_outer TL) = Some AT"
    and AO: "cell (link_mem w3) (l_outer AT) = Some AO"
    and e2: "erase_two_links (l_index AT) (l_index AO) w3 = (Returns (), w4)"
    and e3: "nodes_erase ni w4 = (Returns (), w5)"
    and r3: "renumber_nodes ni w5 = (Returns (), w6)"
  shows "length (nodes w) = length (nodes w6) + 1
       \<and> length (edges w) = length (edges w6) + 1
       \<and> length (links w) = length (links w6) + 2
       \<and> indexed w6"
proof -
  from idx have idx_l: "\<forall>i < length (links w). link_ix w (links w ! i) = Some i"
    and idx_n: "\<forall>i < length (nodes w). node_ix w (nodes w ! i) = Some i"
    and idx_e: "\<forall>i < length (edges w). edge_ix w (edges w ! i) = Some i"
    by (simp_all add: indexed_def)
  note E = edges_erase_renumber[OF idx_e e1 r1]
  from s3 obtain L where L: "cell (link_mem w2) lp = Some L"
    and w3: "w3 = w2\<lparr>link_mem := (link_mem w2)[lp := Some (L\<lparr>l_next := n2\<rparr>)]\<rparr>"
    by (auto simp add: link_reset_next_def link_update_Returns_iff)
  have lp: "lp < length (link_mem w)" using L E(5) by (auto dest: cell_Some_less)
  have cell3: "cell (link_mem w3) a = (if a = lp then Some (L\<lparr>l_next := n2\<rparr>) else cell (link_mem w) a)" for a
    using lp by (simp add: w3 E(5) cell_update)
  have L0: "cell (link_mem w) lp = Some L" using L E(5) by simp
  have same3: "\<exists>X0. cell (link_mem w) a = Some X0 \<and> l_outer X0 = l_outer X \<and> l_index X0 = l_index X"
    if "cell (link_mem w3) a = Some X" for a X
    using that L0 by (auto simp add: cell3 split: if_splits)
  have ix3: "link_ix w3 a = link_ix w a" for a
    using L0 by (auto simp add: link_ix_def cell3)
  have links3: "links w3 = links w" using w3 E(3) by simp
  \<comment> \<open>the attachment link and the link of the leaf are two different links of the tree\<close>
  from N E(6) have N0: "cell (node_mem w) n = Some N" by simp
  from TL E(5) have TL0: "cell (link_mem w) (n_link N) = Some TL" by simp
  from cl bel N0 have tl_in: "n_link N \<in> set (links w)"
    by (auto simp add: links_closed_def belongs_to_node_def)
  from cl tl_in TL0 have at_in: "l_outer TL \<in> set (links w)"
    by (auto simp add: links_closed_def)
  from same3[OF AT] obtain AT0 where AT0: "cell (link_mem w) (l_outer TL) = Some AT0"
    "l_outer AT0 = l_outer AT" "l_index AT0 = l_index AT" by blast
  from cl at_in AT0 have ao_in: "l_outer AT \<in> set (links w)" and ao_ne: "l_outer AT \<noteq> l_outer TL"
    by (auto simp add: links_closed_def)
  from same3[OF AO] obtain AO0 where AO0: "cell (link_mem w) (l_outer AT) = Some AO0"
    "l_index AO0 = l_index AO" by blast
  from in_set_position[OF at_in] obtain i where i: "i < length (links w)" "links w ! i = l_outer TL"
    by blast
  from in_set_position[OF ao_in] obtain j where j: "j < length (links w)" "links w ! j = l_outer AT"
    by blast
  from idx_l i AT0 have "l_index AT = i" by (auto simp add: link_ix_def)
  moreover from idx_l j AO0 have "l_index AO = j" by (auto simp add: link_ix_def)
  moreover from i j ao_ne have "i \<noteq> j" by auto
  ultimately have ne: "l_index AT \<noteq> l_index AO" by simp
  have idx3: "\<forall>k < length (links w3). link_ix w3 (links w3 ! k) = Some k"
    using idx_l by (simp add: links3 ix3)
  note K = erase_two_links_facts[OF idx3 e2 ne]
  have nodes4: "nodes w4 = nodes w" using K(4) w3 E(4) by simp
  have nmem4: "node_mem w4 = node_mem w" using K(6) w3 E(6) by simp
  have idx4: "\<forall>k < length (nodes w4). node_ix w4 (nodes w4 ! k) = Some k"
    using idx_n by (simp add: nodes4 node_ix_cong[OF nmem4])
  note M = nodes_erase_renumber[OF idx4 e3 r3]
  have "length (nodes w) = length (nodes w6) + 1"
    using M(1) nodes4 by simp
  moreover have "length (edges w) = length (edges w6) + 1"
    using E(1) K(3) M(4) w3 by simp
  moreover have "length (links w) = length (links w6) + 2"
    using K(1) links3 M(3) by simp
  moreover have "indexed w6"
  proof -
    have l: "links w6 = links w4" and lm: "link_mem w6 = link_mem w4"
      using M(3) M(5) by simp_all
    have a: "\<forall>k < length (links w6). link_ix w6 (links w6 ! k) = Some k"
      using K(2) by (simp add: l link_ix_cong[OF lm])
    have b: "\<forall>k < length (nodes w6). node_ix w6 (nodes w6 ! k) = Some k"
      using M(2) by simp
    have e: "edges w6 = edges w2" and em: "edge_mem w6 = edge_mem w2"
      using M(4) M(6) K(3) K(5) w3 by simp_all
    have c: "\<forall>k < length (edges w6). edge_ix w6 (edges w6 ! k) = Some k"
      using E(2) by (simp add: e edge_ix_cong[OF em])
    from a b c show ?thesis by (simp add: indexed_def)
  qed
  ultimately show ?thesis by blast
qed

subsection \<open>Rerooting there and back\<close>

lemma reroot_step_run:
  assumes "cell (link_mem w) c = Some C" "cell (edge_mem w) (l_edge C) = Some E"
    "cell (link_mem w) (l_outer C) = Some Q" "cell (node_mem w) (l_node Q) = Some V"
  shows "reroot_step c w = (Returns (n_link V),
     w\<lparr>edge_mem := (edge_mem w)[l_edge C := Some (E\<lparr>e_link_p := e_link_s E, e_link_s := e_link_p E\<rparr>)],
       node_mem := (node_mem w)[l_node Q := Some (V\<lparr>n_link := l_outer C\<rparr>)]\<rparr>)"
  using assms cell_Some_less[OF assms(2)] cell_Some_less[OF assms(4)]
  by (simp add: reroot_step_def exec_defs cell_simps)

lemma reroot_loop_stop:
  assumes "cell (link_mem w) c = Some C" "l_node C = r"
  shows "reroot_loop r c w = Some (Returns (), w)"
  using assms by (subst reroot_loop.simps) (simp add: exec_defs)

lemma reroot_loop_step:
  assumes "cell (link_mem w) c = Some C" "l_node C \<noteq> r" "reroot_step c w = (Returns t, w1)"
  shows "reroot_loop r c w = reroot_loop r t w1"
  using assms by (subst reroot_loop.simps) (simp add: exec_defs)

lemma up_path_frame:
  assumes "up_path w r v c ps"
    and "link_mem w' = link_mem w"
    and "\<forall>e \<in> snd ` set ps. cell (edge_mem w') e = cell (edge_mem w) e"
    and "\<forall>u \<in> set (tl (map fst ps @ [r])). cell (node_mem w') u = cell (node_mem w) u"
  shows "up_path w' r v c ps"
  using assms
proof (induction ps arbitrary: v c)
  case Nil
  then show ?case by (auto split: option.splits)
next
  case (Cons p ps)
  obtain v' e where p: "p = (v', e)" by (cases p)
  from Cons.prems(1) p obtain C E Q V where
    f: "v' = v" "v \<noteq> r" "cell (link_mem w) c = Some C" "l_node C = v" "l_edge C = e"
      "cell (edge_mem w) e = Some E" "e_link_s E = c" "e_link_p E = l_outer C"
      "cell (link_mem w) (l_outer C) = Some Q" "l_outer Q = c" "l_edge Q = e"
      "cell (node_mem w) (l_node Q) = Some V" "up_path w r (l_node Q) (n_link V) ps"
    by (auto split: option.splits)
  have hd: "hd (map fst ps @ [r]) = l_node Q"
    using f(13) by (cases ps) auto
  have ne: "map fst ps @ [r] \<noteq> []" by simp
  have mem: "l_node Q \<in> set (map fst ps @ [r])"
    using hd ne hd_in_set by metis
  have "up_path w' r (l_node Q) (n_link V) ps"
  proof (rule Cons.IH[OF f(13) Cons.prems(2)])
    show "\<forall>e\<in>snd ` set ps. cell (edge_mem w') e = cell (edge_mem w) e"
      using Cons.prems(3) by simp
    show "\<forall>u\<in>set (tl (map fst ps @ [r])). cell (node_mem w') u = cell (node_mem w) u"
      using Cons.prems(4) p by (cases ps) auto
  qed
  moreover have "cell (edge_mem w') e = cell (edge_mem w) e"
    using Cons.prems(3) p by simp
  moreover have "cell (node_mem w') (l_node Q) = cell (node_mem w) (l_node Q)"
    using Cons.prems(4) p mem by auto
  ultimately show ?case
    using f p Cons.prems(2) by simp
qed


lemma cell_Some_nth: "cell m a = Some x \<Longrightarrow> m ! a = Some x"
  by (simp add: cell_def split: if_splits)

lemma list_update_cell_id: "cell m a = Some x \<Longrightarrow> m[a := Some x] = m"
  using cell_Some_nth[of m a x] list_update_id[of m a] by simp

lemma set_primary_twice:
  "set_primary v x (set_primary v y w) = set_primary v x w"
  by (auto simp add: set_primary_def cell_update split: option.splits dest: cell_Some_less)

lemma roundtrip_loops:
  assumes "up_path w r v c ps"
    and "distinct (map fst ps @ [r])"
    and "distinct (map snd ps)"
    and "a \<notin> set (tl (map fst ps @ [r]))"
    and "cell (node_mem w) v = Some V0"
    and "cell (node_mem w) r = Some Vr"
  shows "\<exists>w1 Vr1. reroot_loop r c w = Some (Returns (), w1)
        \<and> link_mem w1 = link_mem w \<and> links w1 = links w
        \<and> root_link_index w1 = root_link_index w
        \<and> cell (node_mem w1) r = Some Vr1
        \<and> reroot_loop a (n_link Vr1) ((set_primary r R w1)\<lparr>root_link_index := i\<rparr>)
          = reroot_loop a (n_link V0) ((set_primary r R (set_primary v c w))\<lparr>root_link_index := i\<rparr>)"
  using assms
proof (induction ps arbitrary: w v c V0 Vr)
  case Nil
  then obtain C where C: "cell (link_mem w) c = Some C" "l_node C = r" and v: "v = r"
    by (auto split: option.splits)
  have "reroot_loop r c w = Some (Returns (), w)"
    using C by (rule reroot_loop_stop)
  moreover have "cell (node_mem w) r = Some V0" using Nil.prems(5) v by simp
  moreover have "set_primary r R (set_primary v c w) = set_primary r R w"
    using v by (simp add: set_primary_twice)
  ultimately show ?case by simp
next
  case (Cons p ps)
  obtain v' e where p: "p = (v', e)" by (cases p)
  from Cons.prems(1) p obtain C E Q V where
    f: "v' = v" "v \<noteq> r" "cell (link_mem w) c = Some C" "l_node C = v" "l_edge C = e"
      "cell (edge_mem w) e = Some E" "e_link_s E = c" "e_link_p E = l_outer C"
      "cell (link_mem w) (l_outer C) = Some Q" "l_outer Q = c" "l_edge Q = e"
      "cell (node_mem w) (l_node Q) = Some V" "up_path w r (l_node Q) (n_link V) ps"
    by (auto split: option.splits)
  define E' where "E' = E\<lparr>e_link_p := e_link_s E, e_link_s := e_link_p E\<rparr>"
  define V1 where "V1 = V\<lparr>n_link := l_outer C\<rparr>"
  define wa where "wa = w\<lparr>edge_mem := (edge_mem w)[e := Some E'], node_mem := (node_mem w)[l_node Q := Some V1]\<rparr>"
  have e_lt: "e < length (edge_mem w)" using f(6) by (rule cell_Some_less)
  have q_lt: "l_node Q < length (node_mem w)" using f(12) by (rule cell_Some_less)
  have v_lt: "v < length (node_mem w)" using Cons.prems(5) by (rule cell_Some_less)
  have r_lt: "r < length (node_mem w)" using Cons.prems(6) by (rule cell_Some_less)
  have hd: "hd (map fst ps @ [r]) = l_node Q"
    using f(13) by (cases ps) auto
  have mem: "l_node Q \<in> set (map fst ps @ [r])"
    using hd hd_in_set[of "map fst ps @ [r]"] by simp
  have dist_n: "distinct (map fst ps @ [r])" and v_notin: "v \<notin> set (map fst ps @ [r])"
    using Cons.prems(2) p f(1) by auto
  have tl_ne: "\<forall>u \<in> set (tl (map fst ps @ [r])). u \<noteq> l_node Q"
    using dist_n hd by (cases "map fst ps @ [r]") auto
  have dist_e: "distinct (map snd ps)" and e_notin: "e \<notin> snd ` set ps"
    using Cons.prems(3) p by auto
  have a_notin: "a \<notin> set (map fst ps @ [r])"
    using Cons.prems(4) p by simp
  have vq: "v \<noteq> l_node Q" using v_notin mem by auto
  have aq: "a \<noteq> l_node Q" using a_notin mem by auto
  have step: "reroot_step c w = (Returns (n_link V), wa)"
    using reroot_step_run[OF f(3) _ f(9) f(12)] f(5) f(6) by (simp add: wa_def E'_def V1_def)
  have loop1: "reroot_loop r c w = reroot_loop r (n_link V) wa"
    using f(3) _ step by (rule reroot_loop_step) (simp add: f(4) f(2))
  have up_a: "up_path wa r (l_node Q) (n_link V) ps"
  proof (rule up_path_frame[OF f(13)])
    show "link_mem wa = link_mem w" by (simp add: wa_def)
    show "\<forall>e\<in>snd ` set ps. cell (edge_mem wa) e = cell (edge_mem w) e"
      using e_notin by (auto simp add: wa_def cell_update)
    show "\<forall>u\<in>set (tl (map fst ps @ [r])). cell (node_mem wa) u = cell (node_mem w) u"
      using tl_ne by (auto simp add: wa_def cell_update)
  qed
  have a_tl: "a \<notin> set (tl (map fst ps @ [r]))"
    using a_notin by (cases "map fst ps @ [r]") auto
  have V1a: "cell (node_mem wa) (l_node Q) = Some V1"
    using q_lt by (simp add: wa_def cell_update)
  have Vra: "\<exists>Vr'. cell (node_mem wa) r = Some Vr'"
    using Cons.prems(6) q_lt by (simp add: wa_def cell_update)
  then obtain Vr' where Vr': "cell (node_mem wa) r = Some Vr'" by blast
  from Cons.IH[OF up_a dist_n dist_e a_tl V1a Vr']
  obtain w1 Vr1 where l1: "reroot_loop r (n_link V) wa = Some (Returns (), w1)"
    and fr: "link_mem w1 = link_mem wa" "links w1 = links wa"
      "root_link_index w1 = root_link_index wa"
    and r1: "cell (node_mem w1) r = Some Vr1"
    and l2: "reroot_loop a (n_link Vr1) ((set_primary r R w1)\<lparr>root_link_index := i\<rparr>)
          = reroot_loop a (n_link V1)
              ((set_primary r R (set_primary (l_node Q) (n_link V) wa))\<lparr>root_link_index := i\<rparr>)"
    by blast
  \<comment> \<open>the store in which the second loop arrives at the outer link of \<open>c\<close>\<close>
  define we where "we = w\<lparr>edge_mem := (edge_mem w)[e := Some E']\<rparr>"
  have bk: "set_primary (l_node Q) (n_link V) wa = we"
    using q_lt f(12)
    by (simp add: set_primary_def wa_def we_def cell_update V1_def list_update_cell_id)
  define Vr2 where "Vr2 = Vr\<lparr>n_link := R\<rparr>"
  define ws where "ws = (we\<lparr>node_mem := (node_mem w)[r := Some Vr2]\<rparr>)\<lparr>root_link_index := i\<rparr>"
  have sub: "(set_primary r R we)\<lparr>root_link_index := i\<rparr> = ws"
    using Cons.prems(6) by (simp add: set_primary_def we_def ws_def Vr2_def)
  have n_out: "n_link V1 = l_outer C" by (simp add: V1_def)
  have cq: "cell (link_mem ws) (l_outer C) = Some Q" using f(9) by (simp add: ws_def we_def)
  have ce: "cell (edge_mem ws) (l_edge Q) = Some E'"
    using e_lt f(11) by (simp add: ws_def we_def cell_update)
  have cc: "cell (link_mem ws) (l_outer Q) = Some C" using f(3) f(10) by (simp add: ws_def we_def)
  have cv: "cell (node_mem ws) (l_node C) = Some V0"
    using Cons.prems(5) f(2) f(4) by (simp add: ws_def we_def cell_update)
  have E'': "E'\<lparr>e_link_p := e_link_s E', e_link_s := e_link_p E'\<rparr> = E"
    by (simp add: E'_def)
  define wz where "wz = (set_primary r R (set_primary v c w))\<lparr>root_link_index := i\<rparr>"
  have fin: "ws\<lparr>edge_mem := (edge_mem ws)[l_edge Q := Some E],
                node_mem := (node_mem ws)[l_node C := Some (V0\<lparr>n_link := l_outer Q\<rparr>)]\<rparr> = wz"
    using Cons.prems(5) Cons.prems(6) f(2) f(4) f(6) f(10) f(11) v_lt r_lt
    by (simp add: wz_def ws_def we_def set_primary_def cell_update Vr2_def
          list_update_cell_id list_update_swap[of v r])
  have step2: "reroot_step (l_outer C) ws = (Returns (n_link V0), wz)"
    using reroot_step_run[OF cq ce cc cv] by (simp add: E'' fin)
  have loop2: "reroot_loop a (l_outer C) ws = reroot_loop a (n_link V0) wz"
    using cq _ step2 by (rule reroot_loop_step) (simp add: aq[symmetric])
  from l1 loop1 have "reroot_loop r c w = Some (Returns (), w1)" by simp
  moreover from l2 loop2 have "reroot_loop a (n_link Vr1) ((set_primary r R w1)\<lparr>root_link_index := i\<rparr>)
          = reroot_loop a (n_link V0) wz"
    by (simp add: bk sub n_out)
  moreover have "link_mem w1 = link_mem w" "links w1 = links w"
    "root_link_index w1 = root_link_index w"
    using fr by (simp_all add: wa_def)
  ultimately show ?case using r1 by (auto simp add: wz_def)
qed


lemma up_path_hd: "up_path w r v c ps \<Longrightarrow> hd (map fst ps @ [r]) = v"
  by (cases ps) auto

lemma up_path_link: "up_path w r v c ps \<Longrightarrow> \<exists>C. cell (link_mem w) c = Some C \<and> l_node C = v"
  by (cases ps) (auto split: option.splits)

text \<open>
  C5, amended. Let the stored link indices agree with the positions, let \<open>R\<close> be the root
  link, \<open>r\<close> its node, and let the primary link of \<open>r\<close> be \<open>R\<close>. Let \<open>L\<close> be a link of the
  tree at node \<open>v\<close>, and let the way from \<open>v\<close> up to \<open>r\<close> be as the invariants of the data
  model describe it, through pairwise different nodes and edges. Then \<open>reroot\<close> at \<open>L\<close>
  followed by \<open>reroot\<close> at \<open>R\<close> returns, and the store is exactly the store before the
  first call: every edge has its primary and secondary link back, every node its primary
  link, and the root designation is \<open>R\<close> again.
\<close>

theorem reroot_round_trip:
  assumes idx: "indexed w"
    and L: "belongs_to_link L w"
    and rt: "root_link_index w < length (links w)"
    and R: "R = links w ! root_link_index w"
    and RL: "cell (link_mem w) R = Some RL" "l_node RL = r"
    and Vr: "cell (node_mem w) r = Some Vr" "n_link Vr = R"
    and LL: "cell (link_mem w) L = Some LL" "l_node LL = v"
    and V0: "cell (node_mem w) v = Some V0" "n_link V0 = c"
    and path: "up_path w r v c ps" "distinct (map fst ps @ [r])" "distinct (map snd ps)"
  shows "bind (reroot L) (\<lambda>_. reroot R) w = (Returns (), w)"
proof -
  from idx have idx_l: "\<forall>k < length (links w). link_ix w (links w ! k) = Some k"
    by (simp add: indexed_def)
  from L obtain iL where iL: "iL < length (links w)" "links w ! iL = L"
    by (auto simp add: belongs_to_link_def in_set_conv_nth)
  from idx_l iL LL have LLi: "l_index LL = iL" by (auto simp add: link_ix_def)
  from idx_l rt R RL have RLi: "l_index RL = root_link_index w" by (auto simp add: link_ix_def)
  have Rin: "belongs_to_link R w" using rt R by (simp add: belongs_to_link_def)
  have v_lt: "v < length (node_mem w)" using V0(1) by (rule cell_Some_less)
  have r_lt: "r < length (node_mem w)" using Vr(1) by (rule cell_Some_less)
  define V0p where "V0p = V0\<lparr>n_link := L\<rparr>"
  define wp where "wp = w\<lparr>root_link_index := iL, node_mem := (node_mem w)[v := Some V0p]\<rparr>"
  have first: "reroot L w = run_loop (reroot_loop r c wp) wp"
    using L rt R RL LL V0 iL LLi v_lt
    by (simp add: reroot_def exec_defs root_link_def root_node_def link_at_def
          reset_root_link_index_def wp_def V0p_def)
  have hd: "hd (map fst ps @ [r]) = v" using path(1) by (rule up_path_hd)
  have v_tl: "v \<notin> set (tl (map fst ps @ [r]))"
    using hd path(2) by (cases "map fst ps @ [r]") auto
  have up_p: "up_path wp r v c ps"
  proof (rule up_path_frame[OF path(1)])
    show "link_mem wp = link_mem w" by (simp add: wp_def)
    show "\<forall>e\<in>snd ` set ps. cell (edge_mem wp) e = cell (edge_mem w) e" by (simp add: wp_def)
    show "\<forall>u\<in>set (tl (map fst ps @ [r])). cell (node_mem wp) u = cell (node_mem w) u"
      using v_tl by (auto simp add: wp_def cell_update)
  qed
  have V0p: "cell (node_mem wp) v = Some V0p" using v_lt by (simp add: wp_def cell_update)
  have "\<exists>Vr'. cell (node_mem wp) r = Some Vr'" using Vr(1) v_lt by (simp add: wp_def cell_update)
  then obtain Vr' where Vr': "cell (node_mem wp) r = Some Vr'" by blast
  from roundtrip_loops[OF up_p path(2) path(3) v_tl V0p Vr', where R = R and i = "root_link_index w"]
  obtain w1 Vr1 where l1: "reroot_loop r c wp = Some (Returns (), w1)"
    and fr: "link_mem w1 = link_mem wp" "links w1 = links wp"
      "root_link_index w1 = root_link_index wp"
    and r1: "cell (node_mem w1) r = Some Vr1"
    and l2: "reroot_loop v (n_link Vr1) ((set_primary r R w1)\<lparr>root_link_index := root_link_index w\<rparr>)
          = reroot_loop v (n_link V0p)
              ((set_primary r R (set_primary v c wp))\<lparr>root_link_index := root_link_index w\<rparr>)"
    by blast
  have one: "reroot L w = (Returns (), w1)" using first l1 by (simp add: run_loop_def)
  have r1_lt: "r < length (node_mem w1)" using r1 by (rule cell_Some_less)
  define wm where "wm = (set_primary r R w1)\<lparr>root_link_index := root_link_index w\<rparr>"
  have wm: "wm = w1\<lparr>root_link_index := root_link_index w,
                    node_mem := (node_mem w1)[r := Some (Vr1\<lparr>n_link := R\<rparr>)]\<rparr>"
    using r1 by (simp add: wm_def set_primary_def)
  have "reroot R w1 = run_loop (reroot_loop v (n_link Vr1)
        (w1\<lparr>root_link_index := root_link_index w,
                    node_mem := (node_mem w1)[r := Some (Vr1\<lparr>n_link := R\<rparr>)]\<rparr>))
        (w1\<lparr>root_link_index := root_link_index w,
                    node_mem := (node_mem w1)[r := Some (Vr1\<lparr>n_link := R\<rparr>)]\<rparr>)"
    using Rin rt R RL LL iL RLi r1 fr r1_lt
    by (simp add: reroot_def belongs_to_link_def exec_defs root_link_def root_node_def
          link_at_def reset_root_link_index_def wp_def)
  then have second: "reroot R w1 = run_loop (reroot_loop v (n_link Vr1) wm) wm"
    by (simp only: wm)
  have restored: "(set_primary r R (set_primary v c wp))\<lparr>root_link_index := root_link_index w\<rparr> = w"
  proof -
    have a: "set_primary v c wp = w\<lparr>root_link_index := iL\<rparr>"
      using v_lt V0 by (simp add: set_primary_def wp_def cell_update V0p_def list_update_cell_id)
    have b: "set_primary r R (w\<lparr>root_link_index := iL\<rparr>) = w\<lparr>root_link_index := iL\<rparr>"
      using Vr by (simp add: set_primary_def list_update_cell_id)
    show ?thesis by (simp add: a b)
  qed
  have stop: "reroot_loop v L w = Some (Returns (), w)"
    using LL by (rule reroot_loop_stop)
  have two: "reroot R w1 = (Returns (), w)"
    using second l2 restored stop by (simp add: run_loop_def V0p_def wm_def)
  show ?thesis using one two by (simp add: bind_def)
qed

theorem reroot_round_trip_witness:
  "indexed tree6 \<and> belongs_to_link 6 tree6 \<and> root_link_index tree6 < length (links tree6)
   \<and> up_path tree6 0 2 6 [(2, 1), (1, 0)]
   \<and> bind (reroot 6) (\<lambda>_. reroot 0) tree6 = (Returns (), tree6)"
proof -
  have i: "indexed tree6"
    by (simp add: indexed_def link_ix_def node_ix_def edge_ix_def example_defs cell_simps
          All_less_Suc eval_nat_numeral)
  have b: "belongs_to_link 6 tree6" and rt: "root_link_index tree6 < length (links tree6)"
    and R: "0 = links tree6 ! root_link_index tree6"
    by (simp_all add: belongs_to_link_def example_defs)
  have c: "cell (link_mem tree6) 0 = Some \<lparr>l_index = 0, l_next = 1, l_outer = 3, l_node = 0, l_edge = 0\<rparr>"
    "cell (node_mem tree6) 0 = Some \<lparr>n_index = 0, n_link = 0, n_data = Some ''A''\<rparr>"
    "cell (link_mem tree6) 6 = Some \<lparr>l_index = 6, l_next = 6, l_outer = 4, l_node = 2, l_edge = 1\<rparr>"
    "cell (node_mem tree6) 2 = Some \<lparr>n_index = 2, n_link = 6, n_data = Some ''C''\<rparr>"
    by (simp_all add: example_defs cell_simps)
  have p: "up_path tree6 0 2 6 [(2, 1), (1, 0)]"
    by (simp add: example_defs cell_simps)
  have d: "distinct (map fst [(2 :: nat, 1 :: nat), (1, 0)] @ [0])"
    "distinct (map snd [(2 :: nat, 1 :: nat), (1, 0)])"
    by simp_all
  from reroot_round_trip[OF i b rt R c(1) _ c(2) _ c(3) _ c(4) _ p d]
  have "bind (reroot 6) (\<lambda>_. reroot 0) tree6 = (Returns (), tree6)"
    by simp
  with i b rt p show ?thesis by blast
qed

text \<open>
  C5 as stated, at the tree \<open>tree6\<close> with the root-link index set to 2: the root node is A,
  its primary link is link 0 and the root link is link 2, another link of its ring. The
  indices agree with the positions and the way from C to A is in order, but the second
  \<open>reroot\<close> sets the primary link of A to the root link: it is 2 afterwards, not 0.
\<close>

theorem reroot_round_trip_counterexample:
  "indexed (tree6\<lparr>root_link_index := 2\<rparr>)
   \<and> belongs_to_link 6 (tree6\<lparr>root_link_index := 2\<rparr>)
   \<and> fst (root_link (tree6\<lparr>root_link_index := 2\<rparr>)) = Returns 2
   \<and> up_path (tree6\<lparr>root_link_index := 2\<rparr>) 0 2 6 [(2, 1), (1, 0)]
   \<and> fst (bind (reroot 6) (\<lambda>_. reroot 2) (tree6\<lparr>root_link_index := 2\<rparr>)) = Returns ()
   \<and> cell (node_mem (tree6\<lparr>root_link_index := 2\<rparr>)) 0
        = Some \<lparr>n_index = 0, n_link = 0, n_data = Some ''A''\<rparr>
   \<and> cell (node_mem (snd (bind (reroot 6) (\<lambda>_. reroot 2) (tree6\<lparr>root_link_index := 2\<rparr>)))) 0
        = Some \<lparr>n_index = 0, n_link = 2, n_data = Some ''A''\<rparr>"
proof -
  have "indexed (tree6\<lparr>root_link_index := 2\<rparr>)"
    by (simp add: indexed_def link_ix_def node_ix_def edge_ix_def example_defs cell_simps
          All_less_Suc eval_nat_numeral)
  moreover have "belongs_to_link 6 (tree6\<lparr>root_link_index := 2\<rparr>)"
    by (simp add: belongs_to_link_def example_defs)
  moreover have "up_path (tree6\<lparr>root_link_index := 2\<rparr>) 0 2 6 [(2, 1), (1, 0)]"
    by (simp add: example_defs cell_simps)
  moreover have "fst (root_link (tree6\<lparr>root_link_index := 2\<rparr>)) = Returns 2"
    "fst (bind (reroot 6) (\<lambda>_. reroot 2) (tree6\<lparr>root_link_index := 2\<rparr>)) = Returns ()"
    "cell (node_mem (tree6\<lparr>root_link_index := 2\<rparr>)) 0
        = Some \<lparr>n_index = 0, n_link = 0, n_data = Some ''A''\<rparr>"
    "cell (node_mem (snd (bind (reroot 6) (\<lambda>_. reroot 2) (tree6\<lparr>root_link_index := 2\<rparr>)))) 0
        = Some \<lparr>n_index = 0, n_link = 2, n_data = Some ''A''\<rparr>"
    by code_simp+
  ultimately show ?thesis by blast
qed

subsection \<open>Stable sorting of positions\<close>

lemma set_insert_stable: "set (insert_stable lt x ys) = insert x (set ys)"
  by (induction ys) auto

lemma length_insert_stable: "length (insert_stable lt x ys) = Suc (length ys)"
  by (induction ys) auto

lemma distinct_insert_stable:
  "distinct (insert_stable lt x ys) \<longleftrightarrow> x \<notin> set ys \<and> distinct ys"
  by (induction ys) (auto simp add: set_insert_stable)

lemma sorted_insert_stable:
  assumes asym: "\<And>a b. lt a b \<Longrightarrow> \<not> lt b a"
    and negtrans: "\<And>a b c. \<not> lt b a \<Longrightarrow> \<not> lt c b \<Longrightarrow> \<not> lt c a"
  shows "sorted_wrt (\<lambda>a b. \<not> lt b a) ys \<Longrightarrow> sorted_wrt (\<lambda>a b. \<not> lt b a) (insert_stable lt x ys)"
proof (induction ys)
  case Nil
  then show ?case by simp
next
  case (Cons y ys)
  show ?case
  proof (cases "lt y x")
    case True
    then have "\<not> lt x y" by (rule asym)
    moreover have "\<forall>z \<in> set ys. \<not> lt z y" using Cons.prems by simp
    ultimately show ?thesis using True Cons by (auto simp add: set_insert_stable)
  next
    case False
    have "\<forall>z \<in> set ys. \<not> lt z x"
    proof
      fix z assume "z \<in> set ys"
      then have "\<not> lt z y" using Cons.prems by simp
      with False show "\<not> lt z x" by (rule negtrans)
    qed
    then show ?thesis using False Cons.prems by simp
  qed
qed

lemma filter_insert_stable:
  assumes "\<And>y. lt y x \<Longrightarrow> P x \<Longrightarrow> \<not> P y"
  shows "filter P (insert_stable lt x ys) = (if P x then x # filter P ys else filter P ys)"
  using assms by (induction ys) auto

lemma sorted_foldr_insert_stable:
  assumes "\<And>a b. lt a b \<Longrightarrow> \<not> lt b a"
    and "\<And>a b c. \<not> lt b a \<Longrightarrow> \<not> lt c b \<Longrightarrow> \<not> lt c a"
  shows "sorted_wrt (\<lambda>a b. \<not> lt b a) (foldr (insert_stable lt) xs [])"
  by (induction xs) (simp_all add: sorted_insert_stable[OF assms])

lemma set_foldr_insert_stable: "set (foldr (insert_stable lt) xs []) = set xs"
  by (induction xs) (simp_all add: set_insert_stable)

lemma length_foldr_insert_stable: "length (foldr (insert_stable lt) xs []) = length xs"
  by (induction xs) (simp_all add: length_insert_stable)

lemma distinct_foldr_insert_stable: "distinct xs \<Longrightarrow> distinct (foldr (insert_stable lt) xs [])"
  by (induction xs) (simp_all add: distinct_insert_stable set_foldr_insert_stable)

lemma filter_foldr_insert_stable:
  assumes "\<And>x y. lt y x \<Longrightarrow> P x \<Longrightarrow> \<not> P y"
  shows "filter P (foldr (insert_stable lt) xs []) = filter P xs"
  by (induction xs) (simp_all add: filter_insert_stable[of lt _ P, OF assms])

text \<open>The order that the model of ladderize computes, as a list of positions.\<close>

lemma child_order_props:
  fixes ks :: "nat list"
  shows "set (child_order ord ks) = {0 ..< length ks}"
    and "distinct (child_order ord ks)"
    and "length (child_order ord ks) = length ks"
    and "sorted_wrt (\<lambda>i j. if ord = kSmallFirst then ks ! i \<le> ks ! j else ks ! j \<le> ks ! i) (child_order ord ks)"
    and "filter (\<lambda>i. ks ! i = s) (child_order ord ks) = filter (\<lambda>i. ks ! i = s) [0 ..< length ks]"
proof -
  show "set (child_order ord ks) = {0 ..< length ks}"
    by (simp add: child_order_def stable_sort_indices_def set_foldr_insert_stable)
  show "distinct (child_order ord ks)"
    by (simp add: child_order_def stable_sort_indices_def distinct_foldr_insert_stable)
  show "length (child_order ord ks) = length ks"
    by (simp add: child_order_def stable_sort_indices_def length_foldr_insert_stable)
  show "filter (\<lambda>i. ks ! i = s) (child_order ord ks) = filter (\<lambda>i. ks ! i = s) [0 ..< length ks]"
    by (auto simp add: child_order_def stable_sort_indices_def intro!: filter_foldr_insert_stable)
  show "sorted_wrt (\<lambda>i j. if ord = kSmallFirst then ks ! i \<le> ks ! j else ks ! j \<le> ks ! i) (child_order ord ks)"
  proof (cases "ord = kSmallFirst")
    case True
    have "sorted_wrt (\<lambda>a b. \<not> ks ! b < ks ! a) (foldr (insert_stable (\<lambda>i j. ks ! i < ks ! j)) [0 ..< length ks] [])"
      by (rule sorted_foldr_insert_stable) auto
    then show ?thesis using True
      by (simp add: child_order_def stable_sort_indices_def not_less)
  next
    case False
    have "sorted_wrt (\<lambda>a b. \<not> ks ! b > ks ! a) (foldr (insert_stable (\<lambda>i j. ks ! i > ks ! j)) [0 ..< length ks] [])"
      by (rule sorted_foldr_insert_stable) auto
    then show ?thesis using False
      by (simp add: child_order_def stable_sort_indices_def not_less)
  qed
qed

subsection \<open>Rings as chains of next references\<close>

lemma chain_ring_others:
  "chain m p c cs \<Longrightarrow> ring_others m p c acc = Some (Inr (rev acc @ cs))"
proof (induction cs arbitrary: c acc)
  case Nil
  then show ?case by (subst ring_others.simps) simp
next
  case (Cons x xs)
  then obtain l where l: "cell m c = Some l" "chain m p (l_next l) xs" "x = c" "c \<noteq> p"
    by (auto split: option.splits)
  from Cons.IH[OF l(2), of "c # acc"] l show ?case
    by (subst ring_others.simps) simp
qed

lemma ring_others_chain_aux:
  assumes "ring_others m p c acc = Some r"
  shows "\<forall>q. r = Inr q \<longrightarrow> (\<exists>cs. q = rev acc @ cs \<and> chain m p c cs)"
proof (rule ring_others.raw_induct[where P="\<lambda>m p c acc r. \<forall>q. r = Inr q \<longrightarrow> (\<exists>cs. q = rev acc @ cs \<and> chain m p c cs)", OF _ assms])
  fix ro m p c acc r
  assume IH: "\<And>m p c acc r. ro m p c acc = Some r \<Longrightarrow>
                \<forall>q. r = Inr q \<longrightarrow> (\<exists>cs. q = rev acc @ cs \<and> chain m p c cs)"
    and step: "(if c = p then Some (Inr (rev acc))
                else case cell m c of None \<Rightarrow> Some (Inl Dangling)
                     | Some l \<Rightarrow> ro m p (l_next l) (c # acc)) = Some r"
  show "\<forall>q. r = Inr q \<longrightarrow> (\<exists>cs. q = rev acc @ cs \<and> chain m p c cs)"
  proof (intro allI impI)
    fix q assume r: "r = Inr q"
    show "\<exists>cs. q = rev acc @ cs \<and> chain m p c cs"
    proof (cases "c = p")
      case True
      then show ?thesis using step r by simp
    next
      case False
      then obtain l where l: "cell m c = Some l" "ro m p (l_next l) (c # acc) = Some (Inr q)"
        using step r by (auto split: option.splits)
      from IH[OF l(2)] obtain cs where "q = rev (c # acc) @ cs" "chain m p (l_next l) cs" by blast
      then have "q = rev acc @ (c # cs) \<and> chain m p c (c # cs)" using False l(1) by simp
      then show ?thesis by blast
    qed
  qed
qed

lemma ring_others_chain:
  "ring_others m p c [] = Some (Inr cs) \<Longrightarrow> chain m p c cs"
  using ring_others_chain_aux[of m p c "[]" "Inr cs"] by simp

lemma chain_notin: "chain m p c cs \<Longrightarrow> p \<notin> set cs"
  by (induction cs arbitrary: c) (auto split: option.splits)

lemma chain_live: "chain m p c cs \<Longrightarrow> x \<in> set cs \<Longrightarrow> cell m x \<noteq> None"
  by (induction cs arbitrary: c) (auto split: option.splits)

lemma chain_cong:
  "\<forall>x \<in> set cs. cell m' x = cell m x \<Longrightarrow> chain m' p c cs = chain m p c cs"
  by (induction cs arbitrary: c) (auto split: option.splits)

lemma chain_unique: "chain m p c cs \<Longrightarrow> chain m p c cs' \<Longrightarrow> cs = cs'"
proof (induction cs arbitrary: c cs')
  case Nil
  then show ?case by (cases cs') auto
next
  case (Cons x xs)
  then show ?case by (cases cs') (auto split: option.splits)
qed

lemma chain_suffix:
  "chain m p c (ys @ x # zs) \<Longrightarrow> chain m p x (x # zs)"
proof (induction ys arbitrary: c)
  case Nil
  then show ?case by simp
next
  case (Cons y ys)
  from Cons.prems obtain l :: link where "chain m p (l_next l) (ys @ x # zs)"
    by (auto split: option.splits)
  then show ?case by (rule Cons.IH)
qed

lemma chain_distinct: "chain m p c cs \<Longrightarrow> distinct cs"
proof (induction cs arbitrary: c)
  case Nil
  then show ?case by simp
next
  case (Cons x xs)
  then obtain l where l: "cell m c = Some l" "chain m p (l_next l) xs" "x = c"
    by (auto split: option.splits)
  have "x \<notin> set xs"
  proof
    assume "x \<in> set xs"
    then obtain ys zs where xs: "xs = ys @ x # zs" by (auto simp add: in_set_conv_decomp)
    with l(2) have "chain m p x (x # zs)" using chain_suffix by blast
    moreover have "chain m p x (x # xs)" using Cons.prems l(3) by simp
    ultimately have "x # zs = x # xs" by (rule chain_unique)
    with xs show False by simp
  qed
  with Cons.IH[OF l(2)] show ?case by simp
qed

lemma cell_set_next:
  "cell (set_next m a v) b =
     (if b = a then map_option (\<lambda>l. l\<lparr>l_next := v\<rparr>) (cell m a) else cell m b)"
  by (auto simp add: set_next_def cell_def split: option.splits if_splits)

lemma length_set_next: "length (set_next m a v) = length m"
  by (simp add: set_next_def split: option.splits)

lemma sans_next_set_next: "sans_next (set_next m a v) = sans_next m"
proof (cases "cell m a")
  case None
  then show ?thesis by (simp add: set_next_def)
next
  case (Some l)
  then have a: "a < length m" "m ! a = Some l" by (auto simp add: cell_def split: if_splits)
  then show ?thesis using Some
    by (simp add: set_next_def sans_next_def map_update list_update_same_conv)
qed

lemma sans_next_relink_mem: "sans_next (relink_mem m cur cs) = sans_next m"
  by (induction cs arbitrary: m cur) (simp_all add: sans_next_set_next)

lemma cell_sans_next: "cell (sans_next m) a = map_option (\<lambda>l. l\<lparr>l_next := 0\<rparr>) (cell m a)"
  by (simp add: sans_next_def cell_def)

lemma sans_next_fields:
  assumes "sans_next m' = sans_next m"
  shows "map_option l_outer (cell m' a) = map_option l_outer (cell m a)"
    and "map_option l_node (cell m' a) = map_option l_node (cell m a)"
    and "cell m' a = None \<longleftrightarrow> cell m a = None"
proof -
  have e: "map_option (\<lambda>l. l\<lparr>l_next := 0\<rparr>) (cell m' a) = map_option (\<lambda>l. l\<lparr>l_next := 0\<rparr>) (cell m a)"
    using assms cell_sans_next[of m' a] cell_sans_next[of m a] by simp
  from arg_cong[OF e, of "map_option l_outer"]
  show "map_option l_outer (cell m' a) = map_option l_outer (cell m a)"
    by (simp add: option.map_comp comp_def)
  from arg_cong[OF e, of "map_option l_node"]
  show "map_option l_node (cell m' a) = map_option l_node (cell m a)"
    by (simp add: option.map_comp comp_def)
  from e show "cell m' a = None \<longleftrightarrow> cell m a = None" by (cases "cell m' a"; cases "cell m a") auto
qed

lemma relink_mem_frame:
  "a \<notin> set (cur # ns) \<Longrightarrow> cell (set_next (relink_mem m cur ns) (last (cur # ns)) p) a = cell m a"
proof (induction ns arbitrary: m cur)
  case Nil
  then show ?case by (simp add: cell_set_next)
next
  case (Cons c cs)
  from Cons.prems have "a \<notin> set (c # cs)" "a \<noteq> cur" by auto
  from Cons.IH[OF this(1), of "set_next m cur c"] this(2) show ?case
    by (simp add: cell_set_next)
qed

lemma relink_mem_chain:
  assumes "distinct (cur # ns)" and "p \<notin> set ns" and "\<forall>x \<in> set (cur # ns). cell m x \<noteq> None"
  shows "\<exists>l. cell (set_next (relink_mem m cur ns) (last (cur # ns)) p) cur = Some l
           \<and> chain (set_next (relink_mem m cur ns) (last (cur # ns)) p) p (l_next l) ns"
  using assms
proof (induction ns arbitrary: m cur)
  case Nil
  then show ?case by (auto simp add: cell_set_next)
next
  case (Cons c cs)
  let ?m1 = "set_next m cur c"
  let ?m' = "set_next (relink_mem ?m1 c cs) (last (c # cs)) p"
  have d: "distinct (c # cs)" "p \<notin> set cs" "c \<noteq> p" "cur \<notin> set (c # cs)"
    using Cons.prems by auto
  have live: "\<forall>x \<in> set (c # cs). cell ?m1 x \<noteq> None"
    using Cons.prems(3) by (auto simp add: cell_set_next)
  from Cons.IH[OF d(1) d(2) live] obtain l where
    l: "cell ?m' c = Some l" "chain ?m' p (l_next l) cs" by blast
  obtain lc where lc: "cell m cur = Some lc" using Cons.prems(3) by auto
  have "cell ?m' cur = cell ?m1 cur" using relink_mem_frame[OF d(4)] by simp
  then have cur: "cell ?m' cur = Some (lc\<lparr>l_next := c\<rparr>)" using lc by (simp add: cell_set_next)
  have "chain ?m' p c (c # cs)" using l d(3) by simp
  with cur show ?case by simp
qed

lemma relink_run:
  "\<forall>x \<in> set (cur # ns). cell (link_mem w) x \<noteq> None \<Longrightarrow>
   relink ns cur w = (Returns (last (cur # ns)), w\<lparr>link_mem := relink_mem (link_mem w) cur ns\<rparr>)"
proof (induction ns arbitrary: cur w)
  case Nil
  then show ?case by (simp add: ret_def)
next
  case (Cons c cs)
  obtain lc where lc: "cell (link_mem w) cur = Some lc" using Cons.prems by auto
  let ?w1 = "w\<lparr>link_mem := set_next (link_mem w) cur c\<rparr>"
  have s: "link_reset_next cur c w = (Returns (), ?w1)"
    using lc by (simp add: link_reset_next_def link_update_def ret_def set_next_def)
  have "\<forall>x \<in> set (c # cs). cell (link_mem ?w1) x \<noteq> None"
    using Cons.prems by (auto simp add: cell_set_next)
  from Cons.IH[OF this] s show ?case by (simp add: bind_def)
qed

subsection \<open>What a change of next references leaves alone\<close>

lemma node_ring_chain:
  "cell (node_mem w) n = Some nd \<Longrightarrow> cell (link_mem w) (n_link nd) = Some lp \<Longrightarrow>
   chain (link_mem w) (n_link nd) (l_next lp) cs \<Longrightarrow> node_ring w n = Some cs"
  using chain_ring_others[of "link_mem w" "n_link nd" "l_next lp" cs "[]"]
  by (simp add: node_ring_def)

lemma node_ring_Some:
  assumes "node_ring w n = Some cs" and "cell (node_mem w) n = Some nd"
  shows "\<exists>lp. cell (link_mem w) (n_link nd) = Some lp \<and> chain (link_mem w) (n_link nd) (l_next lp) cs"
proof -
  from assms obtain lp where lp: "cell (link_mem w) (n_link nd) = Some lp"
    and r: "ring_others (link_mem w) (n_link nd) (l_next lp) [] = Some (Inr cs)"
    by (auto simp add: node_ring_def split: option.splits sum.splits)
  from ring_others_chain[OF r] lp show ?thesis by simp
qed

lemma node_ring_frame:
  assumes nd: "cell (node_mem w) n = Some nd" and r: "node_ring w n = Some cs"
    and nm: "node_mem w1 = node_mem w"
    and same: "\<forall>l \<in> set (n_link nd # cs). cell (link_mem w1) l = cell (link_mem w) l"
  shows "node_ring w1 n = Some cs"
proof -
  from node_ring_Some[OF r nd] obtain lp where lp: "cell (link_mem w) (n_link nd) = Some lp"
    and ch: "chain (link_mem w) (n_link nd) (l_next lp) cs" by blast
  have c1: "chain (link_mem w1) (n_link nd) (l_next lp) cs"
    using chain_cong[of cs "link_mem w1" "link_mem w" "n_link nd" "l_next lp"] same ch by simp
  have l1: "cell (link_mem w1) (n_link nd) = Some lp" using same lp by simp
  have n1: "cell (node_mem w1) n = Some nd" using nd nm by simp
  show ?thesis by (rule node_ring_chain[OF n1 l1 c1])
qed

lemma outer_size_frame:
  assumes nm: "node_mem w1 = node_mem w"
    and sn: "sans_next (link_mem w1) = sans_next (link_mem w)"
  shows "outer_size sz w1 l = outer_size sz w l"
proof (cases "cell (link_mem w) l")
  case None
  then have "cell (link_mem w1) l = None" using sans_next_fields(3)[OF sn, of l] by simp
  with None show ?thesis by (simp add: outer_size_def)
next
  case (Some lk)
  then obtain lk1 where lk1: "cell (link_mem w1) l = Some lk1"
    using sans_next_fields(3)[OF sn, of l] by (cases "cell (link_mem w1) l") auto
  have o: "l_outer lk1 = l_outer lk" using sans_next_fields(1)[OF sn, of l] Some lk1 by simp
  show ?thesis
  proof (cases "cell (link_mem w) (l_outer lk)")
    case None
    then have "cell (link_mem w1) (l_outer lk) = None"
      using sans_next_fields(3)[OF sn, of "l_outer lk"] by simp
    with None Some lk1 o show ?thesis by (simp add: outer_size_def)
  next
    case (Some lo)
    then obtain lo1 where lo1: "cell (link_mem w1) (l_outer lk) = Some lo1"
      using sans_next_fields(3)[OF sn, of "l_outer lk"]
      by (cases "cell (link_mem w1) (l_outer lk)") auto
    have "l_node lo1 = l_node lo"
      using sans_next_fields(2)[OF sn, of "l_outer lk"] Some lo1 by simp
    with Some lo1 \<open>cell (link_mem w) l = Some lk\<close> lk1 o nm show ?thesis
      by (simp add: outer_size_def)
  qed
qed

lemma child_sizes_run:
  "\<forall>l \<in> set cs. outer_size sz w l \<noteq> None \<Longrightarrow>
   child_sizes sz cs w = (Returns (map (the \<circ> outer_size sz w) cs), w)"
proof (induction cs)
  case Nil
  then show ?case by (simp add: ret_def)
next
  case (Cons c cs)
  then have c: "outer_size sz w c \<noteq> None" and r: "child_sizes sz cs w = (Returns (map (the \<circ> outer_size sz w) cs), w)"
    by simp_all
  from c r show ?case
    by (auto simp add: outer_size_def exec_defs split: option.splits if_splits)
qed

subsection \<open>Ladderizing one node\<close>

lemma reorder_props:
  fixes cs :: "addr list" and ks :: "nat list"
  assumes len: "length ks = length cs"
  shows "set (map (\<lambda>i. cs ! i) (child_order ord ks)) = set cs"
    and "distinct cs \<Longrightarrow> distinct (map (\<lambda>i. cs ! i) (child_order ord ks))"
proof -
  have s: "set (child_order ord ks) = {0 ..< length cs}" using child_order_props(1)[of ord ks] len by simp
  have "set (map (\<lambda>i. cs ! i) (child_order ord ks)) = (\<lambda>i. cs ! i) ` {0 ..< length cs}"
    unfolding set_map s ..
  also have "\<dots> = set cs" by (auto simp add: in_set_conv_nth)
  finally show "set (map (\<lambda>i. cs ! i) (child_order ord ks)) = set cs" .
  assume d: "distinct cs"
  have "inj_on (\<lambda>i. cs ! i) {0 ..< length cs}"
    using d by (auto simp add: inj_on_def nth_eq_iff_index_eq)
  then show "distinct (map (\<lambda>i. cs ! i) (child_order ord ks))"
    using s child_order_props(2)[of ord ks] by (simp add: distinct_map)
qed

lemma reorder_sorted:
  fixes cs :: "addr list" and ks :: "nat list"
  assumes len: "length ks = length cs"
    and key: "\<And>i. i < length cs \<Longrightarrow> k (cs ! i) = Some (ks ! i)"
  shows "sorted_wrt (\<lambda>a b. in_order ord (k a) (k b)) (map (\<lambda>i. cs ! i) (child_order ord ks))"
proof -
  have s: "set (child_order ord ks) = {0 ..< length cs}" using child_order_props(1)[of ord ks] len by simp
  have "sorted_wrt (\<lambda>i j. if ord = kSmallFirst then ks ! i \<le> ks ! j else ks ! j \<le> ks ! i) (child_order ord ks)"
    using child_order_props(4)[of ord ks] by simp
  then have "sorted_wrt (\<lambda>i j. in_order ord (k (cs ! i)) (k (cs ! j))) (child_order ord ks)"
  proof (rule sorted_wrt_mono_rel[rotated])
    fix i j assume "i \<in> set (child_order ord ks)" "j \<in> set (child_order ord ks)"
      and le: "if ord = kSmallFirst then ks ! i \<le> ks ! j else ks ! j \<le> ks ! i"
    then have "i < length cs" "j < length cs" using s by auto
    then show "in_order ord (k (cs ! i)) (k (cs ! j))" using le key by (simp add: in_order_def)
  qed
  then show ?thesis by (simp add: sorted_wrt_map)
qed

lemma reorder_stable:
  fixes cs :: "addr list" and ks :: "nat list"
  assumes len: "length ks = length cs"
    and key: "\<And>i. i < length cs \<Longrightarrow> k (cs ! i) = Some (ks ! i)"
  shows "filter (\<lambda>l. k l = Some s) (map (\<lambda>i. cs ! i) (child_order ord ks)) = filter (\<lambda>l. k l = Some s) cs"
proof -
  have s: "set (child_order ord ks) = {0 ..< length cs}" using child_order_props(1)[of ord ks] len by simp
  have "filter (\<lambda>l. k l = Some s) (map (\<lambda>i. cs ! i) (child_order ord ks))
        = map (\<lambda>i. cs ! i) (filter (\<lambda>i. k (cs ! i) = Some s) (child_order ord ks))"
    by (simp add: filter_map comp_def)
  also have "filter (\<lambda>i. k (cs ! i) = Some s) (child_order ord ks) = filter (\<lambda>i. ks ! i = s) (child_order ord ks)"
    by (rule filter_cong) (use s key in auto)
  also have "\<dots> = filter (\<lambda>i. ks ! i = s) [0 ..< length ks]"
    by (rule child_order_props(5))
  also have "\<dots> = filter (\<lambda>i. k (cs ! i) = Some s) [0 ..< length cs]"
    unfolding len by (rule filter_cong) (use key in auto)
  also have "map (\<lambda>i. cs ! i) \<dots> = filter (\<lambda>l. k l = Some s) (map (\<lambda>i. cs ! i) [0 ..< length cs])"
    by (simp add: filter_map comp_def)
  also have "\<dots> = filter (\<lambda>l. k l = Some s) cs" by (simp add: map_nth)
  finally show ?thesis .
qed

lemma link_reset_next_run:
  "cell (link_mem w) a \<noteq> None \<Longrightarrow>
   link_reset_next a v w = (Returns (), w\<lparr>link_mem := set_next (link_mem w) a v\<rparr>)"
  by (auto simp add: link_reset_next_def link_update_def ret_def set_next_def)

lemma child_order_Nil: "child_order ord [] = []"
  by (simp add: child_order_def stable_sort_indices_def)

lemma ladderize_node_run:
  assumes nd: "cell (node_mem w) n = Some nd" and ring: "node_ring w n = Some cs"
    and sizes: "\<forall>l \<in> set cs. outer_size sz w l \<noteq> None"
  shows "\<exists>m'. ladderize_node ord sz n w = (Returns (), w\<lparr>link_mem := m'\<rparr>)
           \<and> sans_next m' = sans_next (link_mem w)
           \<and> (\<forall>a. a \<notin> set (n_link nd # cs) \<longrightarrow> cell m' a = cell (link_mem w) a)
           \<and> (\<exists>lp. cell m' (n_link nd) = Some lp
                \<and> chain m' (n_link nd) (l_next lp)
                     (map (\<lambda>i. cs ! i) (child_order ord (map (the \<circ> outer_size sz w) cs))))"
proof -
  let ?m = "link_mem w" and ?p = "n_link nd"
  let ?ks = "map (the \<circ> outer_size sz w) cs"
  let ?ns = "map (\<lambda>i. cs ! i) (child_order ord ?ks)"
  from node_ring_Some[OF ring nd] obtain lp where lp: "cell ?m ?p = Some lp"
    and ch: "chain ?m ?p (l_next lp) cs" by blast
  show ?thesis
  proof (cases cs)
    case Nil
    then have "l_next lp = ?p" using ch by simp
    then have "ladderize_node ord sz n w = (Returns (), w\<lparr>link_mem := ?m\<rparr>)"
      using nd lp by (simp add: ladderize_node_def is_leaf_def exec_defs)
    moreover have "chain ?m ?p (l_next lp) ?ns" using ch Nil by (simp add: child_order_Nil)
    ultimately show ?thesis using lp by blast
  next
    case (Cons c cs')
    then have ne: "l_next lp \<noteq> ?p" using ch by auto
    have leaf: "is_leaf n w = (Returns False, w)"
      using nd lp ne by (simp add: is_leaf_def exec_defs)
    have prim: "\<And>w'. node_mem w' = node_mem w \<Longrightarrow> node_primary_link n w' = (Returns ?p, w')"
      using nd by (simp add: exec_defs)
    have la: "links_after ?p w = (Returns cs, w)"
      using lp chain_ring_others[OF ch, of "[]"] by (simp add: links_after_def exec_defs lift_loop_def)
    have cz: "child_sizes sz cs w = (Returns ?ks, w)" by (rule child_sizes_run[OF sizes])
    have setns: "set ?ns = set cs" by (rule reorder_props(1)) simp
    have dns: "distinct ?ns" by (rule reorder_props(2)) (simp_all add: chain_distinct[OF ch])
    have pns: "?p \<notin> set ?ns" using setns chain_notin[OF ch] by simp
    have live: "\<forall>x \<in> set (?p # ?ns). cell ?m x \<noteq> None"
      using lp setns chain_live[OF ch] by auto
    let ?w2 = "w\<lparr>link_mem := relink_mem ?m ?p ?ns\<rparr>"
    define lst where "lst = last (?p # ?ns)"
    have rl: "relink ?ns ?p w = (Returns lst, ?w2)" unfolding lst_def by (rule relink_run[OF live])
    have "lst \<in> set (?p # ?ns)" unfolding lst_def by (rule last_in_set) simp
    then have "cell ?m lst \<noteq> None" using live by blast
    then have "cell (link_mem ?w2) lst \<noteq> None"
      using sans_next_fields(3)[OF sans_next_relink_mem, of ?m ?p ?ns lst] by simp
    from link_reset_next_run[OF this, of ?p]
    have cl: "link_reset_next lst ?p ?w2
              = (Returns (), w\<lparr>link_mem := set_next (relink_mem ?m ?p ?ns) lst ?p\<rparr>)"
      by simp
    let ?m' = "set_next (relink_mem ?m ?p ?ns) (last (?p # ?ns)) ?p"
    have "ladderize_node ord sz n w = (Returns (), w\<lparr>link_mem := set_next (relink_mem ?m ?p ?ns) lst ?p\<rparr>)"
      unfolding ladderize_node_def
      by (simp add: bind_def leaf prim la cz rl cl)
    then have run: "ladderize_node ord sz n w = (Returns (), w\<lparr>link_mem := ?m'\<rparr>)"
      unfolding lst_def .
    have sn: "sans_next ?m' = sans_next ?m" by (simp add: sans_next_set_next sans_next_relink_mem)
    have fr: "\<forall>a. a \<notin> set (?p # cs) \<longrightarrow> cell ?m' a = cell ?m a"
    proof (intro allI impI)
      fix a assume "a \<notin> set (?p # cs)"
      then have "a \<notin> set (?p # ?ns)" using setns by simp
      then show "cell ?m' a = cell ?m a" by (rule relink_mem_frame)
    qed
    have "distinct (?p # ?ns)" using dns pns by simp
    from relink_mem_chain[OF this pns live]
    have "\<exists>l. cell ?m' ?p = Some l \<and> chain ?m' ?p (l_next l) ?ns" .
    with run sn fr show ?thesis by blast
  qed
qed

subsection \<open>Ladderizing every node\<close>

lemma ring_okD:
  assumes "ring_ok sz w n"
  shows "\<exists>nd cs. cell (node_mem w) n = Some nd \<and> node_ring w n = Some cs
    \<and> (\<forall>l \<in> set (n_link nd # cs). map_option l_node (cell (link_mem w) l) = Some n)
    \<and> (\<forall>l \<in> set cs. outer_size sz w l \<noteq> None)"
  using assms by (auto simp add: ring_ok_def split: option.splits)

lemma rings_disjoint:
  assumes a: "ring_ok sz w n" and b: "ring_ok sz w n'" and ne: "n \<noteq> n'"
    and nd: "cell (node_mem w) n = Some nd" and cs: "node_ring w n = Some cs"
    and nd': "cell (node_mem w) n' = Some nd'" and cs': "node_ring w n' = Some cs'"
    and l: "l \<in> set (n_link nd # cs)"
  shows "l \<notin> set (n_link nd' # cs')"
proof
  assume l': "l \<in> set (n_link nd' # cs')"
  from a nd cs l have "map_option l_node (cell (link_mem w) l) = Some n"
    by (auto simp add: ring_ok_def)
  moreover from b nd' cs' l' have "map_option l_node (cell (link_mem w) l) = Some n'"
    by (auto simp add: ring_ok_def)
  ultimately show False using ne by simp
qed

lemma ring_ok_frame:
  assumes ok: "ring_ok sz w n"
    and nm: "node_mem w1 = node_mem w"
    and sn: "sans_next (link_mem w1) = sans_next (link_mem w)"
    and same: "\<forall>nd cs l. cell (node_mem w) n = Some nd \<longrightarrow> node_ring w n = Some cs \<longrightarrow>
                 l \<in> set (n_link nd # cs) \<longrightarrow> cell (link_mem w1) l = cell (link_mem w) l"
  shows "ring_ok sz w1 n" and "node_ring w1 n = node_ring w n"
proof -
  from ring_okD[OF ok] obtain nd cs where nd: "cell (node_mem w) n = Some nd" and cs: "node_ring w n = Some cs"
    and own: "\<forall>l \<in> set (n_link nd # cs). map_option l_node (cell (link_mem w) l) = Some n"
    and sizes: "\<forall>l \<in> set cs. outer_size sz w l \<noteq> None"
    by blast
  have s: "\<forall>l \<in> set (n_link nd # cs). cell (link_mem w1) l = cell (link_mem w) l"
    using same nd cs by blast
  have r1: "node_ring w1 n = Some cs" by (rule node_ring_frame[OF nd cs nm s])
  then show "node_ring w1 n = node_ring w n" using cs by simp
  have "cell (node_mem w1) n = Some nd" using nd nm by simp
  moreover have "\<forall>l \<in> set (n_link nd # cs). map_option l_node (cell (link_mem w1) l) = Some n"
    using own s by simp
  moreover have "\<forall>l \<in> set cs. outer_size sz w1 l \<noteq> None"
    using sizes outer_size_frame[OF nm sn, of sz] by simp
  ultimately show "ring_ok sz w1 n" using r1 by (simp add: ring_ok_def)
qed

lemma ladderize_loop:
  assumes "distinct ns" and "\<forall>n \<in> set ns. ring_ok sz w n"
  shows "\<exists>m'. for_each ns (ladderize_node ord sz) w = (Returns (), w\<lparr>link_mem := m'\<rparr>)
           \<and> sans_next m' = sans_next (link_mem w)
           \<and> (\<forall>a. (\<forall>n \<in> set ns. \<forall>nd cs. cell (node_mem w) n = Some nd \<longrightarrow> node_ring w n = Some cs
                        \<longrightarrow> a \<notin> set (n_link nd # cs))
                 \<longrightarrow> cell m' a = cell (link_mem w) a)
           \<and> (\<forall>n \<in> set ns. \<exists>cs. node_ring w n = Some cs
                 \<and> node_ring (w\<lparr>link_mem := m'\<rparr>) n
                    = Some (map (\<lambda>i. cs ! i) (child_order ord (map (the \<circ> outer_size sz w) cs))))"
  using assms
proof (induction ns arbitrary: w)
  case Nil
  have "for_each [] (ladderize_node ord sz) w = (Returns (), w\<lparr>link_mem := link_mem w\<rparr>)"
    by (simp add: ret_def)
  then show ?case by (intro exI[of _ "link_mem w"]) simp
next
  case (Cons n rest)
  let ?m = "link_mem w"
  have okn: "ring_ok sz w n" and okrest: "\<forall>n' \<in> set rest. ring_ok sz w n'"
    and nrest: "n \<notin> set rest" and drest: "distinct rest"
    using Cons.prems by simp_all
  from ring_okD[OF okn] obtain nd cs where nd: "cell (node_mem w) n = Some nd" and cs: "node_ring w n = Some cs"
    and sizes: "\<forall>l \<in> set cs. outer_size sz w l \<noteq> None"
    by blast
  let ?ns1 = "map (\<lambda>i. cs ! i) (child_order ord (map (the \<circ> outer_size sz w) cs))"
  from ladderize_node_run[OF nd cs sizes, of ord] obtain m1 lp where
    run1: "ladderize_node ord sz n w = (Returns (), w\<lparr>link_mem := m1\<rparr>)"
    and sn1: "sans_next m1 = sans_next ?m"
    and fr1: "\<forall>a. a \<notin> set (n_link nd # cs) \<longrightarrow> cell m1 a = cell ?m a"
    and lp1: "cell m1 (n_link nd) = Some lp"
    and ch1: "chain m1 (n_link nd) (l_next lp) ?ns1"
    by blast
  let ?w1 = "w\<lparr>link_mem := m1\<rparr>"
  have nm1: "node_mem ?w1 = node_mem w" by simp
  have sn1': "sans_next (link_mem ?w1) = sans_next (link_mem w)" using sn1 by simp
  have os: "\<And>l. outer_size sz ?w1 l = outer_size sz w l"
    by (rule outer_size_frame[OF nm1 sn1'])
  have keep: "ring_ok sz ?w1 n' \<and> node_ring ?w1 n' = node_ring w n'" if n': "n' \<in> set rest" for n'
  proof -
    have ok': "ring_ok sz w n'" using okrest n' by simp
    have ne: "n' \<noteq> n" using n' nrest by auto
    have same: "\<forall>nd' cs' l. cell (node_mem w) n' = Some nd' \<longrightarrow> node_ring w n' = Some cs' \<longrightarrow>
                 l \<in> set (n_link nd' # cs') \<longrightarrow> cell (link_mem ?w1) l = cell (link_mem w) l"
    proof (intro allI impI)
      fix nd' cs' l
      assume t: "cell (node_mem w) n' = Some nd'" "node_ring w n' = Some cs'" "l \<in> set (n_link nd' # cs')"
      have "l \<notin> set (n_link nd # cs)"
        by (rule rings_disjoint[OF ok' okn ne t(1) t(2) nd cs t(3)])
      then show "cell (link_mem ?w1) l = cell (link_mem w) l" using fr1 by simp
    qed
    from ring_ok_frame[OF ok' nm1 sn1' same] show ?thesis by blast
  qed
  then have okrest1: "\<forall>n' \<in> set rest. ring_ok sz ?w1 n'" by blast
  from Cons.IH[OF drest okrest1] obtain m' where
    run: "for_each rest (ladderize_node ord sz) ?w1 = (Returns (), ?w1\<lparr>link_mem := m'\<rparr>)"
    and sn: "sans_next m' = sans_next (link_mem ?w1)"
    and fr: "\<forall>a. (\<forall>n \<in> set rest. \<forall>nd cs. cell (node_mem ?w1) n = Some nd \<longrightarrow> node_ring ?w1 n = Some cs
                        \<longrightarrow> a \<notin> set (n_link nd # cs))
                 \<longrightarrow> cell m' a = cell (link_mem ?w1) a"
    and res: "\<forall>n \<in> set rest. \<exists>cs. node_ring ?w1 n = Some cs
                 \<and> node_ring (?w1\<lparr>link_mem := m'\<rparr>) n
                    = Some (map (\<lambda>i. cs ! i) (child_order ord (map (the \<circ> outer_size sz ?w1) cs)))"
    by blast
  have w': "?w1\<lparr>link_mem := m'\<rparr> = w\<lparr>link_mem := m'\<rparr>" by simp
  have A: "for_each (n # rest) (ladderize_node ord sz) w = (Returns (), w\<lparr>link_mem := m'\<rparr>)"
    using run1 run w' by (simp add: bind_def)
  have B: "sans_next m' = sans_next ?m" using sn sn1 by simp
  have C: "\<forall>a. (\<forall>n \<in> set (n # rest). \<forall>nd cs. cell (node_mem w) n = Some nd \<longrightarrow> node_ring w n = Some cs
                        \<longrightarrow> a \<notin> set (n_link nd # cs))
                 \<longrightarrow> cell m' a = cell ?m a"
  proof (intro allI impI)
    fix a
    assume out: "\<forall>n \<in> set (n # rest). \<forall>nd cs. cell (node_mem w) n = Some nd \<longrightarrow> node_ring w n = Some cs
                        \<longrightarrow> a \<notin> set (n_link nd # cs)"
    then have "a \<notin> set (n_link nd # cs)" using nd cs by simp
    then have 1: "cell m1 a = cell ?m a" using fr1 by simp
    have "\<forall>n \<in> set rest. \<forall>nd cs. cell (node_mem ?w1) n = Some nd \<longrightarrow> node_ring ?w1 n = Some cs
                        \<longrightarrow> a \<notin> set (n_link nd # cs)"
      using out keep by simp
    then have "cell m' a = cell (link_mem ?w1) a" using fr by blast
    with 1 show "cell m' a = cell ?m a" by simp
  qed
  have os_fun: "outer_size sz ?w1 = outer_size sz w" using os by (intro ext)
  have D: "\<forall>x \<in> set (n # rest). \<exists>cs. node_ring w x = Some cs
                 \<and> node_ring (w\<lparr>link_mem := m'\<rparr>) x
                    = Some (map (\<lambda>i. cs ! i) (child_order ord (map (the \<circ> outer_size sz w) cs)))"
  proof
    fix x assume x: "x \<in> set (n # rest)"
    show "\<exists>cs. node_ring w x = Some cs
                 \<and> node_ring (w\<lparr>link_mem := m'\<rparr>) x
                    = Some (map (\<lambda>i. cs ! i) (child_order ord (map (the \<circ> outer_size sz w) cs)))"
    proof (cases "x = n")
      case True
      have r1: "node_ring ?w1 n = Some ?ns1"
        by (rule node_ring_chain[of ?w1 n nd lp]) (use nd lp1 ch1 in simp_all)
      have setns: "set ?ns1 = set cs" by (rule reorder_props(1)) simp
      have same: "\<forall>l \<in> set (n_link nd # ?ns1). cell (link_mem (w\<lparr>link_mem := m'\<rparr>)) l = cell (link_mem ?w1) l"
      proof
        fix l assume "l \<in> set (n_link nd # ?ns1)"
        then have l: "l \<in> set (n_link nd # cs)" using setns by simp
        have "\<forall>n' \<in> set rest. \<forall>nd' cs'. cell (node_mem ?w1) n' = Some nd' \<longrightarrow> node_ring ?w1 n' = Some cs'
                        \<longrightarrow> l \<notin> set (n_link nd' # cs')"
        proof (intro ballI allI impI)
          fix n' nd' cs'
          assume n': "n' \<in> set rest" and a: "cell (node_mem ?w1) n' = Some nd'"
            and b: "node_ring ?w1 n' = Some cs'"
          have ne: "n \<noteq> n'" using n' nrest by auto
          have a': "cell (node_mem w) n' = Some nd'" using a by simp
          have b': "node_ring w n' = Some cs'" using b keep[OF n'] by simp
          have ok': "ring_ok sz w n'" using okrest n' by simp
          show "l \<notin> set (n_link nd' # cs')"
            by (rule rings_disjoint[OF okn ok' ne nd cs a' b' l])
        qed
        then have "cell m' l = cell (link_mem ?w1) l" using fr by blast
        then show "cell (link_mem (w\<lparr>link_mem := m'\<rparr>)) l = cell (link_mem ?w1) l" by simp
      qed
      have nd1: "cell (node_mem ?w1) n = Some nd" using nd by simp
      have "node_ring (w\<lparr>link_mem := m'\<rparr>) n = Some ?ns1"
        by (rule node_ring_frame[OF nd1 r1 _ same]) simp
      with cs True show ?thesis by simp
    next
      case False
      then have xr: "x \<in> set rest" using x by simp
      from res xr obtain cs' where "node_ring ?w1 x = Some cs'"
        and "node_ring (?w1\<lparr>link_mem := m'\<rparr>) x
               = Some (map (\<lambda>i. cs' ! i) (child_order ord (map (the \<circ> outer_size sz ?w1) cs')))"
        by blast
      then show ?thesis using keep[OF xr] os_fun w' by simp
    qed
  qed
  from A B C D show ?case by blast
qed

text \<open>
  C6, amended. Take a tree whose node collection holds no node twice and in which every
  node has a ring as ladderize needs it (\<open>rings_ok\<close>, for the size vector that
  \<open>subtree_sizes\<close> gives). Then \<open>ladderize\<close> returns, in either order, and afterwards, at
  every node, the ring links other than the primary link, read in ring order starting
  after the primary link, are the same links as before, and the sizes of the nodes at
  their outer ends are non-decreasing for \<open>kSmallFirst\<close> and non-increasing for
  \<open>kLargeFirst\<close>. Links whose outer ends have the same size keep the order they had
  before: for every size, the links of that size are the same list before and after. At a
  leaf the list of other links is empty. The link left out is the primary link at every
  node: the link that faces the root at a node other than the root, and at the root node
  the link to one of its children, which keeps its place in front of the sorted ones.
\<close>

theorem ladderize_orders_every_ring:
  assumes wz: "rings_ok (subtree_sizes w) w"
  shows "\<exists>w'. ladderize subtree_sizes ord w = (Returns (), w')
           \<and> (\<forall>n \<in> set (nodes w). \<exists>cs cs'.
                 node_ring w n = Some cs \<and> node_ring w' n = Some cs'
                 \<and> sorted_wrt (\<lambda>a b. in_order ord (outer_size (subtree_sizes w) w' a)
                                                 (outer_size (subtree_sizes w) w' b)) cs'
                 \<and> (\<forall>s. filter (\<lambda>l. outer_size (subtree_sizes w) w' l = Some s) cs'
                        = filter (\<lambda>l. outer_size (subtree_sizes w) w l = Some s) cs))"
proof -
  define sz where "sz = subtree_sizes w"
  from wz have d: "distinct (nodes w)"
    and ok: "\<forall>n \<in> set (nodes w). ring_ok (subtree_sizes w) w n"
    by (simp_all add: rings_ok_def)
  from ladderize_loop[OF d ok, of ord] obtain m' where
    run: "for_each (nodes w) (ladderize_node ord sz) w = (Returns (), w\<lparr>link_mem := m'\<rparr>)"
    and sn: "sans_next m' = sans_next (link_mem w)"
    and res: "\<forall>n \<in> set (nodes w). \<exists>cs. node_ring w n = Some cs
                 \<and> node_ring (w\<lparr>link_mem := m'\<rparr>) n
                    = Some (map (\<lambda>i. cs ! i) (child_order ord (map (the \<circ> outer_size sz w) cs)))"
    unfolding sz_def by blast
  let ?w' = "w\<lparr>link_mem := m'\<rparr>"
  have lad: "ladderize subtree_sizes ord w = (Returns (), ?w')"
    using run by (simp add: ladderize_def sz_def)
  have os: "\<And>l. outer_size sz ?w' l = outer_size sz w l"
    by (rule outer_size_frame) (simp_all add: sn)
  have rings: "\<forall>n \<in> set (nodes w). \<exists>cs cs'.
                 node_ring w n = Some cs \<and> node_ring ?w' n = Some cs'
                 \<and> sorted_wrt (\<lambda>a b. in_order ord (outer_size sz ?w' a) (outer_size sz ?w' b)) cs'
                 \<and> (\<forall>s. filter (\<lambda>l. outer_size sz ?w' l = Some s) cs'
                        = filter (\<lambda>l. outer_size sz w l = Some s) cs)"
  proof
    fix n assume n: "n \<in> set (nodes w)"
    from res n obtain cs where cs: "node_ring w n = Some cs"
      and cs': "node_ring ?w' n
                  = Some (map (\<lambda>i. cs ! i) (child_order ord (map (the \<circ> outer_size sz w) cs)))"
      by blast
    let ?ks = "map (the \<circ> outer_size sz w) cs"
    have "ring_ok sz w n" using ok n by (simp add: sz_def)
    then have sizes: "\<forall>l \<in> set cs. outer_size sz w l \<noteq> None"
      using cs by (auto simp add: ring_ok_def split: option.splits)
    have len: "length ?ks = length cs" by simp
    have key: "\<And>i. i < length cs \<Longrightarrow> outer_size sz w (cs ! i) = Some (?ks ! i)"
      using sizes by auto
    have "sorted_wrt (\<lambda>a b. in_order ord (outer_size sz w a) (outer_size sz w b))
            (map (\<lambda>i. cs ! i) (child_order ord ?ks))"
      by (rule reorder_sorted[OF len key])
    moreover have "\<forall>s. filter (\<lambda>l. outer_size sz w l = Some s) (map (\<lambda>i. cs ! i) (child_order ord ?ks))
                       = filter (\<lambda>l. outer_size sz w l = Some s) cs"
      using reorder_stable[OF len key] by blast
    ultimately show "\<exists>cs cs'.
                 node_ring w n = Some cs \<and> node_ring ?w' n = Some cs'
                 \<and> sorted_wrt (\<lambda>a b. in_order ord (outer_size sz ?w' a) (outer_size sz ?w' b)) cs'
                 \<and> (\<forall>s. filter (\<lambda>l. outer_size sz ?w' l = Some s) cs'
                        = filter (\<lambda>l. outer_size sz w l = Some s) cs)"
      using cs cs' os by simp
  qed
  from lad rings show ?thesis unfolding sz_def by blast
qed

theorem ladderize_orders_every_ring_witness:
  "rings_ok [5, 2, 0, 0, 0, 0] tree6_at2
   \<and> node_ring tree6_at2 0 = Some [0, 1]
   \<and> map (outer_size [5, 2, 0, 0, 0, 0] tree6_at2) [0, 1] = [Some 2, Some 0]
   \<and> node_ring (snd (ladderize (\<lambda>_. [5, 2, 0, 0, 0, 0]) kSmallFirst tree6_at2)) 0 = Some [1, 0]
   \<and> node_ring (snd (ladderize (\<lambda>_. [5, 2, 0, 0, 0, 0]) kLargeFirst tree6_at2)) 0 = Some [0, 1]
   \<and> (\<exists>w'. ladderize (\<lambda>_. [5, 2, 0, 0, 0, 0]) kSmallFirst tree6_at2 = (Returns (), w')
        \<and> (\<forall>n \<in> set (nodes tree6_at2). \<exists>cs cs'.
              node_ring tree6_at2 n = Some cs \<and> node_ring w' n = Some cs'
              \<and> sorted_wrt (\<lambda>a b. in_order kSmallFirst (outer_size [5, 2, 0, 0, 0, 0] w' a)
                                                     (outer_size [5, 2, 0, 0, 0, 0] w' b)) cs'
              \<and> (\<forall>s. filter (\<lambda>l. outer_size [5, 2, 0, 0, 0, 0] w' l = Some s) cs'
                     = filter (\<lambda>l. outer_size [5, 2, 0, 0, 0, 0] tree6_at2 l = Some s) cs)))"
proof -
  have ok: "rings_ok ((\<lambda>_. [5, 2, 0, 0, 0, 0]) tree6_at2) tree6_at2"
    by code_simp
  have a: "node_ring tree6_at2 0 = Some [0, 1]" by code_simp
  have b: "map (outer_size [5, 2, 0, 0, 0, 0] tree6_at2) [0, 1] = [Some 2, Some 0]" by code_simp
  have c: "node_ring (snd (ladderize (\<lambda>_. [5, 2, 0, 0, 0, 0]) kSmallFirst tree6_at2)) 0 = Some [1, 0]"
    by code_simp
  have e: "node_ring (snd (ladderize (\<lambda>_. [5, 2, 0, 0, 0, 0]) kLargeFirst tree6_at2)) 0 = Some [0, 1]"
    by code_simp
  from ladderize_orders_every_ring[OF ok, of kSmallFirst] ok a b c e show ?thesis
    by simp
qed

text \<open>
  C6 as stated, at \<open>tree7\<close> with the numbers of descendants as sizes (6 for the root R,
  1 for X, 0 for Y, 2 for Z and 0 for the leaves P, Q and S). R is the root node and not a
  leaf, so none of its three links faces the root. \<open>ladderize\<close> with \<open>kSmallFirst\<close>
  returns and leaves the ring of R as it was, links 0, 1 and 2 in this order; the nodes at
  their outer ends are X, Y and Z, with sizes 1, 0 and 2. These are not non-decreasing,
  from whichever link of the ring one starts to read.
\<close>

theorem ladderize_root_ring_counterexample:
  "rings_ok [6, 1, 0, 2, 0, 0, 0] tree7
   \<and> fst (root_node tree7) = Returns 0 \<and> fst (is_leaf 0 tree7) = Returns False
   \<and> fst (ladderize (\<lambda>_. [6, 1, 0, 2, 0, 0, 0]) kSmallFirst tree7) = Returns ()
   \<and> fst (node_primary_link 0 (snd (ladderize (\<lambda>_. [6, 1, 0, 2, 0, 0, 0]) kSmallFirst tree7)))
       = Returns 0
   \<and> fst (links_after 0 (snd (ladderize (\<lambda>_. [6, 1, 0, 2, 0, 0, 0]) kSmallFirst tree7)))
       = Returns [1, 2]
   \<and> map (outer_size [6, 1, 0, 2, 0, 0, 0]
              (snd (ladderize (\<lambda>_. [6, 1, 0, 2, 0, 0, 0]) kSmallFirst tree7))) [0, 1, 2]
       = [Some 1, Some 0, Some 2]
   \<and> \<not> sorted_wrt (in_order kSmallFirst) [Some 1, Some 0, Some 2]
   \<and> \<not> sorted_wrt (in_order kSmallFirst) [Some 0, Some 2, Some 1]
   \<and> \<not> sorted_wrt (in_order kSmallFirst) [Some 2, Some 1, Some 0]"
  by code_simp

subsection \<open>Deleting a leaf: every run\<close>

lemma for_each_total:
  assumes step: "\<And>x v. x \<in> set xs \<Longrightarrow> I v \<Longrightarrow> \<exists>v'. f x v = (Returns (), v') \<and> I v'"
    and "I w"
  shows "\<exists>w'. for_each xs f w = (Returns (), w') \<and> I w'"
  using assms
proof (induction xs arbitrary: w)
  case Nil
  then show ?case by (simp add: ret_def)
next
  case (Cons x xs)
  from Cons.prems(1)[of x w] Cons.prems(2) obtain v where v: "f x w = (Returns (), v)" "I v"
    by auto
  have "\<exists>w'. for_each xs f v = (Returns (), w') \<and> I w'"
    by (rule Cons.IH[OF _ v(2)]) (use Cons.prems(1) in auto)
  then show ?case using v(1) by (auto simp add: bind_def)
qed

lemma renumber_edges_total:
  assumes "\<forall>a \<in> set (edges w). cell (edge_mem w) a \<noteq> None"
  shows "\<exists>w'. renumber_edges lo w = (Returns (), w')"
proof -
  let ?I = "\<lambda>v :: ('a, 'b) world. edges v = edges w \<and> (\<forall>a \<in> set (edges w). cell (edge_mem v) a \<noteq> None)"
  have "\<exists>w'. for_each [lo ..< length (edges w)] (\<lambda>i. bind (edge_at i) (\<lambda>e. edge_reset_index e i)) w
              = (Returns (), w') \<and> ?I w'"
  proof (rule for_each_total[where I = ?I])
    show "?I w" using assms by simp
  next
    fix i and v :: "('a, 'b) world"
    assume i: "i \<in> set [lo ..< length (edges w)]" and I: "?I v"
    then have "i < length (edges v)" by simp
    moreover then obtain E where "cell (edge_mem v) (edges v ! i) = Some E" using I by fastforce
    ultimately show "\<exists>v'. bind (edge_at i) (\<lambda>e. edge_reset_index e i) v = (Returns (), v') \<and> ?I v'"
      using I by (auto simp add: edge_at_def edge_reset_index_def edge_update_def bind_def ret_def cell_update)
  qed
  then show ?thesis by (auto simp add: renumber_edges_def)
qed

lemma renumber_links_total:
  assumes "\<forall>a \<in> set (links w). cell (link_mem w) a \<noteq> None"
  shows "\<exists>w'. renumber_links lo w = (Returns (), w')"
proof -
  let ?I = "\<lambda>v :: ('a, 'b) world. links v = links w \<and> (\<forall>a \<in> set (links w). cell (link_mem v) a \<noteq> None)"
  have "\<exists>w'. for_each [lo ..< length (links w)] (\<lambda>i. bind (link_at i) (\<lambda>e. link_reset_index e i)) w
              = (Returns (), w') \<and> ?I w'"
  proof (rule for_each_total[where I = ?I])
    show "?I w" using assms by simp
  next
    fix i and v :: "('a, 'b) world"
    assume i: "i \<in> set [lo ..< length (links w)]" and I: "?I v"
    then have "i < length (links v)" by simp
    moreover then obtain E where "cell (link_mem v) (links v ! i) = Some E" using I by fastforce
    ultimately show "\<exists>v'. bind (link_at i) (\<lambda>e. link_reset_index e i) v = (Returns (), v') \<and> ?I v'"
      using I by (auto simp add: link_at_def link_reset_index_def link_update_def bind_def ret_def cell_update)
  qed
  then show ?thesis by (auto simp add: renumber_links_def)
qed

lemma renumber_nodes_total:
  assumes "\<forall>a \<in> set (nodes w). cell (node_mem w) a \<noteq> None"
  shows "\<exists>w'. renumber_nodes lo w = (Returns (), w')"
proof -
  let ?I = "\<lambda>v :: ('a, 'b) world. nodes v = nodes w \<and> (\<forall>a \<in> set (nodes w). cell (node_mem v) a \<noteq> None)"
  have "\<exists>w'. for_each [lo ..< length (nodes w)] (\<lambda>i. bind (node_at i) (\<lambda>e. node_reset_index e i)) w
              = (Returns (), w') \<and> ?I w'"
  proof (rule for_each_total[where I = ?I])
    show "?I w" using assms by simp
  next
    fix i and v :: "('a, 'b) world"
    assume i: "i \<in> set [lo ..< length (nodes w)]" and I: "?I v"
    then have "i < length (nodes v)" by simp
    moreover then obtain E where "cell (node_mem v) (nodes v ! i) = Some E" using I by fastforce
    ultimately show "\<exists>v'. bind (node_at i) (\<lambda>e. node_reset_index e i) v = (Returns (), v') \<and> ?I v'"
      using I by (auto simp add: node_at_def node_reset_index_def node_update_def bind_def ret_def cell_update)
  qed
  then show ?thesis by (auto simp add: renumber_nodes_def)
qed

lemma set_erase_at: "distinct xs \<Longrightarrow> k < length xs \<Longrightarrow> set (erase_at k xs) = set xs - {xs ! k}"
proof -
  assume d: "distinct xs" and k: "k < length xs"
  have xs: "xs = take k xs @ xs ! k # drop (Suc k) xs" using k by (simp add: id_take_nth_drop)
  then have "distinct (take k xs @ xs ! k # drop (Suc k) xs)" using d by simp
  then have "xs ! k \<notin> set (take k xs)" "xs ! k \<notin> set (drop (Suc k) xs)" by auto
  moreover have "set xs = set (take k xs) \<union> {xs ! k} \<union> set (drop (Suc k) xs)"
    using arg_cong[OF xs, of set] by auto
  ultimately show ?thesis by (auto simp add: erase_at_def)
qed

lemma live_of_indexed:
  "\<forall>i < length c. map_option f (cell m (c ! i)) = Some i \<Longrightarrow> a \<in> set c \<Longrightarrow> cell m a \<noteq> None"
  by (auto simp add: in_set_conv_nth)

lemma edges_erase_renumber_total:
  assumes idx: "\<forall>i < length (edges w). edge_ix w (edges w ! i) = Some i" and k: "k < length (edges w)"
  shows "\<exists>w1 w2. edges_erase k w = (Returns (), w1) \<and> renumber_edges k w1 = (Returns (), w2)"
proof -
  let ?w1 = "w\<lparr>edges := erase_at k (edges w), edge_mem := (edge_mem w)[edges w ! k := None]\<rparr>"
  have e: "edges_erase k w = (Returns (), ?w1)" using k by (simp add: edges_erase_Returns_iff)
  from idx have dist: "distinct (edges w)" by (rule indexed_distinct)
  have "\<forall>a \<in> set (edges ?w1). cell (edge_mem ?w1) a \<noteq> None"
    using live_of_indexed[of "edges w" e_index "edge_mem w"] idx
    by (auto simp add: set_erase_at[OF dist k] cell_update edge_ix_def)
  from renumber_edges_total[OF this, of k] e show ?thesis by blast
qed

lemma nodes_erase_renumber_total:
  assumes idx: "\<forall>i < length (nodes w). node_ix w (nodes w ! i) = Some i" and k: "k < length (nodes w)"
  shows "\<exists>w1 w2. nodes_erase k w = (Returns (), w1) \<and> renumber_nodes k w1 = (Returns (), w2)"
proof -
  let ?w1 = "w\<lparr>nodes := erase_at k (nodes w), node_mem := (node_mem w)[nodes w ! k := None]\<rparr>"
  have e: "nodes_erase k w = (Returns (), ?w1)" using k by (simp add: nodes_erase_Returns_iff)
  from idx have dist: "distinct (nodes w)" by (rule indexed_distinct)
  have "\<forall>a \<in> set (nodes ?w1). cell (node_mem ?w1) a \<noteq> None"
    using live_of_indexed[of "nodes w" n_index "node_mem w"] idx
    by (auto simp add: set_erase_at[OF dist k] cell_update node_ix_def)
  from renumber_nodes_total[OF this, of k] e show ?thesis by blast
qed

lemma links_erase_live:
  assumes dist: "distinct (links w)" and k: "k < length (links w)"
    and live: "\<forall>a \<in> set (links w). cell (link_mem w) a \<noteq> None"
  shows "\<exists>w1. links_erase k w = (Returns (), w1) \<and> distinct (links w1)
           \<and> length (links w1) = length (links w) - 1
           \<and> (\<forall>a \<in> set (links w1). cell (link_mem w1) a \<noteq> None)"
proof -
  let ?w1 = "w\<lparr>links := erase_at k (links w), link_mem := (link_mem w)[links w ! k := None]\<rparr>"
  have "links_erase k w = (Returns (), ?w1)" using k by (simp add: links_erase_Returns_iff)
  moreover have "distinct (links ?w1)" using dist by (simp add: distinct_erase_at)
  moreover have "length (links ?w1) = length (links w) - 1" using k by (simp add: length_erase_at)
  moreover have "\<forall>a \<in> set (links ?w1). cell (link_mem ?w1) a \<noteq> None"
    using live by (auto simp add: set_erase_at[OF dist k] cell_update)
  ultimately show ?thesis by blast
qed

lemma erase_two_links_total:
  assumes idx: "\<forall>k < length (links w). link_ix w (links w ! k) = Some k"
    and i: "i < length (links w)" and j: "j < length (links w)" and ne: "i \<noteq> j"
  shows "\<exists>w'. erase_two_links i j w = (Returns (), w')"
proof -
  define f where "f = min i j"
  define s where "s = max i j"
  from ne have fs: "f < s" by (auto simp add: f_def s_def)
  have f: "f < length (links w)" and s: "s < length (links w)" using i j by (auto simp add: f_def s_def)
  from idx have dist: "distinct (links w)" by (rule indexed_distinct)
  have live: "\<forall>a \<in> set (links w). cell (link_mem w) a \<noteq> None"
    using live_of_indexed[of "links w" l_index "link_mem w"] idx by (auto simp add: link_ix_def)
  from links_erase_live[OF dist f live] obtain w1 where e1: "links_erase f w = (Returns (), w1)"
    and d1: "distinct (links w1)" and len1: "length (links w1) = length (links w) - 1"
    and live1: "\<forall>a \<in> set (links w1). cell (link_mem w1) a \<noteq> None" by blast
  have s1: "s - 1 < length (links w1)" using f s fs len1 by simp
  from links_erase_live[OF d1 s1 live1] obtain w2 where e2: "links_erase (s - 1) w1 = (Returns (), w2)"
    and live2: "\<forall>a \<in> set (links w2). cell (link_mem w2) a \<noteq> None" by blast
  from renumber_links_total[OF live2, of f] obtain w' where "renumber_links f w2 = (Returns (), w')"
    by blast
  then have "erase_two_links i j w = (Returns (), w')"
    using e1 e2 fs unfolding erase_two_links_def Let_def f_def[symmetric] s_def[symmetric]
    by (simp add: bind_def)
  then show ?thesis by blast
qed

lemma find_pred_chain:
  "chain m t c cs \<Longrightarrow> cell m q = Some lq \<Longrightarrow> l_next lq = c \<Longrightarrow>
   find_pred m t q = Some (Inr (last (q # cs)))"
proof (induction cs arbitrary: q lq c)
  case Nil
  then show ?case by (subst find_pred.simps) simp
next
  case (Cons x xs)
  then obtain lc where lc: "cell m c = Some lc" "chain m t (l_next lc) xs" "x = c" "c \<noteq> t"
    by (auto split: option.splits)
  from Cons.IH[OF lc(2) lc(1) refl] have "find_pred m t c = Some (Inr (last (c # xs)))" .
  then show ?case using Cons.prems(2,3) lc(3,4) by (subst find_pred.simps) simp
qed

lemma find_pred_ring:
  assumes a: "cell m a = Some la" and ch: "chain m a (l_next la) cs"
  shows "\<exists>q. find_pred m a (l_next la) = Some (Inr q)"
proof (cases cs)
  case Nil
  then have "l_next la = a" using ch by simp
  then show ?thesis using a by (subst find_pred.simps) simp
next
  case (Cons x xs)
  then obtain lx where lx: "cell m x = Some lx" "chain m a (l_next lx) xs" "x = l_next la"
    using ch by (auto split: option.splits)
  from find_pred_chain[OF lx(2) lx(1) refl] lx(3) show ?thesis by auto
qed

lemma refs_closedD:
  assumes "refs_closed w" and "l \<in> set (links w)"
  shows "\<exists>L cs. cell (link_mem w) l = Some L \<and> l_node L \<in> set (nodes w) \<and> l_edge L \<in> set (edges w)
           \<and> chain (link_mem w) l (l_next L) cs \<and> set cs \<subseteq> set (links w)"
proof -
  from assms obtain L where L: "cell (link_mem w) l = Some L" "l_node L \<in> set (nodes w)"
    "l_edge L \<in> set (edges w)"
    and r: "(case ring_others (link_mem w) l (l_next L) [] of
               Some (Inr cs) \<Rightarrow> set cs \<subseteq> set (links w) | _ \<Rightarrow> False)"
    by (fastforce simp add: refs_closed_def split: option.splits)
  from r obtain cs where "ring_others (link_mem w) l (l_next L) [] = Some (Inr cs)"
    and "set cs \<subseteq> set (links w)"
    by (auto split: option.splits sum.splits)
  from ring_others_chain[OF this(1)] this(2) L show ?thesis by blast
qed

lemma delete_leaf_node_erase_run:
  assumes idx: "indexed w" and cl: "links_closed w" and rc: "refs_closed w"
    and bel: "belongs_to_node n w"
  shows "\<exists>ei w1 w2 N TL lp n2 w3 AT AO w4 ni w5 w6.
       edges_erase ei w = (Returns (), w1) \<and> renumber_edges ei w1 = (Returns (), w2)
     \<and> cell (node_mem w2) n = Some N \<and> cell (link_mem w2) (n_link N) = Some TL
     \<and> link_reset_next lp n2 w2 = (Returns (), w3)
     \<and> cell (link_mem w3) (l_outer TL) = Some AT \<and> cell (link_mem w3) (l_outer AT) = Some AO
     \<and> erase_two_links (l_index AT) (l_index AO) w3 = (Returns (), w4)
     \<and> nodes_erase ni w4 = (Returns (), w5) \<and> renumber_nodes ni w5 = (Returns (), w6)
     \<and> delete_leaf_node_erase n p w = bind (link_index p) reset_root_link_index w6"
proof -
  from idx have idx_l: "\<forall>i < length (links w). link_ix w (links w ! i) = Some i"
    and idx_n: "\<forall>i < length (nodes w). node_ix w (nodes w ! i) = Some i"
    and idx_e: "\<forall>i < length (edges w). edge_ix w (edges w ! i) = Some i"
    by (simp_all add: indexed_def)
  from bel have n_in: "n \<in> set (nodes w)" by (simp add: belongs_to_node_def)
  from in_set_position[OF n_in] obtain ni where ni: "ni < length (nodes w)" "nodes w ! ni = n" by blast
  from idx_n ni obtain N where N: "cell (node_mem w) n = Some N" and Ni: "n_index N = ni"
    by (auto simp add: node_ix_def)
  from cl n_in N have tl_in: "n_link N \<in> set (links w)" by (auto simp add: links_closed_def)
  from refs_closedD[OF rc tl_in] obtain TL where TL: "cell (link_mem w) (n_link N) = Some TL"
    and te_in: "l_edge TL \<in> set (edges w)" by blast
  from in_set_position[OF te_in] obtain ei where ei: "ei < length (edges w)" "edges w ! ei = l_edge TL"
    by blast
  from idx_e ei obtain E where E: "cell (edge_mem w) (l_edge TL) = Some E" and Ei: "e_index E = ei"
    by (auto simp add: edge_ix_def)
  from edges_erase_renumber_total[OF idx_e ei(1)] obtain w1 w2 where
    e1: "edges_erase ei w = (Returns (), w1)" and r1: "renumber_edges ei w1 = (Returns (), w2)" by blast
  note F = edges_erase_renumber[OF idx_e e1 r1]
  have N2: "cell (node_mem w2) n = Some N" using N F(6) by simp
  have TL2: "cell (link_mem w2) (n_link N) = Some TL" using TL F(5) by simp
  from cl tl_in TL have at_in: "l_outer TL \<in> set (links w)" by (auto simp add: links_closed_def)
  from refs_closedD[OF rc at_in] obtain AT cs where AT: "cell (link_mem w) (l_outer TL) = Some AT"
    and ch: "chain (link_mem w) (l_outer TL) (l_next AT) cs" by blast
  from find_pred_ring[OF AT ch] obtain lp where
    fp: "find_pred (link_mem w) (l_outer TL) (l_next AT) = Some (Inr lp)" by blast
  from find_pred_Inr[OF fp] obtain L where L: "cell (link_mem w) lp = Some L"
    and Ln: "l_next L = l_outer TL" by blast
  define w3 where "w3 = w2\<lparr>link_mem := (link_mem w2)[lp := Some (L\<lparr>l_next := l_next AT\<rparr>)]\<rparr>"
  have s3: "link_reset_next lp (l_next AT) w2 = (Returns (), w3)"
    using L F(5) by (simp add: link_reset_next_def link_update_def ret_def w3_def)
  have lp: "lp < length (link_mem w)" using L by (rule cell_Some_less)
  have cell3: "cell (link_mem w3) a = (if a = lp then Some (L\<lparr>l_next := l_next AT\<rparr>) else cell (link_mem w) a)" for a
    using lp by (simp add: w3_def F(5) cell_update)
  have AT3: "cell (link_mem w3) (l_outer TL) = Some AT"
    using AT L by (auto simp add: cell3)
  from cl at_in AT have ao_in: "l_outer AT \<in> set (links w)" and ao_ne: "l_outer AT \<noteq> l_outer TL"
    by (auto simp add: links_closed_def)
  from refs_closedD[OF rc ao_in] obtain AO0 where AO0: "cell (link_mem w) (l_outer AT) = Some AO0"
    by blast
  have "\<exists>AO. cell (link_mem w3) (l_outer AT) = Some AO \<and> l_index AO = l_index AO0"
    using AO0 L by (auto simp add: cell3)
  then obtain AO where AO3: "cell (link_mem w3) (l_outer AT) = Some AO" and AOi: "l_index AO = l_index AO0"
    by blast
  from in_set_position[OF at_in] obtain i where i: "i < length (links w)" "links w ! i = l_outer TL"
    by blast
  from in_set_position[OF ao_in] obtain j where j: "j < length (links w)" "links w ! j = l_outer AT"
    by blast
  from idx_l i AT have ATi: "l_index AT = i" by (auto simp add: link_ix_def)
  from idx_l j AO0 AOi have AOj: "l_index AO = j" by (auto simp add: link_ix_def)
  from i j ao_ne have ne: "i \<noteq> j" by auto
  have links3: "links w3 = links w" using F(3) by (simp add: w3_def)
  have ix3: "link_ix w3 a = link_ix w a" for a
    using L by (auto simp add: link_ix_def cell3)
  have idx3: "\<forall>k < length (links w3). link_ix w3 (links w3 ! k) = Some k"
    using idx_l by (simp add: links3 ix3)
  from erase_two_links_total[OF idx3, of i j] i j ne links3 obtain w4 where
    e2: "erase_two_links i j w3 = (Returns (), w4)" by auto
  note K = erase_two_links_facts[OF idx3 e2 ne]
  have nodes4: "nodes w4 = nodes w" using K(4) F(4) by (simp add: w3_def)
  have nmem4: "node_mem w4 = node_mem w" using K(6) F(6) by (simp add: w3_def)
  have idx4: "\<forall>k < length (nodes w4). node_ix w4 (nodes w4 ! k) = Some k"
    using idx_n by (simp add: nodes4 node_ix_cong[OF nmem4])
  from nodes_erase_renumber_total[OF idx4, of ni] ni nodes4 obtain w5 w6 where
    e3: "nodes_erase ni w4 = (Returns (), w5)" and r3: "renumber_nodes ni w5 = (Returns (), w6)" by auto
  have a1: "node_primary_link n w = (Returns (n_link N), w)" using N by (simp add: exec_defs)
  have a2: "link_edge (n_link N) w = (Returns (l_edge TL), w)" using TL by (simp add: exec_defs)
  have a3: "edge_index (l_edge TL) w = (Returns ei, w)" using E Ei by (simp add: exec_defs)
  have a4: "node_primary_link n w2 = (Returns (n_link N), w2)" using N2 by (simp add: exec_defs)
  have a5: "link_outer (n_link N) w2 = (Returns (l_outer TL), w2)" using TL2 by (simp add: exec_defs)
  have a6: "link_next (l_outer TL) w2 = (Returns (l_next AT), w2)" using AT F(5) by (simp add: exec_defs)
  have a7: "walk_to_pred (l_outer TL) (l_next AT) w2 = (Returns lp, w2)"
    using fp F(5) by (simp add: walk_to_pred_def lift_loop_def)
  have a8: "link_next lp w2 = (Returns (l_outer TL), w2)" using L Ln F(5) by (simp add: exec_defs)
  have a9: "link_index (l_outer TL) w3 = (Returns i, w3)" using AT3 ATi by (simp add: exec_defs)
  have a10: "link_outer (l_outer TL) w3 = (Returns (l_outer AT), w3)" using AT3 by (simp add: exec_defs)
  have a11: "link_index (l_outer AT) w3 = (Returns j, w3)" using AO3 AOj by (simp add: exec_defs)
  have a12: "node_index n w4 = (Returns ni, w4)" using N Ni nmem4 by (simp add: exec_defs)
  have run: "delete_leaf_node_erase n p w = bind (link_index p) reset_root_link_index w6"
    unfolding delete_leaf_node_erase_def
    by (simp add: bind_def a1 a2 a3 e1 r1 a4 a5 a6 a7 a8 s3 a9 a10 a11 e2 a12 e3 r3)
  from e1 r1 N2 TL2 s3 AT3 AO3 e2 e3 r3 run ATi AOj show ?thesis by blast
qed

lemma erase_two_links_set:
  assumes idx: "\<forall>k < length (links w). link_ix w (links w ! k) = Some k"
    and run: "erase_two_links i j w = (Returns (), w')"
    and ne: "i \<noteq> j"
  shows "set (links w') = set (links w) - {links w ! i, links w ! j}"
proof -
  define f where "f = min i j"
  define s where "s = max i j"
  from ne have fs: "f < s" by (auto simp add: f_def s_def)
  from idx have dist: "distinct (links w)" by (rule indexed_distinct)
  from run fs obtain w1 w2 where e1: "links_erase f w = (Returns (), w1)"
    and e2: "links_erase (s - 1) w1 = (Returns (), w2)"
    and r: "renumber_links f w2 = (Returns (), w')"
    by (auto simp add: erase_two_links_def Let_def f_def s_def bind_Returns_iff crash_Returns_iff
          split: if_splits)
  from e1 have f: "f < length (links w)" and l1: "links w1 = erase_at f (links w)"
    by (simp_all add: links_erase_Returns_iff)
  have len1: "length (links w1) = length (links w) - 1" using l1 f by (simp add: length_erase_at)
  have d1: "distinct (links w1)" using l1 dist by (simp add: distinct_erase_at)
  from e2 have s1: "s - 1 < length (links w1)" and l2: "links w2 = erase_at (s - 1) (links w1)"
    by (simp_all add: links_erase_Returns_iff)
  from s1 len1 fs have s: "s < length (links w)" by simp
  have d2: "distinct (links w2)" using l2 d1 by (simp add: distinct_erase_at)
  have "\<not> s - 1 < f" using fs by simp
  then have at_s: "links w1 ! (s - 1) = links w ! s"
    using l1 f s fs by (simp add: nth_erase_at)
  have "links w' = links w2" by (rule renumber_links_facts(1)[OF r d2])
  then have "set (links w') = set (links w1) - {links w ! s}"
    using set_erase_at[OF d1 s1] l2 at_s by simp
  also have "set (links w1) = set (links w) - {links w ! f}"
    using set_erase_at[OF dist f] l1 by simp
  finally have "set (links w') = set (links w) - {links w ! f, links w ! s}" by auto
  moreover have "{links w ! f, links w ! s} = {links w ! i, links w ! j}"
    by (auto simp add: f_def s_def min_def max_def)
  ultimately show ?thesis by simp
qed

lemma root_link_after_delete_total:
  assumes idx: "indexed w" and cl: "links_closed w" and rc: "refs_closed w"
    and bel: "belongs_to_node n w"
  shows "\<exists>p. root_link_after_delete n w = (Returns p, w)
           \<and> (is_root n w = (Returns False, w) \<longrightarrow> p = links w ! root_link_index w)"
proof -
  from idx have idx_n: "\<forall>i < length (nodes w). node_ix w (nodes w ! i) = Some i"
    by (simp add: indexed_def)
  from rc have rt: "root_link_index w < length (links w)" by (simp add: refs_closed_def)
  let ?R = "links w ! root_link_index w"
  have R_in: "?R \<in> set (links w)" using rt by simp
  from refs_closedD[OF rc R_in] obtain RL where RL: "cell (link_mem w) ?R = Some RL"
    and rn_in: "l_node RL \<in> set (nodes w)" by blast
  from in_set_position[OF rn_in] obtain k where k: "k < length (nodes w)" "nodes w ! k = l_node RL"
    by blast
  from idx_n k obtain RN where RN: "cell (node_mem w) (l_node RL) = Some RN" and RNi: "n_index RN = k"
    by (auto simp add: node_ix_def)
  from bel have n_in: "n \<in> set (nodes w)" by (simp add: belongs_to_node_def)
  from in_set_position[OF n_in] obtain ni where ni: "ni < length (nodes w)" "nodes w ! ni = n" by blast
  from idx_n ni obtain N where N: "cell (node_mem w) n = Some N" and Ni: "n_index N = ni"
    by (auto simp add: node_ix_def)
  from cl n_in N have tl_in: "n_link N \<in> set (links w)" by (auto simp add: links_closed_def)
  from refs_closedD[OF rc tl_in] obtain TL where TL: "cell (link_mem w) (n_link N) = Some TL" by blast
  have "distinct (nodes w)" using idx_n by (rule indexed_distinct)
  then have same: "k = ni \<longleftrightarrow> l_node RL = n" using k ni by (auto simp add: nth_eq_iff_index_eq)
  have run: "root_link_after_delete n w = (Returns (if l_node RL = n then l_outer TL else ?R), w)"
    using rt RL RN RNi N Ni TL same
    by (simp add: root_link_after_delete_def root_link_def root_node_def link_at_def exec_defs)
  have "is_root n w = (Returns (l_node RL = n), w)"
    using rt RL by (simp add: is_root_def root_link_def root_node_def link_at_def exec_defs)
  with run show ?thesis by auto
qed

text \<open>
  Every run of \<open>delete_leaf_node\<close> on a leaf. Let the stored indices of a tree agree with
  the positions in all three collections, let the references between its nodes, links and
  edges stay inside the tree, and let every ring be a cycle. For every node of the tree of
  degree 1, \<open>delete_leaf_node\<close> runs to its last statement. There it either returns or
  ends in the read of a root link that it has freed; it returns whenever the node is not
  the root node and the root link is neither the attachment link nor the outer of it. In
  both cases the store it leaves has one node and one edge less and two links less, and
  every remaining node, edge and link is a live object whose stored index is its position.
\<close>

lemma delete_leaf_node_run:
  assumes idx: "indexed w" and cl: "links_closed w" and rc: "refs_closed w"
    and bel: "belongs_to_node n w" and deg: "degree n w = (Returns 1, w)"
  shows "\<exists>r w'. delete_leaf_node n w = (r, w')
       \<and> (r = Returns () \<or> r = Faults Dangling)
       \<and> (is_root n w = (Returns False, w) \<and> links w ! root_link_index w \<notin> doomed_links w n
            \<longrightarrow> r = Returns ())
       \<and> length (nodes w) = length (nodes w') + 1
       \<and> length (edges w) = length (edges w') + 1
       \<and> length (links w) = length (links w') + 2
       \<and> indexed w'"
proof -
  from idx have idx_l: "\<forall>i < length (links w). link_ix w (links w ! i) = Some i"
    by (simp add: indexed_def)
  from root_link_after_delete_total[OF idx cl rc bel] obtain p where
    rl: "root_link_after_delete n w = (Returns p, w)"
    and pr: "is_root n w = (Returns False, w) \<longrightarrow> p = links w ! root_link_index w" by blast
  from delete_leaf_node_erase_run[OF idx cl rc bel, of p]
  obtain ei w1 w2 N TL lp n2 w3 AT AO w4 ni w5 w6
    where e1: "edges_erase ei w = (Returns (), w1)"
      and r1: "renumber_edges ei w1 = (Returns (), w2)"
      and N: "cell (node_mem w2) n = Some N"
      and TL: "cell (link_mem w2) (n_link N) = Some TL"
      and s3: "link_reset_next lp n2 w2 = (Returns (), w3)"
      and AT: "cell (link_mem w3) (l_outer TL) = Some AT"
      and AO: "cell (link_mem w3) (l_outer AT) = Some AO"
      and e2: "erase_two_links (l_index AT) (l_index AO) w3 = (Returns (), w4)"
      and e3: "nodes_erase ni w4 = (Returns (), w5)"
      and r3: "renumber_nodes ni w5 = (Returns (), w6)"
      and er: "delete_leaf_node_erase n p w = bind (link_index p) reset_root_link_index w6"
    by blast
  have facts: "length (nodes w) = length (nodes w6) + 1
       \<and> length (edges w) = length (edges w6) + 1
       \<and> length (links w) = length (links w6) + 2
       \<and> indexed w6"
    by (rule leaf_phases_facts[OF idx cl bel e1 r1 N TL s3 AT AO e2 e3 r3])
  have run: "delete_leaf_node n w = bind (link_index p) reset_root_link_index w6"
    using bel deg rl er by (simp add: delete_leaf_node_def bind_def)
  \<comment> \<open>the root link survives unless it is one of the two links that go\<close>
  have survives: "cell (link_mem w6) p \<noteq> None"
    if nr: "is_root n w = (Returns False, w)" and nd: "links w ! root_link_index w \<notin> doomed_links w n"
  proof -
    have idx_e: "\<forall>i < length (edges w). edge_ix w (edges w ! i) = Some i"
      using idx by (simp add: indexed_def)
    note F = edges_erase_renumber[OF idx_e e1 r1]
    from s3 obtain L where L: "cell (link_mem w2) lp = Some L"
      and w3: "w3 = w2\<lparr>link_mem := (link_mem w2)[lp := Some (L\<lparr>l_next := n2\<rparr>)]\<rparr>"
      by (auto simp add: link_reset_next_def link_update_Returns_iff)
    have lp: "lp < length (link_mem w)" using L F(5) by (auto dest: cell_Some_less)
    have cell3: "cell (link_mem w3) a = (if a = lp then Some (L\<lparr>l_next := n2\<rparr>) else cell (link_mem w) a)" for a
      using lp by (simp add: w3 F(5) cell_update)
    have L0: "cell (link_mem w) lp = Some L" using L F(5) by simp
    have same3: "\<exists>X0. cell (link_mem w) a = Some X0 \<and> l_outer X0 = l_outer X \<and> l_index X0 = l_index X"
      if "cell (link_mem w3) a = Some X" for a X
      using that L0 by (auto simp add: cell3 split: if_splits)
    have ix3: "link_ix w3 a = link_ix w a" for a
      using L0 by (auto simp add: link_ix_def cell3)
    have links3: "links w3 = links w" using w3 F(3) by simp
    from N F(6) have N0: "cell (node_mem w) n = Some N" by simp
    from TL F(5) have TL0: "cell (link_mem w) (n_link N) = Some TL" by simp
    from cl bel N0 have tl_in: "n_link N \<in> set (links w)"
      by (auto simp add: links_closed_def belongs_to_node_def)
    from cl tl_in TL0 have at_in: "l_outer TL \<in> set (links w)"
      by (auto simp add: links_closed_def)
    from same3[OF AT] obtain AT0 where AT0: "cell (link_mem w) (l_outer TL) = Some AT0"
      "l_outer AT0 = l_outer AT" "l_index AT0 = l_index AT" by blast
    from cl at_in AT0 have ao_in: "l_outer AT \<in> set (links w)" and ao_ne: "l_outer AT \<noteq> l_outer TL"
      by (auto simp add: links_closed_def)
    from same3[OF AO] obtain AO0 where AO0: "cell (link_mem w) (l_outer AT) = Some AO0"
      "l_index AO0 = l_index AO" by blast
    from in_set_position[OF at_in] obtain i where i: "i < length (links w)" "links w ! i = l_outer TL"
      by blast
    from in_set_position[OF ao_in] obtain j where j: "j < length (links w)" "links w ! j = l_outer AT"
      by blast
    from idx_l i AT0 have ati: "l_index AT = i" by (auto simp add: link_ix_def)
    from idx_l j AO0 have aoj: "l_index AO = j" by (auto simp add: link_ix_def)
    from i j ao_ne have ne: "l_index AT \<noteq> l_index AO" using ati aoj by auto
    have idx3: "\<forall>k < length (links w3). link_ix w3 (links w3 ! k) = Some k"
      using idx_l by (simp add: links3 ix3)
    note K = erase_two_links_facts[OF idx3 e2 ne]
    have set4: "set (links w4) = set (links w) - {l_outer TL, l_outer AT}"
      using erase_two_links_set[OF idx3 e2 ne] links3 ati aoj i j by simp
    have dl: "doomed_links w n = {l_outer TL, l_outer AT}"
      using N0 TL0 AT0 by (simp add: doomed_links_def)
    from rc have rt: "root_link_index w < length (links w)" by (simp add: refs_closed_def)
    have "p \<in> set (links w4)" using pr nr nd rt by (simp add: set4 dl)
    from in_set_position[OF this] obtain k where k: "k < length (links w4)" "links w4 ! k = p" by blast
    with K(2) have p4: "cell (link_mem w4) p \<noteq> None" by (auto simp add: link_ix_def)
    have nodes4: "nodes w4 = nodes w" using K(4) w3 F(4) by simp
    have nmem4: "node_mem w4 = node_mem w" using K(6) w3 F(6) by simp
    have idx_n: "\<forall>i < length (nodes w). node_ix w (nodes w ! i) = Some i"
      using idx by (simp add: indexed_def)
    have idx4: "\<forall>k < length (nodes w4). node_ix w4 (nodes w4 ! k) = Some k"
      using idx_n by (simp add: nodes4 node_ix_cong[OF nmem4])
    note M = nodes_erase_renumber[OF idx4 e3 r3]
    show ?thesis using p4 M(5) by simp
  qed
  show ?thesis
  proof (cases "cell (link_mem w6) p")
    case None
    then have "delete_leaf_node n w = (Faults Dangling, w6)"
      using run by (simp add: exec_defs)
    with facts survives None show ?thesis by auto
  next
    case (Some P)
    then have "delete_leaf_node n w = (Returns (), w6\<lparr>root_link_index := l_index P\<rparr>)"
      using run by (simp add: exec_defs reset_root_link_index_def)
    moreover have "indexed (w6\<lparr>root_link_index := l_index P\<rparr>)"
      using facts by (simp add: indexed_def link_ix_def node_ix_def edge_ix_def)
    ultimately show ?thesis using facts by auto
  qed
qed

lemma delete_leaf_node_run_example:
  "indexed tree6 \<and> links_closed tree6 \<and> refs_closed tree6
   \<and> belongs_to_node 4 tree6 \<and> degree 4 tree6 = (Returns 1, tree6)
   \<and> is_root 4 tree6 = (Returns False, tree6)
   \<and> links tree6 ! root_link_index tree6 \<notin> doomed_links tree6 4
   \<and> delete_leaf_node 4 tree6 = (Returns (), snd (delete_leaf_node 4 tree6))
   \<and> length (nodes (snd (delete_leaf_node 4 tree6))) = 5
   \<and> length (edges (snd (delete_leaf_node 4 tree6))) = 4
   \<and> length (links (snd (delete_leaf_node 4 tree6))) = 8
   \<and> indexed (snd (delete_leaf_node 4 tree6))"
proof -
  have i: "indexed tree6"
    by (simp add: indexed_def link_ix_def node_ix_def edge_ix_def example_defs cell_simps
          All_less_Suc eval_nat_numeral)
  have c: "links_closed tree6"
    by (simp add: links_closed_def example_defs cell_simps)
  have rc: "refs_closed tree6" by code_simp
  have b: "belongs_to_node 4 tree6" by code_simp
  have "fst (degree 4 tree6) = Returns 1" by code_simp
  then have d: "degree 4 tree6 = (Returns 1, tree6)" by (rule degree_Returns)
  have "fst (is_root 4 tree6) = Returns False \<and> snd (is_root 4 tree6) = tree6"
    by (simp add: is_root_def root_node_def root_link_def link_at_def exec_defs example_defs cell_simps)
  then have nr: "is_root 4 tree6 = (Returns False, tree6)" by (simp add: prod_eq_iff)
  have nd: "links tree6 ! root_link_index tree6 \<notin> doomed_links tree6 4"
    by (simp add: doomed_links_def example_defs cell_simps)
  have l: "length (nodes tree6) = 6" "length (edges tree6) = 5" "length (links tree6) = 10"
    by (simp_all add: example_defs)
  from delete_leaf_node_run[OF i c rc b d] nr nd l
  have "delete_leaf_node 4 tree6 = (Returns (), snd (delete_leaf_node 4 tree6))
   \<and> length (nodes (snd (delete_leaf_node 4 tree6))) = 5
   \<and> length (edges (snd (delete_leaf_node 4 tree6))) = 4
   \<and> length (links (snd (delete_leaf_node 4 tree6))) = 8
   \<and> indexed (snd (delete_leaf_node 4 tree6))"
    by auto
  with i c rc b d nr nd show ?thesis by simp
qed

section \<open>Deleting a subtree, and the dispatch of node deletion\<close>

subsection \<open>The pre-order walk and the compaction loop\<close>

lemma preorder_walk_acc_aux:
  assumes "preorder_walk m stack acc = Some r"
  shows "\<forall>q. r = Inr q \<longrightarrow> (\<exists>vs. q = rev acc @ vs \<and> length stack \<le> length vs)"
proof (rule preorder_walk.raw_induct[where P="\<lambda>m stack acc r. \<forall>q. r = Inr q \<longrightarrow> (\<exists>vs. q = rev acc @ vs \<and> length stack \<le> length vs)", OF _ assms])
  fix pw m stack acc r
  assume IH: "\<And>m stack acc r. pw m stack acc = Some r \<Longrightarrow>
                \<forall>q. r = Inr q \<longrightarrow> (\<exists>vs. q = rev acc @ vs \<and> length stack \<le> length vs)"
    and step: "(case stack of
        [] \<Rightarrow> Some (Inr (rev acc))
      | l # rest \<Rightarrow>
          (case cell m l of
             None \<Rightarrow> Some (Inl Dangling)
           | Some lk \<Rightarrow>
               (case ring_others m l (l_next lk) [] of
                  None \<Rightarrow> None
                | Some (Inl c) \<Rightarrow> Some (Inl c)
                | Some (Inr cs) \<Rightarrow>
                    (case those (map (\<lambda>c. map_option l_outer (cell m c)) cs) of
                       None \<Rightarrow> Some (Inl Dangling)
                     | Some outs \<Rightarrow> pw m (outs @ rest) (l # acc))))) = Some r"
  show "\<forall>q. r = Inr q \<longrightarrow> (\<exists>vs. q = rev acc @ vs \<and> length stack \<le> length vs)"
  proof (intro allI impI)
    fix q assume r: "r = Inr q"
    show "\<exists>vs. q = rev acc @ vs \<and> length stack \<le> length vs"
    proof (cases stack)
      case Nil
      then show ?thesis using step r by simp
    next
      case (Cons l rest)
      with step r obtain outs where "pw m (outs @ rest) (l # acc) = Some (Inr q)"
        by (auto split: option.splits sum.splits)
      from IH[OF this] obtain vs where "q = rev (l # acc) @ vs" "length (outs @ rest) \<le> length vs"
        by blast
      then have "q = rev acc @ (l # vs) \<and> length stack \<le> length (l # vs)" using Cons by simp
      then show ?thesis by blast
    qed
  qed
qed

lemma those_length: "those xs = Some ys \<Longrightarrow> length ys = length xs"
  by (induction xs arbitrary: ys) (auto split: option.splits)

lemma preorder_walk_first:
  assumes "preorder_walk m [p] [] = Some (Inr ls)"
  shows "\<exists>lp cs vs. cell m p = Some lp \<and> ring_others m p (l_next lp) [] = Some (Inr cs)
           \<and> ls = p # vs \<and> length cs \<le> length vs"
proof -
  from assms obtain lp cs outs where lp: "cell m p = Some lp"
    and cs: "ring_others m p (l_next lp) [] = Some (Inr cs)"
    and outs: "those (map (\<lambda>c. map_option l_outer (cell m c)) cs) = Some outs"
    and rest: "preorder_walk m (outs @ []) [p] = Some (Inr ls)"
    by (subst (asm) preorder_walk.simps) (auto split: option.splits sum.splits)
  from preorder_walk_acc_aux[OF rest] obtain vs where "ls = rev [p] @ vs" "length (outs @ []) \<le> length vs"
    by blast
  moreover have "length outs = length cs" using those_length[OF outs] by simp
  ultimately show ?thesis using lp cs by auto
qed

lemma compact_loop_run:
  assumes reset: "\<And>a j v. a \<in> set old \<Longrightarrow> I v \<Longrightarrow> \<exists>v'. reset a j v = (Returns (), v') \<and> I v'"
    and "I w"
  shows "\<exists>w'. compact_loop reset del old i k new w = (Returns (new @ survivors del old i k), w') \<and> I w'"
  using assms
proof (induction old arbitrary: i k new w)
  case Nil
  then show ?case by (simp add: ret_def)
next
  case (Cons a old)
  have r': "\<And>a' j v. a' \<in> set old \<Longrightarrow> I v \<Longrightarrow> \<exists>v'. reset a' j v = (Returns (), v') \<and> I v'"
    using Cons.prems(1) by simp
  show ?case
  proof (cases "k < length del \<and> del ! k = i")
    case True
    from Cons.IH[OF r' Cons.prems(2), of "Suc i" "Suc k" new] True show ?thesis by simp
  next
    case False
    from Cons.prems(1)[of a w "i - k"] Cons.prems(2) obtain v where
      v: "reset a (i - k) w = (Returns (), v)" "I v" by auto
    from Cons.IH[OF r' v(2), of "Suc i" k "new @ [a]"] False v(1) show ?thesis
      by (auto simp add: bind_def)
  qed
qed

lemma survivors_filter:
  assumes "sorted del" and "distinct del" and "k \<le> length del"
    and "\<forall>x \<in> set (take k del). x < i" and "\<forall>x \<in> set (drop k del). i \<le> x"
  shows "survivors del old i k = map fst (filter (\<lambda>(a, j). j \<notin> set del) (zip old [i ..< i + length old]))"
  using assms(3-5)
proof (induction old arbitrary: i k)
  case Nil
  then show ?case by simp
next
  case (Cons a old)
  have "[i ..< i + Suc (length old)] = i # [Suc i ..< i + Suc (length old)]"
    by (rule upt_conv_Cons) simp
  then have upt: "[i ..< i + length (a # old)] = i # [Suc i ..< Suc i + length old]"
    by simp
  show ?case
  proof (cases "k < length del \<and> del ! k = i")
    case True
    then have k: "k < length del" and dk: "del ! k = i" by simp_all
    have t: "\<forall>x \<in> set (take (Suc k) del). x < Suc i"
      using Cons.prems(2) k dk by (auto simp add: take_Suc_conv_app_nth)
    have d: "\<forall>x \<in> set (drop (Suc k) del). Suc i \<le> x"
    proof
      fix x assume "x \<in> set (drop (Suc k) del)"
      then obtain m where m: "m < length del - Suc k" "x = del ! (Suc k + m)"
        by (auto simp add: in_set_conv_nth)
      have "del ! k \<le> del ! (Suc k + m)" using assms(1) m(1) k by (intro sorted_nth_mono) auto
      moreover have "del ! k \<noteq> del ! (Suc k + m)"
        using assms(2) m(1) k by (auto simp add: nth_eq_iff_index_eq)
      ultimately show "Suc i \<le> x" using dk m(2) by simp
    qed
    have "i \<in> set del" using k dk by auto
    have "survivors del (a # old) i k = survivors del old (Suc i) (Suc k)" using True by simp
    also have "\<dots> = map fst (filter (\<lambda>(a, j). j \<notin> set del) (zip old [Suc i ..< Suc i + length old]))"
      by (rule Cons.IH[OF _ t d]) (use k in simp)
    also have "\<dots> = map fst (filter (\<lambda>(a, j). j \<notin> set del) (zip (a # old) (i # [Suc i ..< Suc i + length old])))"
      using \<open>i \<in> set del\<close> by (simp del: upt_Suc)
    finally show ?thesis by (simp only: upt)
  next
    case False
    have "i \<notin> set del"
    proof
      assume "i \<in> set del"
      then have "i \<in> set (take k del) \<or> i \<in> set (drop k del)"
        using set_append[of "take k del" "drop k del"] by auto
      with Cons.prems(2) have "i \<in> set (drop k del)" by auto
      then have k: "k < length del" by (cases "k < length del") auto
      then have dk: "del ! k \<in> set (drop k del)" by (auto simp add: in_set_conv_nth intro: exI[of _ 0])
      from \<open>i \<in> set (drop k del)\<close> obtain m where m: "m < length del - k" "i = del ! (k + m)"
        by (auto simp add: in_set_conv_nth)
      have "del ! k \<le> del ! (k + m)" using assms(1) m(1) by (intro sorted_nth_mono) auto
      with m(2) Cons.prems(3) dk have "del ! k = i" by auto
      with k False show False by simp
    qed
    moreover have d: "\<forall>x \<in> set (drop k del). Suc i \<le> x"
      using Cons.prems(3) \<open>i \<notin> set del\<close> by (metis Suc_leI in_set_dropD le_neq_implies_less)
    moreover have t: "\<forall>x \<in> set (take k del). x < Suc i" using Cons.prems(2) by auto
    ultimately have ni: "i \<notin> set del" and d: "\<forall>x \<in> set (drop k del). Suc i \<le> x"
      and t: "\<forall>x \<in> set (take k del). x < Suc i" by blast+
    have "survivors del (a # old) i k = a # survivors del old (Suc i) k" using False by auto
    also have "survivors del old (Suc i) k
        = map fst (filter (\<lambda>(a, j). j \<notin> set del) (zip old [Suc i ..< Suc i + length old]))"
      by (rule Cons.IH[OF Cons.prems(1) t d])
    also have "a # \<dots> = map fst (filter (\<lambda>(a, j). j \<notin> set del) (zip (a # old) (i # [Suc i ..< Suc i + length old])))"
      using ni by (simp del: upt_Suc)
    finally show ?thesis by (simp only: upt)
  qed
qed

lemma survivors_indexed:
  assumes srt: "sorted del" and d: "distinct del"
    and ix: "\<forall>j < length old. ix (old ! j) = Some j"
  shows "survivors del old 0 0 = filter (\<lambda>a. \<forall>j. ix a = Some j \<longrightarrow> j \<notin> set del) old"
proof -
  have "survivors del old 0 0 = map fst (filter (\<lambda>(a, j). j \<notin> set del) (zip old [0 ..< 0 + length old]))"
    by (rule survivors_filter[OF srt d]) simp_all
  also have "filter (\<lambda>(a, j). j \<notin> set del) (zip old [0 ..< 0 + length old])
           = filter (\<lambda>(a, j). \<forall>j. ix a = Some j \<longrightarrow> j \<notin> set del) (zip old [0 ..< 0 + length old])"
  proof (rule filter_cong[OF refl])
    fix x assume "x \<in> set (zip old [0 ..< 0 + length old])"
    then obtain j where "j < length old" "x = (old ! j, j)"
      by (auto simp add: in_set_conv_nth)
    with ix show "(case x of (a, j) \<Rightarrow> j \<notin> set del) = (case x of (a, j) \<Rightarrow> \<forall>j. ix a = Some j \<longrightarrow> j \<notin> set del)"
      by auto
  qed
  also have "map fst \<dots> = filter (\<lambda>a. \<forall>j. ix a = Some j \<longrightarrow> j \<notin> set del) (map fst (zip old [0 ..< 0 + length old]))"
  proof -
    have e: "(\<lambda>(a, j :: nat). Q a) = Q \<circ> fst" for Q :: "addr \<Rightarrow> bool"
      by (auto simp add: fun_eq_iff)
    show ?thesis unfolding e by (simp only: filter_map)
  qed
  also have "map fst (zip old [0 ..< 0 + length old]) = old" by simp
  finally show ?thesis .
qed

lemma indexed_inj:
  assumes "\<forall>i < length c. ix (c ! i) = Some i" and "a \<in> set c" and "b \<in> set c"
    and "ix a = Some j" and "ix b = Some j"
  shows "a = b"
proof -
  from assms(2,3) obtain i k where "i < length c" "c ! i = a" "k < length c" "c ! k = b"
    by (auto simp add: in_set_conv_nth)
  with assms(1,4,5) show ?thesis by auto
qed

lemma survivors_members:
  assumes idx: "\<forall>i < length c. ix (c ! i) = Some i" and sub: "set xs \<subseteq> set c"
    and d: "distinct xs"
  shows "survivors (sort (map (\<lambda>a. the (ix a)) xs)) c 0 0 = filter (\<lambda>a. a \<notin> set xs) c"
proof -
  have pos: "\<exists>i. ix a = Some i" if "a \<in> set c" for a
    using that idx by (auto simp add: in_set_conv_nth)
  have "inj_on (\<lambda>a. the (ix a)) (set xs)"
  proof (rule inj_onI)
    fix a b assume a: "a \<in> set xs" and b: "b \<in> set xs" and e: "the (ix a) = the (ix b)"
    from a b sub have ac: "a \<in> set c" and bc: "b \<in> set c" by auto
    from pos[OF ac] pos[OF bc] e obtain i where "ix a = Some i" "ix b = Some i" by auto
    from indexed_inj[OF idx ac bc this] show "a = b" .
  qed
  with d have dd: "distinct (sort (map (\<lambda>a. the (ix a)) xs))" by (simp add: distinct_map)
  have "survivors (sort (map (\<lambda>a. the (ix a)) xs)) c 0 0
        = filter (\<lambda>a. \<forall>j. ix a = Some j \<longrightarrow> j \<notin> set (sort (map (\<lambda>a. the (ix a)) xs))) c"
    by (rule survivors_indexed[OF _ dd idx]) simp
  also have "\<dots> = filter (\<lambda>a. a \<notin> set xs) c"
  proof (rule filter_cong[OF refl])
    fix a assume ac: "a \<in> set c"
    from pos[OF ac] obtain i where i: "ix a = Some i" by blast
    show "(\<forall>j. ix a = Some j \<longrightarrow> j \<notin> set (sort (map (\<lambda>a. the (ix a)) xs))) = (a \<notin> set xs)"
    proof
      assume out: "\<forall>j. ix a = Some j \<longrightarrow> j \<notin> set (sort (map (\<lambda>a. the (ix a)) xs))"
      show "a \<notin> set xs"
      proof
        assume "a \<in> set xs"
        then have "i \<in> set (sort (map (\<lambda>a. the (ix a)) xs))" using i by force
        with out i show False by simp
      qed
    next
      assume nin: "a \<notin> set xs"
      show "\<forall>j. ix a = Some j \<longrightarrow> j \<notin> set (sort (map (\<lambda>a. the (ix a)) xs))"
      proof (intro allI impI notI)
        fix j assume j: "ix a = Some j" and "j \<in> set (sort (map (\<lambda>a. the (ix a)) xs))"
        then obtain b where b: "b \<in> set xs" "j = the (ix b)" by auto
        from b(1) sub have bc: "b \<in> set c" by auto
        from pos[OF bc] b(2) have "ix b = Some j" by auto
        from indexed_inj[OF idx ac bc j this] b(1) nin show False by simp
      qed
    qed
  qed
  finally show ?thesis .
qed

lemma map_filter_all_Some:
  "\<forall>x \<in> set xs. f x \<noteq> None \<Longrightarrow> map Some (List.map_filter f xs) = map f xs"
  by (induction xs) (auto simp add: List.map_filter_def)

lemma map_filter_the:
  "\<forall>x \<in> set xs. f x \<noteq> None \<Longrightarrow> List.map_filter f xs = map (\<lambda>x. the (f x)) xs"
  by (induction xs) (auto simp add: List.map_filter_def)

lemma distinct_map_filter:
  assumes "\<forall>x \<in> set xs. f x \<noteq> None" and "distinct (map f xs)"
  shows "distinct (List.map_filter f xs)"
proof -
  have "distinct (map Some (List.map_filter f xs))"
    using assms(2) map_filter_all_Some[OF assms(1)] by simp
  then show ?thesis by (simp add: distinct_map)
qed

subsection \<open>The steps of \<open>delete_subtree\<close>\<close>

lemma bind_step: "m w = (Returns x, w') \<Longrightarrow> f x w' = r \<Longrightarrow> bind m f w = r"
  by (simp add: bind_def)

lemma find_pred_ring_last:
  assumes a: "cell m a = Some la" and ch: "chain m a (l_next la) cs"
  shows "find_pred m a (l_next la) = Some (Inr (last (a # cs)))"
proof (cases cs)
  case Nil
  then have "l_next la = a" using ch by simp
  then show ?thesis using a Nil by (subst find_pred.simps) simp
next
  case (Cons x xs)
  then obtain lx where lx: "cell m x = Some lx" "chain m a (l_next lx) xs" "x = l_next la"
    using ch by (auto split: option.splits)
  from find_pred_chain[OF lx(2) lx(1) refl] lx(3) Cons show ?thesis by simp
qed

lemma chain_next_in:
  "chain m a c cs \<Longrightarrow> c \<in> set (a # cs)"
  by (cases cs) (auto split: option.splits)

lemma collect_subtree_run:
  fixes w :: "('n, 'e) world"
  assumes live: "\<forall>l \<in> set ls. \<exists>L ND E LO. cell (link_mem w) l = Some L
            \<and> cell (node_mem w) (l_node L) = Some ND \<and> cell (edge_mem w) (l_edge L) = Some E
            \<and> cell (link_mem w) (l_outer L) = Some LO"
    and rt: "root_link_index w < length (links w)"
    and RL: "cell (link_mem w) (links w ! root_link_index w) = Some RL"
  shows "\<exists>cr'. collect_subtree ls (dn, de, dl, cr) w
           = (Returns (dn @ map (\<lambda>l. the (node_ix w (the (map_option l_node (cell (link_mem w) l))))) ls,
                       de @ map (\<lambda>l. the (edge_ix w (the (map_option l_edge (cell (link_mem w) l))))) ls,
                       dl @ concat (map (\<lambda>l. [the (link_ix w l),
                                the (link_ix w (the (map_option l_outer (cell (link_mem w) l))))]) ls),
                       cr'), w)"
  using live
proof (induction ls arbitrary: dn de dl cr)
  case Nil
  then show ?case by (simp add: ret_def)
next
  case (Cons l ls)
  let ?fn = "\<lambda>l. the (node_ix w (the (map_option l_node (cell (link_mem w) l))))"
  let ?fe = "\<lambda>l. the (edge_ix w (the (map_option l_edge (cell (link_mem w) l))))"
  let ?fl = "\<lambda>l. [the (link_ix w l), the (link_ix w (the (map_option l_outer (cell (link_mem w) l))))]"
  from Cons.prems obtain L ND E LO where c: "cell (link_mem w) l = Some L"
    "cell (node_mem w) (l_node L) = Some ND" "cell (edge_mem w) (l_edge L) = Some E"
    "cell (link_mem w) (l_outer L) = Some LO" by auto
  have rest: "\<forall>l \<in> set ls. \<exists>L ND E LO. cell (link_mem w) l = Some L
            \<and> cell (node_mem w) (l_node L) = Some ND \<and> cell (edge_mem w) (l_edge L) = Some E
            \<and> cell (link_mem w) (l_outer L) = Some LO" using Cons.prems by simp
  have ir: "is_root (l_node L) w = (Returns (l_node RL = l_node L), w)"
    using rt RL by (simp add: is_root_def root_node_def root_link_def link_at_def exec_defs)
  from Cons.IH[OF rest, of "dn @ [n_index ND]" "de @ [e_index E]" "dl @ [l_index L, l_index LO]"
      "cr \<or> l_node RL = l_node L"]
  obtain cr' where r: "collect_subtree ls (dn @ [n_index ND], de @ [e_index E],
        dl @ [l_index L, l_index LO], cr \<or> l_node RL = l_node L) w
      = (Returns ((dn @ [n_index ND]) @ map ?fn ls, (de @ [e_index E]) @ map ?fe ls,
                 (dl @ [l_index L, l_index LO]) @ concat (map ?fl ls), cr'), w)"
    by blast
  have "collect_subtree (l # ls) (dn, de, dl, cr) w
      = (Returns (dn @ map ?fn (l # ls), de @ map ?fe (l # ls), dl @ concat (map ?fl (l # ls)), cr'), w)"
    using c ir r by (simp add: exec_defs node_ix_def edge_ix_def link_ix_def)
  then show ?case by blast
qed

lemma compact_nodes_run:
  fixes w :: "('n, 'e) world"
  assumes live: "\<forall>a \<in> set (nodes w). cell (node_mem w) a \<noteq> None"
  shows "\<exists>dead v. compact_nodes del w = (Returns dead, v) \<and> nodes v = survivors del (nodes w) 0 0
           \<and> links v = links w \<and> edges v = edges w \<and> link_mem v = link_mem w
           \<and> edge_mem v = edge_mem w"
proof -
  let ?I = "\<lambda>v :: ('n, 'e) world. nodes v = nodes w \<and> links v = links w \<and> edges v = edges w
       \<and> link_mem v = link_mem w \<and> edge_mem v = edge_mem w
       \<and> (\<forall>a \<in> set (nodes w). cell (node_mem v) a \<noteq> None)"
  have "\<exists>v. compact_loop node_reset_index del (nodes w) 0 0 [] w
              = (Returns ([] @ survivors del (nodes w) 0 0), v) \<and> ?I v"
  proof (rule compact_loop_run[where I = ?I])
    show "?I w" using live by simp
  next
    fix a j and v :: "('n, 'e) world"
    assume "a \<in> set (nodes w)" and I: "?I v"
    then obtain X where "cell (node_mem v) a = Some X" by fastforce
    then show "\<exists>v'. node_reset_index a j v = (Returns (), v') \<and> ?I v'"
      using I by (auto simp add: node_reset_index_def node_update_def ret_def cell_update)
  qed
  then show ?thesis by (auto simp add: compact_nodes_def bind_def ret_def)
qed

lemma compact_edges_run:
  fixes w :: "('n, 'e) world"
  assumes live: "\<forall>a \<in> set (edges w). cell (edge_mem w) a \<noteq> None"
  shows "\<exists>dead v. compact_edges del w = (Returns dead, v) \<and> edges v = survivors del (edges w) 0 0
           \<and> nodes v = nodes w \<and> links v = links w \<and> link_mem v = link_mem w"
proof -
  let ?I = "\<lambda>v :: ('n, 'e) world. nodes v = nodes w \<and> links v = links w \<and> edges v = edges w
       \<and> link_mem v = link_mem w
       \<and> (\<forall>a \<in> set (edges w). cell (edge_mem v) a \<noteq> None)"
  have "\<exists>v. compact_loop edge_reset_index del (edges w) 0 0 [] w
              = (Returns ([] @ survivors del (edges w) 0 0), v) \<and> ?I v"
  proof (rule compact_loop_run[where I = ?I])
    show "?I w" using live by simp
  next
    fix a j and v :: "('n, 'e) world"
    assume "a \<in> set (edges w)" and I: "?I v"
    then obtain X where "cell (edge_mem v) a = Some X" by fastforce
    then show "\<exists>v'. edge_reset_index a j v = (Returns (), v') \<and> ?I v'"
      using I by (auto simp add: edge_reset_index_def edge_update_def ret_def cell_update)
  qed
  then show ?thesis by (auto simp add: compact_edges_def bind_def ret_def)
qed

lemma compact_links_run:
  fixes w :: "('n, 'e) world"
  assumes live: "\<forall>a \<in> set (links w). cell (link_mem w) a \<noteq> None"
  shows "\<exists>dead v. compact_links del w = (Returns dead, v) \<and> links v = survivors del (links w) 0 0
           \<and> nodes v = nodes w \<and> edges v = edges w
           \<and> (\<forall>a. cell (link_mem w) a \<noteq> None \<longrightarrow> cell (link_mem v) a \<noteq> None)"
proof -
  let ?I = "\<lambda>v :: ('n, 'e) world. nodes v = nodes w \<and> links v = links w \<and> edges v = edges w
       \<and> (\<forall>a. cell (link_mem w) a \<noteq> None \<longrightarrow> cell (link_mem v) a \<noteq> None)"
  have "\<exists>v. compact_loop link_reset_index del (links w) 0 0 [] w
              = (Returns ([] @ survivors del (links w) 0 0), v) \<and> ?I v"
  proof (rule compact_loop_run[where I = ?I])
    show "?I w" by simp
  next
    fix a j and v :: "('n, 'e) world"
    assume "a \<in> set (links w)" and I: "?I v"
    then obtain X where "cell (link_mem v) a = Some X" using live by fastforce
    then show "\<exists>v'. link_reset_index a j v = (Returns (), v') \<and> ?I v'"
      using I by (auto simp add: link_reset_index_def link_update_def ret_def cell_update)
  qed
  then show ?thesis by (auto simp add: compact_links_def bind_def ret_def)
qed

subsection \<open>Every run of \<open>delete_subtree\<close> on a well-formed view\<close>

lemma distinct_length_le: "distinct xs \<Longrightarrow> set xs \<subseteq> set ys \<Longrightarrow> length xs \<le> length ys"
  by (metis card_length card_mono distinct_card List.finite_set le_trans)

lemma length_concat_pairs: "length (concat (map (\<lambda>l. [f l, g l]) ls)) = 2 * length ls"
  by (induction ls) simp_all

lemma delete_subtree_run:
  fixes w :: "('n, 'e) world"
  assumes idx: "indexed w" and cl: "links_closed w" and rc: "refs_closed w"
    and p_in: "p \<in> set (links w)"
    and walk: "preorder_walk (link_mem w) [p] [] = Some (Inr ls)"
    and sub: "set ls \<subseteq> set (links w)"
    and dn: "distinct (map (\<lambda>l. map_option l_node (cell (link_mem w) l)) ls)"
    and de: "distinct (map (\<lambda>l. map_option l_edge (cell (link_mem w) l)) ls)"
    and dl: "distinct (concat (map (\<lambda>l. [Some l, map_option l_outer (cell (link_mem w) l)]) ls))"
  shows "\<exists>w'. delete_subtree p w = (Returns (), w')
           \<and> nodes w' = filter (\<lambda>a. a \<notin> set (List.map_filter (\<lambda>l. map_option l_node (cell (link_mem w) l)) ls))
                          (nodes w)
           \<and> edges w' = filter (\<lambda>a. a \<notin> set (List.map_filter (\<lambda>l. map_option l_edge (cell (link_mem w) l)) ls))
                          (edges w)
           \<and> links w' = filter (\<lambda>a. a \<notin> set (List.map_filter id
                             (concat (map (\<lambda>l. [Some l, map_option l_outer (cell (link_mem w) l)]) ls))))
                          (links w)"
proof -
  from idx have idx_l: "\<forall>i < length (links w). link_ix w (links w ! i) = Some i"
    and idx_n: "\<forall>i < length (nodes w). node_ix w (nodes w ! i) = Some i"
    and idx_e: "\<forall>i < length (edges w). edge_ix w (edges w ! i) = Some i"
    by (simp_all add: indexed_def)
  from rc have rt: "root_link_index w < length (links w)" by (simp add: refs_closed_def)
  have nlive: "cell (node_mem w) a \<noteq> None" if "a \<in> set (nodes w)" for a
    using live_of_indexed[of "nodes w" n_index "node_mem w" a] idx_n that by (simp add: node_ix_def)
  have elive: "cell (edge_mem w) a \<noteq> None" if "a \<in> set (edges w)" for a
    using live_of_indexed[of "edges w" e_index "edge_mem w" a] idx_e that by (simp add: edge_ix_def)
  have llive: "cell (link_mem w) a \<noteq> None" if "a \<in> set (links w)" for a
    using live_of_indexed[of "links w" l_index "link_mem w" a] idx_l that by (simp add: link_ix_def)
  have outer_in: "l_outer X \<in> set (links w)" if "l \<in> set (links w)" "cell (link_mem w) l = Some X" for l X
    using cl that by (auto simp add: links_closed_def)
  \<comment> \<open>the walk and the deletion lists\<close>
  have a_pre: "preorder p w = (Returns ls, w)" using walk by (simp add: preorder_def lift_loop_def)
  have live: "\<forall>l \<in> set ls. \<exists>X ND E LO. cell (link_mem w) l = Some X
            \<and> cell (node_mem w) (l_node X) = Some ND \<and> cell (edge_mem w) (l_edge X) = Some E
            \<and> cell (link_mem w) (l_outer X) = Some LO"
  proof
    fix l assume "l \<in> set ls"
    then have l: "l \<in> set (links w)" using sub by auto
    from refs_closedD[OF rc l] obtain X where X: "cell (link_mem w) l = Some X"
      "l_node X \<in> set (nodes w)" "l_edge X \<in> set (edges w)" by blast
    from nlive[OF X(2)] elive[OF X(3)] llive[OF outer_in[OF l X(1)]] X(1)
    show "\<exists>X ND E LO. cell (link_mem w) l = Some X
            \<and> cell (node_mem w) (l_node X) = Some ND \<and> cell (edge_mem w) (l_edge X) = Some E
            \<and> cell (link_mem w) (l_outer X) = Some LO" by auto
  qed
  have R_in: "links w ! root_link_index w \<in> set (links w)" using rt by simp
  from llive[OF R_in] obtain RL where RL: "cell (link_mem w) (links w ! root_link_index w) = Some RL"
    by auto
  define DN where "DN = map (\<lambda>l. the (node_ix w (the (map_option l_node (cell (link_mem w) l))))) ls"
  define DE where "DE = map (\<lambda>l. the (edge_ix w (the (map_option l_edge (cell (link_mem w) l))))) ls"
  define DL where "DL = concat (map (\<lambda>l. [the (link_ix w l),
                          the (link_ix w (the (map_option l_outer (cell (link_mem w) l))))]) ls)"
  from collect_subtree_run[OF live rt RL, of "[]" "[]" "[]" False]
  obtain CR where a_col: "collect_subtree ls ([], [], [], False) w = (Returns (DN, DE, DL, CR), w)"
    unfolding DN_def DE_def DL_def by auto
  have lenDE: "length DE = length ls" by (simp add: DE_def)
  have lenDL: "length DL = 2 * length ls" unfolding DL_def by (rule length_concat_pairs)
  \<comment> \<open>the attachment link and its ring\<close>
  from llive[OF p_in] obtain P where P: "cell (link_mem w) p = Some P" by auto
  have at_in: "l_outer P \<in> set (links w)" by (rule outer_in[OF p_in P])
  from refs_closedD[OF rc at_in] obtain AT cs where AT: "cell (link_mem w) (l_outer P) = Some AT"
    and ch: "chain (link_mem w) (l_outer P) (l_next AT) cs" and cs_in: "set cs \<subseteq> set (links w)" by blast
  have nx_in: "l_next AT \<in> set (links w)" using chain_next_in[OF ch] at_in cs_in by auto
  define rp where "rp = (if CR then l_next AT else links w ! root_link_index w)"
  have a_rp: "(if CR then bind (link_outer p) link_next else root_link) w = (Returns rp, w)"
    using P AT rt by (simp add: rp_def exec_defs root_link_def link_at_def)
  have rp_in: "rp \<in> set (links w)" using nx_in R_in by (simp add: rp_def)
  have a_lo: "link_outer p w = (Returns (l_outer P), w)" using P by (simp add: exec_defs)
  have a_ln: "link_next (l_outer P) w = (Returns (l_next AT), w)" using AT by (simp add: exec_defs)
  define lp where "lp = last (l_outer P # cs)"
  have fp: "find_pred (link_mem w) (l_outer P) (l_next AT) = Some (Inr lp)"
    unfolding lp_def by (rule find_pred_ring_last[OF AT ch])
  have lp_in: "lp \<in> set (links w)"
  proof -
    have "lp \<in> set (l_outer P # cs)" unfolding lp_def by (rule last_in_set) simp
    then show ?thesis using at_in cs_in by auto
  qed
  from find_pred_Inr[OF fp] obtain L where L: "cell (link_mem w) lp = Some L"
    and Ln: "l_next L = l_outer P" by blast
  have a_wp: "walk_to_pred (l_outer P) (l_next AT) w = (Returns lp, w)"
    using fp by (simp add: walk_to_pred_def lift_loop_def)
  from in_set_position[OF lp_in] obtain k where k: "k < length (links w)" "links w ! k = lp" by blast
  from idx_l k L have Lk: "l_index L = k" by (auto simp add: link_ix_def)
  have a_li: "link_index lp w = (Returns k, w)" using L Lk by (simp add: exec_defs)
  have a_la: "link_at k w = (Returns lp, w)" using k by (simp add: link_at_def ret_def)
  from refs_closedD[OF rc lp_in] L have ncn_in: "l_node L \<in> set (nodes w)" by auto
  from nlive[OF ncn_in] obtain NC where NC: "cell (node_mem w) (l_node L) = Some NC" by auto
  have a_lnode: "link_node lp w = (Returns (l_node L), w)" using L by (simp add: exec_defs)
  have a_np: "node_primary_link (l_node L) w = (Returns (n_link NC), w)" using NC by (simp add: exec_defs)
  have a_lnx: "link_next lp w = (Returns (l_outer P), w)" using L Ln by (simp add: exec_defs)
  define w1 where "w1 = (if n_link NC = l_outer P
      then w\<lparr>node_mem := (node_mem w)[l_node L := Some (NC\<lparr>n_link := l_next AT\<rparr>)]\<rparr> else w)"
  have a_if: "(if n_link NC = l_outer P
               then bind (link_next (l_outer P)) (\<lambda>nn. node_reset_primary_link (l_node L) nn)
               else ret ()) w = (Returns (), w1)"
    using AT NC by (simp add: w1_def exec_defs)
  have w1: "link_mem w1 = link_mem w" "edge_mem w1 = edge_mem w" "links w1 = links w"
    "nodes w1 = nodes w" "edges w1 = edges w"
    by (simp_all add: w1_def)
  have nlive1: "cell (node_mem w1) a \<noteq> None" if "a \<in> set (nodes w)" for a
    using nlive[OF that] by (auto simp add: w1_def cell_update)
  have a_lnx1: "link_next lp w1 = (Returns (l_outer P), w1)" using L Ln w1(1) by (simp add: exec_defs)
  have a_ln1: "link_next (l_outer P) w1 = (Returns (l_next AT), w1)" using AT w1(1) by (simp add: exec_defs)
  define w2 where "w2 = w1\<lparr>link_mem := (link_mem w1)[lp := Some (L\<lparr>l_next := l_next AT\<rparr>)]\<rparr>"
  have a_rn: "link_reset_next lp (l_next AT) w1 = (Returns (), w2)"
    using L w1(1) by (simp add: w2_def link_reset_next_def link_update_def ret_def)
  have w2: "node_mem w2 = node_mem w1" "edge_mem w2 = edge_mem w" "links w2 = links w"
    "nodes w2 = nodes w" "edges w2 = edges w"
    using w1 by (simp_all add: w2_def)
  have llive2: "cell (link_mem w2) a \<noteq> None" if "cell (link_mem w) a \<noteq> None" for a
    using that by (auto simp add: w2_def w1(1) cell_update)
  \<comment> \<open>the sizes of the deletion lists\<close>
  have "length ls \<le> length (nodes w)"
  proof -
    have "set (map (\<lambda>l. map_option l_node (cell (link_mem w) l)) ls) \<subseteq> set (map Some (nodes w))"
    proof
      fix x assume "x \<in> set (map (\<lambda>l. map_option l_node (cell (link_mem w) l)) ls)"
      then obtain l where l: "l \<in> set ls" "x = map_option l_node (cell (link_mem w) l)" by auto
      then have "l \<in> set (links w)" using sub by auto
      from refs_closedD[OF rc this] l(2) show "x \<in> set (map Some (nodes w))" by auto
    qed
    from distinct_length_le[OF dn this] show ?thesis by simp
  qed
  then have lenDN: "length (sort DN) \<le> length (nodes w2)" by (simp add: DN_def w2)
  have "length ls \<le> length (edges w)"
  proof -
    have "set (map (\<lambda>l. map_option l_edge (cell (link_mem w) l)) ls) \<subseteq> set (map Some (edges w))"
    proof
      fix x assume "x \<in> set (map (\<lambda>l. map_option l_edge (cell (link_mem w) l)) ls)"
      then obtain l where l: "l \<in> set ls" "x = map_option l_edge (cell (link_mem w) l)" by auto
      then have "l \<in> set (links w)" using sub by auto
      from refs_closedD[OF rc this] l(2) show "x \<in> set (map Some (edges w))" by auto
    qed
    from distinct_length_le[OF de this] show ?thesis by simp
  qed
  then have lenDE': "length (sort DE) \<le> length (edges w2)" by (simp add: lenDE w2)
  have "2 * length ls \<le> length (links w)"
  proof -
    have "set (concat (map (\<lambda>l. [Some l, map_option l_outer (cell (link_mem w) l)]) ls))
            \<subseteq> set (map Some (links w))"
    proof
      fix x assume "x \<in> set (concat (map (\<lambda>l. [Some l, map_option l_outer (cell (link_mem w) l)]) ls))"
      then obtain l where l: "l \<in> set ls" "x = Some l \<or> x = map_option l_outer (cell (link_mem w) l)"
        by auto
      then have lin: "l \<in> set (links w)" using sub by auto
      from llive[OF lin] obtain X where X: "cell (link_mem w) l = Some X" by auto
      from outer_in[OF lin X] l(2) lin X show "x \<in> set (map Some (links w))" by auto
    qed
    from distinct_length_le[OF dl this] show ?thesis by (simp add: length_concat_pairs)
  qed
  then have lenDL': "length (sort DL) \<le> length (links w2)" by (simp add: lenDL w2)
  have a_nc: "node_count w2 = (Returns (length (nodes w2)), w2)" by (simp add: node_count_def ret_def)
  have a_ec: "edge_count w2 = (Returns (length (edges w2)), w2)" by (simp add: edge_count_def ret_def)
  have a_lc: "link_count w2 = (Returns (length (links w2)), w2)" by (simp add: link_count_def ret_def)
  have a_r1: "reserve_check (length (nodes w2)) (length (sort DN)) w2 = (Returns (), w2)"
    using lenDN by (simp add: reserve_check_def ret_def)
  have a_r2: "reserve_check (length (edges w2)) (length (sort DE)) w2 = (Returns (), w2)"
    using lenDE' by (simp add: reserve_check_def ret_def)
  have a_r3: "reserve_check (length (links w2)) (length (sort DL)) w2 = (Returns (), w2)"
    using lenDL' by (simp add: reserve_check_def ret_def)
  \<comment> \<open>the three compactions\<close>
  have "\<forall>a \<in> set (nodes w2). cell (node_mem w2) a \<noteq> None" using nlive1 w2 by simp
  from compact_nodes_run[OF this, of "sort DN"] obtain dead_n v3 where
    a_cn: "compact_nodes (sort DN) w2 = (Returns dead_n, v3)"
    and v3: "nodes v3 = survivors (sort DN) (nodes w2) 0 0" "links v3 = links w2" "edges v3 = edges w2"
      "link_mem v3 = link_mem w2" "edge_mem v3 = edge_mem w2" by blast
  have "\<forall>a \<in> set (edges v3). cell (edge_mem v3) a \<noteq> None" using elive v3 w2 by simp
  from compact_edges_run[OF this, of "sort DE"] obtain dead_e v4 where
    a_ce: "compact_edges (sort DE) v3 = (Returns dead_e, v4)"
    and v4: "nodes v4 = nodes v3" "links v4 = links v3" "link_mem v4 = link_mem v3"
      "edges v4 = survivors (sort DE) (edges v3) 0 0" by blast
  have "\<forall>a \<in> set (links v4). cell (link_mem v4) a \<noteq> None" using llive llive2 v4 v3 w2 by simp
  from compact_links_run[OF this, of "sort DL"] obtain dead_l v5 where
    a_cl: "compact_links (sort DL) v4 = (Returns dead_l, v5)"
    and v5: "nodes v5 = nodes v4"
      "\<forall>a. cell (link_mem v4) a \<noteq> None \<longrightarrow> cell (link_mem v5) a \<noteq> None"
      "edges v5 = edges v4" "links v5 = survivors (sort DL) (links v4) 0 0" by blast
  have "cell (link_mem v5) rp \<noteq> None" using llive[OF rp_in] llive2 v5(2) v4 v3 by simp
  then obtain RP where RP: "cell (link_mem v5) rp = Some RP" by auto
  have a_ri: "link_index rp v5 = (Returns (l_index RP), v5)" using RP by (simp add: exec_defs)
  define v6 where "v6 = v5\<lparr>root_link_index := l_index RP\<rparr>"
  have a_rr: "reset_root_link_index (l_index RP) v5 = (Returns (), v6)"
    by (simp add: reset_root_link_index_def ret_def v6_def)
  define w' where "w' = v6\<lparr>node_mem := release dead_n (node_mem v6),
               edge_mem := release dead_e (edge_mem v6),
               link_mem := release dead_l (link_mem v6)\<rparr>"
  have a_ls: "leave_scope dead_n dead_e dead_l v6 = (Returns (), w')"
    by (simp add: leave_scope_def ret_def w'_def)
  have bel: "belongs_to_link p w" using p_in by (simp add: belongs_to_link_def)
  have run: "delete_subtree p w = (Returns (), w')"
    unfolding delete_subtree_def
    apply (simp only: bel not_True_eq_False if_False)
    apply (rule bind_step, rule a_pre)
    apply (rule bind_step, rule a_col)
    apply (simp only: prod.case Let_def)
    apply (rule bind_step, rule a_rp)
    apply (rule bind_step, rule a_lo)
    apply (rule bind_step, rule a_ln)
    apply (rule bind_step, rule a_wp)
    apply (rule bind_step, rule a_li)
    apply (rule bind_step, rule a_la)
    apply (rule bind_step, rule a_lnode)
    apply (rule bind_step, rule a_np)
    apply (rule bind_step, rule a_lnx)
    apply (rule bind_step, rule a_if)
    apply (rule bind_step, rule a_lnx1)
    apply (rule bind_step, rule a_ln1)
    apply (rule bind_step, rule a_rn)
    apply (rule bind_step, rule a_nc)
    apply (rule bind_step, rule a_r1)
    apply (rule bind_step, rule a_ec)
    apply (rule bind_step, rule a_r2)
    apply (rule bind_step, rule a_lc)
    apply (rule bind_step, rule a_r3)
    apply (rule bind_step, rule a_cn)
    apply (rule bind_step, rule a_ce)
    apply (rule bind_step, rule a_cl)
    apply (rule bind_step, rule a_ri)
    apply (rule bind_step, rule a_rr)
    apply (rule a_ls)
    done
  \<comment> \<open>the elements that stay\<close>
  let ?fn = "\<lambda>l. map_option l_node (cell (link_mem w) l)"
  let ?fe = "\<lambda>l. map_option l_edge (cell (link_mem w) l)"
  let ?os = "concat (map (\<lambda>l. [Some l, map_option l_outer (cell (link_mem w) l)]) ls)"
  have nodes': "nodes w' = survivors (sort DN) (nodes w) 0 0"
    using v5(1) v4(1) v3(1) w2 by (simp add: w'_def v6_def)
  have edges': "edges w' = survivors (sort DE) (edges w) 0 0"
    using v5(3) v4(4) v3(3) w2 by (simp add: w'_def v6_def)
  have links': "links w' = survivors (sort DL) (links w) 0 0"
    using v5(4) v4(2) v3(2) w2 by (simp add: w'_def v6_def)
  have def_n: "\<forall>l \<in> set ls. ?fn l \<noteq> None" and def_e: "\<forall>l \<in> set ls. ?fe l \<noteq> None"
    using live by auto
  have def_o: "\<forall>x \<in> set ?os. id x \<noteq> None" using live by auto
  have sub_n: "set (List.map_filter ?fn ls) \<subseteq> set (nodes w)"
  proof
    fix a assume "a \<in> set (List.map_filter ?fn ls)"
    then obtain l X where l: "l \<in> set ls" "cell (link_mem w) l = Some X" "l_node X = a"
      by (auto simp add: List.map_filter_def)
    then have "l \<in> set (links w)" using sub by auto
    from refs_closedD[OF rc this] l show "a \<in> set (nodes w)" by auto
  qed
  have sub_e: "set (List.map_filter ?fe ls) \<subseteq> set (edges w)"
  proof
    fix a assume "a \<in> set (List.map_filter ?fe ls)"
    then obtain l X where l: "l \<in> set ls" "cell (link_mem w) l = Some X" "l_edge X = a"
      by (auto simp add: List.map_filter_def)
    then have "l \<in> set (links w)" using sub by auto
    from refs_closedD[OF rc this] l show "a \<in> set (edges w)" by auto
  qed
  have sub_l: "set (List.map_filter id ?os) \<subseteq> set (links w)"
  proof
    fix a assume "a \<in> set (List.map_filter id ?os)"
    then have "Some a \<in> set (map Some (List.map_filter id ?os))" by simp
    then have "Some a \<in> set ?os" unfolding map_filter_all_Some[OF def_o] by simp
    then have "\<exists>l \<in> set ls. a = l \<or> map_option l_outer (cell (link_mem w) l) = Some a"
      by (auto simp add: eq_commute)
    then obtain l where l: "l \<in> set ls" "a = l \<or> map_option l_outer (cell (link_mem w) l) = Some a"
      by blast
    then have lin: "l \<in> set (links w)" using sub by auto
    from llive[OF lin] obtain X where X: "cell (link_mem w) l = Some X" by auto
    from outer_in[OF lin X] l(2) lin X show "a \<in> set (links w)" by auto
  qed
  have "DN = map (\<lambda>a. the (node_ix w a)) (List.map_filter ?fn ls)"
    by (simp add: DN_def map_filter_the[OF def_n] comp_def)
  with survivors_members[OF idx_n sub_n distinct_map_filter[OF def_n dn]] nodes'
  have A: "nodes w' = filter (\<lambda>a. a \<notin> set (List.map_filter ?fn ls)) (nodes w)" by simp
  have "DE = map (\<lambda>a. the (edge_ix w a)) (List.map_filter ?fe ls)"
    by (simp add: DE_def map_filter_the[OF def_e] comp_def)
  with survivors_members[OF idx_e sub_e distinct_map_filter[OF def_e de]] edges'
  have B: "edges w' = filter (\<lambda>a. a \<notin> set (List.map_filter ?fe ls)) (edges w)" by simp
  have "distinct (map id ?os)" using dl by simp
  from distinct_map_filter[OF def_o this] have dist_l: "distinct (List.map_filter id ?os)" .
  have "DL = map (\<lambda>a. the (link_ix w a)) (List.map_filter id ?os)"
    by (simp add: DL_def map_filter_the[OF def_o] map_concat comp_def)
  with survivors_members[OF idx_l sub_l dist_l] links'
  have C: "links w' = filter (\<lambda>a. a \<notin> set (List.map_filter id ?os)) (links w)" by simp
  from run A B C show ?thesis by blast
qed

subsection \<open>The dispatch of node deletion\<close>

text \<open>
  C1, amended. For a node of the tree whose ring has \<open>d\<close> links, \<open>delete_node\<close> is
  \<open>delete_leaf_node\<close> when \<open>d = 1\<close>, \<open>delete_linear_node\<close> without a callback when
  \<open>d = 2\<close>, and otherwise \<open>delete_subtree\<close> on the subtree view of the node, the view
  anchored at the node's primary link. Nothing but the degree enters the choice.

  For \<open>d \<ge> 3\<close> the call is no single-node splice. On a tree whose stored indices agree
  with the positions, whose references stay inside the tree, whose rings are cycles, and
  in which the view of the node is as \<open>delete_subtree\<close> needs it (\<open>view_ok\<close>), the call
  returns, and the nodes, the edges and the links of the tree afterwards are those before,
  in their order, without the nodes, the edges and the links of the view. The view holds
  the node itself and everything on the far side of its primary link, pairwise different
  nodes of the tree, at least \<open>d\<close> of them; its edges are the edges at the links through
  which the walk enters these nodes, the edge at the primary link of the node among them;
  its links are these links and their outer links.
  At a node other than the root the primary link faces the root, so that the node goes
  together with everything on its non-root side; at the root node the part of the tree
  behind the primary link is not in the view and stays.
\<close>

theorem delete_node_dispatches_on_degree:
  fixes w :: "('n, 'e) world"
  assumes bel: "belongs_to_node n w" and deg: "fst (degree n w) = Returns d"
  shows "delete_node n w =
           (if d = 1 then delete_leaf_node n w
            else if d = 2 then delete_linear_node n None w
            else bind (Subtree n) delete_subtree w)
       \<and> (3 \<le> d \<and> indexed w \<and> links_closed w \<and> refs_closed w \<and> view_ok w n \<longrightarrow>
            (\<exists>w'. delete_node n w = (Returns (), w')
               \<and> nodes w' = filter (\<lambda>a. a \<notin> set (subtree_nodes w n)) (nodes w)
               \<and> edges w' = filter (\<lambda>a. a \<notin> set (subtree_edges w n)) (edges w)
               \<and> links w' = filter (\<lambda>a. a \<notin> set (subtree_links w n)) (links w)
               \<and> n \<in> set (subtree_nodes w n) \<and> set (subtree_nodes w n) \<subseteq> set (nodes w)
               \<and> distinct (subtree_nodes w n) \<and> d \<le> length (subtree_nodes w n)))"
proof (intro conjI impI)
  show dispatch: "delete_node n w =
           (if d = 1 then delete_leaf_node n w
            else if d = 2 then delete_linear_node n None w
            else bind (Subtree n) delete_subtree w)"
    using bel deg degree_Returns[of n w d] by (simp add: delete_node_def bind_def)
  assume h: "3 \<le> d \<and> indexed w \<and> links_closed w \<and> refs_closed w \<and> view_ok w n"
  then have d3: "3 \<le> d" and idx: "indexed w" and cl: "links_closed w" and rc: "refs_closed w"
    and vo: "view_ok w n" by simp_all
  let ?f = "\<lambda>l. map_option l_node (cell (link_mem w) l)"
  from vo obtain N ls where N: "cell (node_mem w) n = Some N"
    and own: "?f (n_link N) = Some n"
    and walk: "preorder_walk (link_mem w) [n_link N] [] = Some (Inr ls)"
    and sub: "set ls \<subseteq> set (links w)"
    and dn: "distinct (map ?f ls)"
    and de: "distinct (map (\<lambda>l. map_option l_edge (cell (link_mem w) l)) ls)"
    and dl: "distinct (concat (map (\<lambda>l. [Some l, map_option l_outer (cell (link_mem w) l)]) ls))"
    by (auto simp add: view_ok_def split: option.splits sum.splits)
  have sn: "subtree_nodes w n = List.map_filter ?f ls"
    using N walk by (simp add: subtree_nodes_def)
  have se: "subtree_edges w n = List.map_filter (\<lambda>l. map_option l_edge (cell (link_mem w) l)) ls"
    using N walk by (simp add: subtree_edges_def)
  have sl: "subtree_links w n = List.map_filter id
              (concat (map (\<lambda>l. [Some l, map_option l_outer (cell (link_mem w) l)]) ls))"
    using N walk by (simp add: subtree_links_def)
  from cl bel N have p_in: "n_link N \<in> set (links w)"
    by (auto simp add: links_closed_def belongs_to_node_def)
  from delete_subtree_run[OF idx cl rc p_in walk sub dn de dl] obtain w' where
    run: "delete_subtree (n_link N) w = (Returns (), w')"
    and nodes': "nodes w' = filter (\<lambda>a. a \<notin> set (List.map_filter ?f ls)) (nodes w)"
    and edges': "edges w' = filter (\<lambda>a. a \<notin> set (List.map_filter
                     (\<lambda>l. map_option l_edge (cell (link_mem w) l)) ls)) (edges w)"
    and links': "links w' = filter (\<lambda>a. a \<notin> set (List.map_filter id
                     (concat (map (\<lambda>l. [Some l, map_option l_outer (cell (link_mem w) l)]) ls))))
                   (links w)" by blast
  have "bind (Subtree n) delete_subtree w = delete_subtree (n_link N) w"
    using N by (simp add: Subtree_def exec_defs)
  with dispatch d3 run have r: "delete_node n w = (Returns (), w')" by simp
  have def: "\<forall>l \<in> set ls. ?f l \<noteq> None"
  proof
    fix l assume "l \<in> set ls"
    then have "l \<in> set (links w)" using sub by auto
    from refs_closedD[OF rc this] show "?f l \<noteq> None" by auto
  qed
  have ms: "map Some (List.map_filter ?f ls) = map ?f ls" by (rule map_filter_all_Some[OF def])
  from preorder_walk_first[OF walk] obtain lp cs vs where lp: "cell (link_mem w) (n_link N) = Some lp"
    and cs: "ring_others (link_mem w) (n_link N) (l_next lp) [] = Some (Inr cs)"
    and ls: "ls = n_link N # vs" and len: "length cs \<le> length vs" by blast
  have n_in: "n \<in> set (List.map_filter ?f ls)"
    using own ls by (force simp add: List.map_filter_def)
  have sub_n: "set (List.map_filter ?f ls) \<subseteq> set (nodes w)"
  proof
    fix a assume "a \<in> set (List.map_filter ?f ls)"
    then obtain l X where l: "l \<in> set ls" "cell (link_mem w) l = Some X" "l_node X = a"
      by (auto simp add: List.map_filter_def)
    then have "l \<in> set (links w)" using sub by auto
    from refs_closedD[OF rc this] l show "a \<in> set (nodes w)" by auto
  qed
  have dist: "distinct (List.map_filter ?f ls)"
  proof -
    have "distinct (map Some (List.map_filter ?f ls))" using dn ms by simp
    then show ?thesis by (simp add: distinct_map)
  qed
  have "degree n w = (Returns (Suc (length cs)), w)"
    using N lp cs by (simp add: degree_def links_after_def exec_defs lift_loop_def)
  with deg have "d = Suc (length cs)" by simp
  moreover have "length (List.map_filter ?f ls) = length ls"
    using arg_cong[OF ms, of length] by simp
  ultimately have dlen: "d \<le> length (List.map_filter ?f ls)" using ls len by simp
  show "\<exists>w'. delete_node n w = (Returns (), w')
               \<and> nodes w' = filter (\<lambda>a. a \<notin> set (subtree_nodes w n)) (nodes w)
               \<and> edges w' = filter (\<lambda>a. a \<notin> set (subtree_edges w n)) (edges w)
               \<and> links w' = filter (\<lambda>a. a \<notin> set (subtree_links w n)) (links w)
               \<and> n \<in> set (subtree_nodes w n) \<and> set (subtree_nodes w n) \<subseteq> set (nodes w)
               \<and> distinct (subtree_nodes w n) \<and> d \<le> length (subtree_nodes w n)"
    using r nodes' edges' links' n_in sub_n dist dlen unfolding sn se sl by blast
qed

theorem delete_node_dispatches_on_degree_witness:
  "belongs_to_node 1 tree6 \<and> fst (degree 1 tree6) = Returns 3
   \<and> indexed tree6 \<and> links_closed tree6 \<and> refs_closed tree6 \<and> view_ok tree6 1
   \<and> subtree_nodes tree6 1 = [1, 2, 3] \<and> subtree_edges tree6 1 = [0, 1, 2]
   \<and> subtree_links tree6 1 = [3, 0, 6, 4, 7, 5]
   \<and> delete_node 1 tree6 = bind (Subtree 1) delete_subtree tree6
   \<and> fst (delete_node 1 tree6) = Returns ()
   \<and> nodes (snd (delete_node 1 tree6)) = [0, 4, 5]
   \<and> edges (snd (delete_node 1 tree6)) = [3, 4]
   \<and> links (snd (delete_node 1 tree6)) = [1, 2, 8, 9]
   \<and> belongs_to_node 4 tree6 \<and> fst (degree 4 tree6) = Returns 1
   \<and> delete_node 4 tree6 = delete_leaf_node 4 tree6
   \<and> fst (delete_node 4 tree6) = Returns ()
   \<and> nodes (snd (delete_node 4 tree6)) = [0, 1, 2, 3, 5]
   \<and> belongs_to_node 1 path3 \<and> fst (degree 1 path3) = Returns 2
   \<and> delete_node 1 path3 = delete_linear_node 1 None path3
   \<and> fst (delete_node 1 path3) = Returns ()
   \<and> nodes (snd (delete_node 1 path3)) = [0, 2]
   \<and> edges (snd (delete_node 1 path3)) = [0]
   \<and> links (snd (delete_node 1 path3)) = [0, 3]
   \<and> map (\<lambda>a. map_option l_outer (cell (link_mem (snd (delete_node 1 path3))) a)) [0, 3]
        = [Some 3, Some 0]"
proof -
  have b: "belongs_to_node 1 tree6" by (simp add: belongs_to_node_def example_defs)
  have d: "fst (degree 1 tree6) = Returns 3" by code_simp
  have i: "indexed tree6"
    by (simp add: indexed_def link_ix_def node_ix_def edge_ix_def example_defs cell_simps
          All_less_Suc eval_nat_numeral)
  have c: "links_closed tree6" by (simp add: links_closed_def example_defs cell_simps)
  have rc: "refs_closed tree6" by code_simp
  have v: "view_ok tree6 1" by code_simp
  have s: "subtree_nodes tree6 1 = [1, 2, 3]" by code_simp
  have se: "subtree_edges tree6 1 = [0, 1, 2]" by code_simp
  have sl: "subtree_links tree6 1 = [3, 0, 6, 4, 7, 5]" by code_simp
  have b4: "belongs_to_node 4 tree6" by (simp add: belongs_to_node_def example_defs)
  have d4: "fst (degree 4 tree6) = Returns 1" by code_simp
  have bp: "belongs_to_node 1 path3" by (simp add: belongs_to_node_def example_defs)
  have dp: "fst (degree 1 path3) = Returns 2" by code_simp
  have n: "nodes tree6 = [0, 1, 2, 3, 4, 5]" by (simp add: example_defs)
  have ed: "edges tree6 = [0, 1, 2, 3, 4]" by (simp add: example_defs)
  have li: "links tree6 = [0, 1, 2, 3, 4, 5, 6, 7, 8, 9]" by (simp add: example_defs)
  have r4: "fst (delete_node 4 tree6) = Returns ()" "nodes (snd (delete_node 4 tree6)) = [0, 1, 2, 3, 5]"
    by code_simp+
  have rp: "fst (delete_node 1 path3) = Returns ()" "nodes (snd (delete_node 1 path3)) = [0, 2]"
    "edges (snd (delete_node 1 path3)) = [0]" "links (snd (delete_node 1 path3)) = [0, 3]"
    "map (\<lambda>a. map_option l_outer (cell (link_mem (snd (delete_node 1 path3))) a)) [0, 3]
        = [Some 3, Some 0]"
    by code_simp+
  note t = delete_node_dispatches_on_degree[OF b d]
  from t have e: "delete_node 1 tree6 = bind (Subtree 1) delete_subtree tree6" by simp
  have ante: "3 \<le> (3 :: nat) \<and> indexed tree6 \<and> links_closed tree6 \<and> refs_closed tree6 \<and> view_ok tree6 1"
    using i c rc v by simp
  from t[THEN conjunct2, rule_format, OF ante]
  obtain w' where r: "delete_node 1 tree6 = (Returns (), w')"
    and n': "nodes w' = filter (\<lambda>a. a \<notin> set (subtree_nodes tree6 1)) (nodes tree6)"
    and e': "edges w' = filter (\<lambda>a. a \<notin> set (subtree_edges tree6 1)) (edges tree6)"
    and l': "links w' = filter (\<lambda>a. a \<notin> set (subtree_links tree6 1)) (links tree6)"
    by blast
  from n' have "nodes w' = [0, 4, 5]" unfolding s n by simp
  moreover from e' have "edges w' = [3, 4]" unfolding se ed by simp
  moreover from l' have "links w' = [1, 2, 8, 9]" unfolding sl li by simp
  ultimately have "fst (delete_node 1 tree6) = Returns () \<and> nodes (snd (delete_node 1 tree6)) = [0, 4, 5]
      \<and> edges (snd (delete_node 1 tree6)) = [3, 4] \<and> links (snd (delete_node 1 tree6)) = [1, 2, 8, 9]"
    using r by simp
  with e have "delete_node 1 tree6 = bind (Subtree 1) delete_subtree tree6
      \<and> fst (delete_node 1 tree6) = Returns () \<and> nodes (snd (delete_node 1 tree6)) = [0, 4, 5]
      \<and> edges (snd (delete_node 1 tree6)) = [3, 4] \<and> links (snd (delete_node 1 tree6)) = [1, 2, 8, 9]"
    by blast
  moreover from delete_node_dispatches_on_degree[OF b4 d4]
  have "delete_node 4 tree6 = delete_leaf_node 4 tree6" by simp
  moreover from delete_node_dispatches_on_degree[OF bp dp]
  have "delete_node 1 path3 = delete_linear_node 1 None path3" by simp
  ultimately show ?thesis using b d i c rc v s se sl b4 d4 bp dp r4 rp by blast
qed

text \<open>
  C1 as stated, at the root A of \<open>tree6\<close>. A has degree 3 and is the root, so every
  other node is on its non-root side. \<open>delete_node\<close> returns, and B, C and D are still
  nodes of the tree, with B as the root node: what sits behind the primary link of A has
  not been deleted.
\<close>

theorem delete_node_at_root_counterexample:
  "belongs_to_node 0 tree6 \<and> fst (degree 0 tree6) = Returns 3 \<and> fst (root_node tree6) = Returns 0
   \<and> fst (delete_node 0 tree6) = Returns ()
   \<and> nodes (snd (delete_node 0 tree6)) = [1, 2, 3]
   \<and> fst (root_node (snd (delete_node 0 tree6))) = Returns 1"
  by code_simp

end
